(* ===== verification/Go_Duration.thy ===== *)
theory Go_Duration
  imports Prelude
begin

section \<open>time.ParseDuration\<close>

text \<open>
  \<^verbatim>\<open>time.ParseDuration\<close> as the configuration uses it: a sign, then segments made of an
  integer part, an optional fraction and a unit; every step checked against \<^verbatim>\<open>1<<63\<close> in
  \<^verbatim>\<open>uint64\<close> arithmetic. A duration is an \<^verbatim>\<open>int64\<close> number of nanoseconds. The product of a
  fraction with its unit, a \<^verbatim>\<open>float64\<close> expression in Go, is taken exactly; the two agree
  whenever the product is a whole number of nanoseconds below \<open>2 ^ 53\<close>.
\<close>

definition nanosecond :: int where "nanosecond = 1"
definition millisecond :: int where "millisecond = 1000000"
definition second :: int where "second = 1000000000"
definition minute :: int where "minute = 60000000000"
definition hour :: int where "hour = 3600000000000"

lemmas duration_units [go_simps] =
  nanosecond_def millisecond_def second_def minute_def hour_def

definition unit_map :: "(string \<times> int) list" where
  "unit_map =
     [(''ns'', 1), (''us'', 1000),
      ([CHR 0xC2, CHR 0xB5, CHR ''s''], 1000), ([CHR 0xCE, CHR 0xBC, CHR ''s''], 1000),
      (''ms'', 1000000), (''s'', 1000000000), (''m'', 60000000000), (''h'', 3600000000000)]"

fun leading_int :: "int \<Rightarrow> string \<Rightarrow> (int \<times> string) option" where
  "leading_int x [] = Some (x, [])"
| "leading_int x (c # s) =
     (if \<not> is_digit c then Some (x, c # s)
      else if x > 2 ^ 63 div 10 then None
      else let y = x * 10 + digit_val c in if y > 2 ^ 63 then None else leading_int y s)"

text \<open>Digits after the point: the accumulated value and the power of ten it is scaled by.\<close>

fun leading_fraction :: "int \<Rightarrow> int \<Rightarrow> bool \<Rightarrow> string \<Rightarrow> int \<times> int \<times> string" where
  "leading_fraction x scale ovf [] = (x, scale, [])"
| "leading_fraction x scale ovf (c # s) =
     (if \<not> is_digit c then (x, scale, c # s)
      else if ovf then leading_fraction x scale True s
      else if x > (2 ^ 63 - 1) div 10 then leading_fraction x scale True s
      else let y = x * 10 + digit_val c
           in if y > 2 ^ 63 then leading_fraction x scale True s
              else leading_fraction y (scale * 10) False s)"

definition unit_char :: "char \<Rightarrow> bool" where
  "unit_char c \<longleftrightarrow> c \<noteq> CHR ''.'' \<and> \<not> is_digit c"

text \<open>One iteration of the loop: the value of the first segment and the rest of the input.\<close>

definition duration_segment :: "string \<Rightarrow> (int \<times> string) option" where
  "duration_segment s =
     (if s = [] \<or> \<not> (hd s = CHR ''.'' \<or> is_digit (hd s)) then None
      else (case leading_int 0 s of
        None \<Rightarrow> None
      | Some (v, s1) \<Rightarrow>
          let pre = (length s1 \<noteq> length s);
              dot = (s1 \<noteq> [] \<and> hd s1 = CHR ''.'');
              s2 = (if dot then tl s1 else s1);
              (f, scale, s3) = (if dot then leading_fraction 0 1 False s2 else (0, 1, s2));
              post = (dot \<and> length s3 \<noteq> length s2);
              u = takeWhile unit_char s3;
              s4 = dropWhile unit_char s3
          in if \<not> pre \<and> \<not> post then None
             else if u = [] then None
             else (case map_of unit_map u of
               None \<Rightarrow> None
             | Some unit \<Rightarrow>
                 if v > 2 ^ 63 div unit then None
                 else let w = v * unit + (if f > 0 then f * unit div scale else 0)
                      in if f > 0 \<and> w > 2 ^ 63 then None else Some (w, s4))))"

lemma leading_int_length: "leading_int x s = Some (v, r) \<Longrightarrow> length r \<le> length s"
  by (induction x s rule: leading_int.induct) (auto simp: Let_def split: if_splits)

lemma leading_fraction_length: "length (snd (snd (leading_fraction x sc b s))) \<le> length s"
  by (induction x sc b s rule: leading_fraction.induct) (auto simp: Let_def le_SucI)

lemma takeWhile_dropWhile_shorter:
  "takeWhile P s \<noteq> [] \<Longrightarrow> length (dropWhile P s) < length s"
  by (cases s) (auto simp: less_Suc_eq_le length_dropWhile_le split: if_splits)

lemma duration_segment_shorter:
  assumes "duration_segment s = Some (v, r)"
  shows "length r < length s"
proof -
  from assms obtain v1 s1 where li: "leading_int 0 s = Some (v1, s1)"
    by (auto simp: duration_segment_def split: if_splits option.splits)
  define dot where "dot = (s1 \<noteq> [] \<and> hd s1 = CHR ''.'')"
  define s2 where "s2 = (if dot then tl s1 else s1)"
  define s3 where "s3 = (if dot then snd (snd (leading_fraction 0 1 False s2)) else s2)"
  have r: "takeWhile unit_char s3 \<noteq> []" "r = dropWhile unit_char s3"
    using assms li
    by (auto simp: duration_segment_def s3_def s2_def dot_def Let_def
        split: if_splits option.splits prod.splits)
  have "length r < length s3" using r takeWhile_dropWhile_shorter by simp
  also have "length s3 \<le> length s2"
    by (simp add: s3_def leading_fraction_length)
  also have "length s2 \<le> length s1" by (simp add: s2_def)
  also have "length s1 \<le> length s" using li by (rule leading_int_length)
  finally show ?thesis .
qed

function duration_loop :: "int \<Rightarrow> string \<Rightarrow> int option" where
  "duration_loop d s =
     (if s = [] then Some d
      else (case duration_segment s of
        None \<Rightarrow> None
      | Some (v, r) \<Rightarrow>
          let e = (d + v) mod 2 ^ 64 in if e > 2 ^ 63 then None else duration_loop e r))"
  by pat_completeness auto
termination
  by (relation "measure (\<lambda>(d, s). length s)") (auto simp: duration_segment_shorter)

declare duration_loop.simps [simp del]

definition parse_duration :: "string \<Rightarrow> int option" where
  "parse_duration orig =
     (let signed = (orig \<noteq> [] \<and> (hd orig = CHR ''-'' \<or> hd orig = CHR ''+''));
          neg = (signed \<and> hd orig = CHR ''-'');
          s = (if signed then tl orig else orig)
      in if s = ''0'' then Some 0
         else if s = [] then None
         else (case duration_loop 0 s of
           None \<Rightarrow> None
         | Some d \<Rightarrow>
             if neg then Some (- d)
             else if d > 2 ^ 63 - 1 then None else Some d))"

lemma duration_loop_bound:
  "duration_loop d s = Some e \<Longrightarrow> 0 \<le> d \<Longrightarrow> d \<le> 2 ^ 63 \<Longrightarrow> 0 \<le> e \<and> e \<le> 2 ^ 63"
proof (induction d s rule: duration_loop.induct)
  case (1 d s)
  show ?case
  proof (cases "s = []")
    case True
    with "1.prems" show ?thesis by (simp add: duration_loop.simps)
  next
    case False
    with "1.prems" obtain v r where seg: "duration_segment s = Some (v, r)"
      and le: "(d + v) mod 2 ^ 64 \<le> 2 ^ 63"
      and rec: "duration_loop ((d + v) mod 2 ^ 64) r = Some e"
      by (subst (asm) duration_loop.simps) (auto simp: Let_def split: option.splits if_splits)
    have "\<not> (d + v) mod 2 ^ 64 > 2 ^ 63" using le by simp
    from "1.IH" [OF False seg refl refl this rec] le show ?thesis by simp
  qed
qed

text \<open>A parsed duration is an \<^verbatim>\<open>int64\<close>.\<close>

lemma parse_duration_fits:
  assumes p: "parse_duration s = Some d"
  shows "fits64 d"
proof -
  have "0 \<le> e \<and> e \<le> 2 ^ 63" if "duration_loop 0 r = Some e" for r e
    using duration_loop_bound [OF that] by simp
  then show ?thesis using p
    by (fastforce simp: parse_duration_def fits64_def Let_def split: if_splits option.splits)
qed

lemma parse_duration_examples:
  "parse_duration ''30s'' = Some 30000000000"
  "parse_duration ''1h15m30.918s'' = Some 4530918000000"
  "parse_duration ''-1.5h'' = Some (-5400000000000)"
  "parse_duration ''24'' = None"
  "parse_duration '''' = None"
  "parse_duration ''1ns'' = Some 1"
  by code_simp+

end
