(* ===== verification/Go_Error.thy ===== *)
theory Go_Error
  imports Prelude
begin

section \<open>Error values\<close>

text \<open>
  Go's \<^verbatim>\<open>error\<close> values. A package-level sentinel is a constructor of its own; \<^verbatim>\<open>fmt.Errorf\<close> is
  its format with the operands in place, \<open>W\<close> for \<^verbatim>\<open>%w\<close> (the wrapped error), \<open>V\<close> for an
  error printed with \<^verbatim>\<open>%v\<close>, \<open>Q\<close> for \<^verbatim>\<open>%q\<close>. The two error types of the program,
  \<^verbatim>\<open>*poisonError\<close> of the package dasher and \<^verbatim>\<open>*ErrPoison\<close> of the package lookup, are
  constructors too. \<open>External\<close> is an error made by another package. \<^verbatim>\<open>errors.Is\<close> and
  \<^verbatim>\<open>errors.As\<close> walk the wrapped errors.
\<close>

datatype sentinel =
    ErrMissingInstanceID | ErrInstanceNotFound | ErrNoStreams | ErrMissingStreamName
  | ErrBadEscalateAfter | ErrEmptyBinding | ErrBadStreamScope | ErrSelfEmit | ErrEmitCycle
  | ErrUnknownLookup | ErrUnknownLookupType | ErrMissingDBConfig | ErrMissingURLEnv
  | ErrMissingGatewayURLEnv | ErrMissingGatewayCredentials | ErrBadBindKey | ErrBadLookupTTL
  | ErrBadReclaimMinIdle | ErrBadReclaimInterval | ErrBadConsumerGCInterval
  | ErrBadConsumerGCTimeout | ErrConsumerGCTimeoutTooSmall | ErrBadHeartbeatInterval
  | ErrHeartbeatIntervalTooLarge
  | ErrMissingField | ErrMalformedJSON
  | ContextCanceled | RedisNil

datatype error =
    Sentinel sentinel
  | Errorf "frag list"
  | PoisonError error
  | LookupErrPoison "frag list"
  | External string
and frag = Lit string | Q string | D int | W error | V error

type_synonym 'a result = "error + 'a"

fun wrapped :: "error \<Rightarrow> error list" where
  "wrapped (Errorf fs) = List.map_filter (\<lambda>f. case f of W e \<Rightarrow> Some e | _ \<Rightarrow> None) fs"
| "wrapped (PoisonError e) = [e]"
| "wrapped _ = []"

text \<open>Some error of the wrapping tree satisfies \<open>P\<close>: the walk of \<^verbatim>\<open>errors.As\<close>.\<close>

primrec err_any :: "(error \<Rightarrow> bool) \<Rightarrow> error \<Rightarrow> bool"
  and frag_any :: "(error \<Rightarrow> bool) \<Rightarrow> frag \<Rightarrow> bool" where
  "err_any P (Sentinel s) = P (Sentinel s)"
| "err_any P (Errorf fs) = (P (Errorf fs) \<or> list_ex id (map (frag_any P) fs))"
| "err_any P (PoisonError e) = (P (PoisonError e) \<or> err_any P e)"
| "err_any P (LookupErrPoison fs) = P (LookupErrPoison fs)"
| "err_any P (External s) = P (External s)"
| "frag_any P (Lit s) = False"
| "frag_any P (Q s) = False"
| "frag_any P (D i) = False"
| "frag_any P (W e) = err_any P e"
| "frag_any P (V e) = False"

lemma err_any_unfold: "err_any P e \<longleftrightarrow> P e \<or> (\<exists>e' \<in> set (wrapped e). err_any P e')"
proof (cases e)
  case (Errorf fs)
  have "list_ex id (map (frag_any P) fs) \<longleftrightarrow>
      (\<exists>e' \<in> set (List.map_filter (\<lambda>f. case f of W e \<Rightarrow> Some e | _ \<Rightarrow> None) fs). err_any P e')"
  proof (induction fs)
    case (Cons f fs)
    then show ?case by (cases f) (auto simp: List.map_filter_simps)
  qed (simp add: List.map_filter_simps)
  with Errorf show ?thesis by simp
qed auto

definition errors_is :: "error \<Rightarrow> sentinel \<Rightarrow> bool" where
  "errors_is e s = err_any (\<lambda>x. x = Sentinel s) e"

lemma errors_is_simps [err_simps]:
  "errors_is (Sentinel t) s \<longleftrightarrow> t = s"
  "errors_is (Errorf fs) s \<longleftrightarrow> list_ex id (map (frag_any (\<lambda>x. x = Sentinel s)) fs)"
  "errors_is (PoisonError e) s \<longleftrightarrow> errors_is e s"
  "errors_is (LookupErrPoison fs) s \<longleftrightarrow> False"
  "errors_is (External msg) s \<longleftrightarrow> False"
  by (auto simp: errors_is_def)

end
