(* ===== verification/Config.thy ===== *)
theory Config
  imports Go_Duration Go_Error
begin

section \<open>internal/config: loading and validating an instance\<close>

text \<open>
  The configuration records of \<^verbatim>\<open>config.go\<close>, key resolution, the depth-first search for emit
  cycles, \<^verbatim>\<open>validateInstance\<close> and \<^verbatim>\<open>Load\<close>. The process environment is a function from names to
  values (\<^verbatim>\<open>os.Getenv\<close> returns the empty string for an unset name); reading the file, the YAML
  package and \<^verbatim>\<open>os.Hostname\<close> are parameters. A Go map is an association list in the order in
  which \<^verbatim>\<open>range\<close> happens to visit it, so a statement about every list covers every order.
\<close>

subsection \<open>The configuration records\<close>

record DBConfig =
  DSNEnv :: string
  MaxConns :: int

record LookupSpecRaw =
  raw_Type :: string
  raw_TTL :: string
  raw_SQL :: string

record EnrichRuleConfig =
  er_Lookup :: string
  er_Bind :: "(string \<times> string) list"
  er_Into :: string

record StreamBinding =
  sb_Stream :: string
  sb_Scope :: string
  sb_Handler :: string
  sb_Emit :: string
  sb_Enrich :: "EnrichRuleConfig list"

record GatewayServiceConfig =
  gwc_URLEnv :: string
  gwc_AppInstanceCodeEnv :: string
  gwc_APIKeyEnv :: string

record InternalServiceConfig =
  isc_URLEnv :: string
  isc_TokenEnv :: string

record ServicesConfig =
  svc_Internal :: InternalServiceConfig
  svc_Gateway :: GatewayServiceConfig
  svc_DB :: DBConfig

record InstanceConfig =
  ic_ID :: string
  ic_Services :: ServicesConfig
  ic_Lookups :: "(string \<times> LookupSpecRaw) list"
  ic_Streams :: "StreamBinding list"

record Config =
  InstanceID :: string
  RedisAddr :: string
  Group :: string
  Consumer :: string
  EscalateAfter :: int
  Instance :: InstanceConfig
  ReclaimMinIdle :: int
  ReclaimInterval :: int
  ConsumerGCInterval :: int
  ConsumerGCTimeout :: int
  HeartbeatInterval :: int

type_synonym getenv = "string \<Rightarrow> string"

record host =
  h_env :: getenv
  h_read_file :: "string \<Rightarrow> string result"
  h_unmarshal :: "string \<Rightarrow> (string \<times> InstanceConfig) list result"
  h_hostname :: "string result"

subsection \<open>Stream keys\<close>

definition ResolveKey :: "string \<Rightarrow> string \<Rightarrow> string \<Rightarrow> string" where
  "ResolveKey name scope instanceID =
     (if scope = ''shared'' then name else instanceID @ ''.'' @ name)"

definition scopeOrDefault :: "string \<Rightarrow> string" where
  "scopeOrDefault s = (if s = [] then ''instance'' else s)"

definition consume_key :: "string \<Rightarrow> StreamBinding \<Rightarrow> string" where
  "consume_key iid s = ResolveKey (sb_Stream s) (scopeOrDefault (sb_Scope s)) iid"

definition emit_key :: "string \<Rightarrow> StreamBinding \<Rightarrow> string" where
  "emit_key iid s = ResolveKey (sb_Emit s) ''shared'' iid"

subsection \<open>Emit cycles\<close>

text \<open>
  The emit edges as the map \<^verbatim>\<open>emitEdge\<close>: assigned in the order of the bindings, a later
  assignment to a key replacing an earlier one (the front of the list shadows the rest).
\<close>

definition emit_edges :: "StreamBinding list \<Rightarrow> string \<Rightarrow> (string \<times> string) list" where
  "emit_edges streams iid =
     foldl (\<lambda>m s. if sb_Emit s \<noteq> [] then (consume_key iid s, emit_key iid s) # m else m) [] streams"

datatype visit = Unvisited | Visiting | Visited

definition cycle_error :: "string \<Rightarrow> error" where
  "cycle_error n = Errorf [Lit ''stream '', Q n, Lit '': '', W (Sentinel ErrEmitCycle)]"

function dfs ::
  "(string \<times> string) list \<Rightarrow> string \<Rightarrow> (string \<Rightarrow> visit) \<Rightarrow> (string \<Rightarrow> visit) result" where
  "dfs edge n st =
     (case st n of
        Visiting \<Rightarrow> Inl (cycle_error n)
      | Visited \<Rightarrow> Inr st
      | Unvisited \<Rightarrow>
          (case map_of edge n of
             None \<Rightarrow> Inr (st(n := Visiting, n := Visited))
           | Some next \<Rightarrow>
               (case dfs edge next (st(n := Visiting)) of
                  Inl e \<Rightarrow> Inl e
                | Inr st' \<Rightarrow> Inr (st'(n := Visited)))))"
  by pat_completeness auto

definition unvisited_edges :: "(string \<times> string) list \<Rightarrow> (string \<Rightarrow> visit) \<Rightarrow> nat" where
  "unvisited_edges edge st = length (filter (\<lambda>(k, _). st k = Unvisited) edge)"

lemma unvisited_edges_visit:
  assumes "st n = Unvisited" and "map_of edge n = Some m"
  shows "unvisited_edges edge (st(n := Visiting)) < unvisited_edges edge st"
proof -
  have "filter (\<lambda>(k, _). (st(n := Visiting)) k = Unvisited) edge
      = filter (\<lambda>(k, _). k \<noteq> n) (filter (\<lambda>(k, _). st k = Unvisited) edge)"
    by (auto simp: filter_filter intro!: filter_cong split: if_splits)
  moreover have "(n, m) \<in> set (filter (\<lambda>(k, _). st k = Unvisited) edge)"
    using assms by (auto dest: map_of_SomeD)
  ultimately show ?thesis
    unfolding unvisited_edges_def by (metis (mono_tags, lifting) case_prod_conv length_filter_less)
qed

termination dfs
  by (relation "measure (\<lambda>(edge, n, st). unvisited_edges edge st)")
    (auto simp: unvisited_edges_visit)

declare dfs.simps [simp del]

text \<open>The loop over the bindings, starting a walk at every consume key still unvisited.\<close>

fun walk_all ::
  "(string \<times> string) list \<Rightarrow> string list \<Rightarrow> (string \<Rightarrow> visit) \<Rightarrow> (string \<Rightarrow> visit) result" where
  "walk_all edge [] st = Inr st"
| "walk_all edge (k # ks) st =
     (if st k = Unvisited then
        (case dfs edge k st of Inl e \<Rightarrow> Inl e | Inr st' \<Rightarrow> walk_all edge ks st')
      else walk_all edge ks st)"

definition detectEmitCycles :: "StreamBinding list \<Rightarrow> string \<Rightarrow> error option" where
  "detectEmitCycles streams iid =
     (case walk_all (emit_edges streams iid) (map (consume_key iid) streams) (\<lambda>_. Unvisited) of
        Inl e \<Rightarrow> Some e
      | Inr _ \<Rightarrow> None)"

subsection \<open>validateInstance\<close>

definition allowedLookupTypes :: "(string \<times> bool) list" where
  "allowedLookupTypes = [(''sql'', True)]"

definition validate_lookup :: "string \<times> LookupSpecRaw \<Rightarrow> error option" where
  "validate_lookup nspec =
     (let name = fst nspec; spec = snd nspec in
      if map_of allowedLookupTypes (raw_Type spec) \<noteq> Some True then
        Some (Errorf [Lit ''lookup '', Q name, Lit '': '', W (Sentinel ErrUnknownLookupType),
                      Lit '' '', Q (raw_Type spec)])
      else if raw_TTL spec \<noteq> [] \<and> parse_duration (raw_TTL spec) = None then
        Some (Errorf [Lit ''lookup '', Q name, Lit '': invalid ttl '', Q (raw_TTL spec), Lit '': '',
                      W (Sentinel ErrBadLookupTTL)])
      else None)"

definition validate_internal :: "getenv \<Rightarrow> InternalServiceConfig \<Rightarrow> error option" where
  "validate_internal env c =
     (if isc_URLEnv c \<noteq> [] \<and> env (isc_URLEnv c) = [] then Some (Sentinel ErrMissingURLEnv) else None)"

definition validate_gateway :: "getenv \<Rightarrow> GatewayServiceConfig \<Rightarrow> error option" where
  "validate_gateway env c =
     (if gwc_URLEnv c \<noteq> [] then
        if env (gwc_URLEnv c) = [] then Some (Sentinel ErrMissingGatewayURLEnv)
        else if gwc_AppInstanceCodeEnv c = [] \<or> gwc_APIKeyEnv c = []
             \<or> env (gwc_AppInstanceCodeEnv c) = [] \<or> env (gwc_APIKeyEnv c) = []
        then Some (Sentinel ErrMissingGatewayCredentials)
        else None
      else None)"

definition validate_db :: "getenv \<Rightarrow> StreamBinding list \<Rightarrow> DBConfig \<Rightarrow> error option" where
  "validate_db env streams c =
     (let anyEnrich = list_ex (\<lambda>s. sb_Enrich s \<noteq> []) streams
      in if anyEnrich \<and> (DSNEnv c = [] \<or> env (DSNEnv c) = []) then Some (Sentinel ErrMissingDBConfig)
         else None)"

definition validate_rule ::
  "(string \<times> LookupSpecRaw) list \<Rightarrow> string \<Rightarrow> EnrichRuleConfig \<Rightarrow> error option" where
  "validate_rule lookups stream rule =
     (if map_of lookups (er_Lookup rule) = None then
        Some (Errorf [Lit ''stream '', Q stream, Lit '' enrich lookup '', Q (er_Lookup rule), Lit '': '',
                      W (Sentinel ErrUnknownLookup)])
      else first_err (\<lambda>(param, col).
             if \<not> ident_match col then
               Some (Errorf [Lit ''stream '', Q stream, Lit '': '', W (Sentinel ErrBadBindKey),
                             Lit '' '', Q col])
             else None) (er_Bind rule))"

definition validate_binding ::
  "string \<Rightarrow> (string \<times> LookupSpecRaw) list \<Rightarrow> StreamBinding \<Rightarrow> error option" where
  "validate_binding iid lookups s =
     (if sb_Stream s = [] then Some (Sentinel ErrMissingStreamName)
      else let scope = scopeOrDefault (sb_Scope s) in
        if scope \<noteq> ''instance'' \<and> scope \<noteq> ''shared'' then
          Some (Errorf [Lit ''stream '', Q (sb_Stream s), Lit '': '', W (Sentinel ErrBadStreamScope),
                        Lit '' '', Q (sb_Scope s)])
        else if sb_Handler s = [] \<and> sb_Emit s = [] then
          Some (Errorf [Lit ''stream '', Q (sb_Stream s), Lit '': '', W (Sentinel ErrEmptyBinding)])
        else if sb_Emit s \<noteq> [] \<and> ResolveKey (sb_Stream s) scope iid = ResolveKey (sb_Emit s) ''shared'' iid then
          Some (Errorf [Lit ''stream '', Q (sb_Stream s), Lit '': '', W (Sentinel ErrSelfEmit)])
        else first_err (validate_rule lookups (sb_Stream s)) (sb_Enrich s))"

definition validateInstance :: "getenv \<Rightarrow> InstanceConfig \<Rightarrow> error option" where
  "validateInstance env inst =
     (if ic_Streams inst = [] then Some (Sentinel ErrNoStreams)
      else or_else (first_err validate_lookup (ic_Lookups inst))
          (or_else (validate_internal env (svc_Internal (ic_Services inst)))
          (or_else (validate_gateway env (svc_Gateway (ic_Services inst)))
          (or_else (validate_db env (ic_Streams inst) (svc_DB (ic_Services inst)))
          (or_else (first_err (validate_binding (ic_ID inst) (ic_Lookups inst)) (ic_Streams inst))
             (detectEmitCycles (ic_Streams inst) (ic_ID inst)))))))"

subsection \<open>Load\<close>

definition and_then :: "'a result \<Rightarrow> ('a \<Rightarrow> 'b result) \<Rightarrow> 'b result" where
  "and_then m f = (case m of Inl e \<Rightarrow> Inl e | Inr x \<Rightarrow> f x)"

lemma and_then_Inr [simp]: "and_then m f = Inr y \<longleftrightarrow> (\<exists>x. m = Inr x \<and> f x = Inr y)"
  by (cases m) (auto simp: and_then_def)

lemma and_then_simps [simp]: "and_then (Inl e) f = Inl e" "and_then (Inr x) f = f x"
  by (auto simp: and_then_def)

definition getenv_or :: "getenv \<Rightarrow> string \<Rightarrow> string \<Rightarrow> string" where
  "getenv_or env key def = (if env key \<noteq> [] then env key else def)"

definition parseDurationEnv :: "getenv \<Rightarrow> string \<Rightarrow> int \<Rightarrow> sentinel \<Rightarrow> int result" where
  "parseDurationEnv env key def sent =
     (let v = env key in
      if v = [] then Inr def
      else (case parse_duration v of
        Some d \<Rightarrow> if d \<le> 0 then Inl (Errorf [Lit key, Lit '' '', Q v, Lit '': '', W (Sentinel sent)]) else Inr d
      | None \<Rightarrow> Inl (Errorf [Lit key, Lit '' '', Q v, Lit '': '', W (Sentinel sent)])))"

definition escalate_env :: "getenv \<Rightarrow> int result" where
  "escalate_env env =
     (let v = env ''DASHER_ESCALATE_AFTER'';
          bad = Errorf [Lit ''DASHER_ESCALATE_AFTER '', Q v, Lit '': '', W (Sentinel ErrBadEscalateAfter)]
      in if v = [] then Inr 10
         else (case parse_int64 v of
           Some n \<Rightarrow> if n < 1 then Inl bad else Inr n
         | None \<Rightarrow> Inl bad))"

text \<open>The process identity: the host name, \<open>dasher\<close> when there is none.\<close>

definition consumer_name :: "host \<Rightarrow> string" where
  "consumer_name h =
     (case h_hostname h of Inl e \<Rightarrow> ''dasher'' | Inr c \<Rightarrow> if c = [] then ''dasher'' else c)"

definition Load :: "host \<Rightarrow> Config result" where
  "Load h =
     (let env = h_env h; instanceID = env ''DASHER_INSTANCE_ID'' in
      if instanceID = [] then Inl (Errorf [Lit ''load config: '', W (Sentinel ErrMissingInstanceID)])
      else let path = getenv_or env ''DASHER_CONFIG'' ''config.yaml'' in
        (case h_read_file h path of
           Inl e \<Rightarrow> Inl (Errorf [Lit ''read config '', Q path, Lit '': '', W e])
         | Inr raw \<Rightarrow>
        (case h_unmarshal h raw of
           Inl e \<Rightarrow> Inl (Errorf [Lit ''parse config '', Q path, Lit '': '', W e])
         | Inr instances \<Rightarrow>
        (case map_of instances instanceID of
           None \<Rightarrow> Inl (Errorf [Lit ''instance '', Q instanceID, Lit '': '', W (Sentinel ErrInstanceNotFound)])
         | Some inst0 \<Rightarrow>
        let inst = inst0\<lparr>ic_ID := instanceID\<rparr> in
        (case validateInstance env inst of
           Some e \<Rightarrow> Inl (Errorf [Lit ''instance '', Q instanceID, Lit '': '', W e])
         | None \<Rightarrow>
        and_then (escalate_env env) (\<lambda>escalate.
        let consumer = consumer_name h in
        and_then (parseDurationEnv env ''DASHER_RECLAIM_MIN_IDLE'' (30 * second) ErrBadReclaimMinIdle)
          (\<lambda>reclaimMinIdle.
        and_then (parseDurationEnv env ''DASHER_RECLAIM_INTERVAL'' (5 * second) ErrBadReclaimInterval)
          (\<lambda>reclaimInterval.
        and_then (parseDurationEnv env ''DASHER_CONSUMER_GC_INTERVAL'' (5 * minute) ErrBadConsumerGCInterval)
          (\<lambda>consumerGCInterval.
        and_then (parseDurationEnv env ''DASHER_CONSUMER_GC_TIMEOUT'' (10 * minute) ErrBadConsumerGCTimeout)
          (\<lambda>consumerGCTimeout.
        if consumerGCTimeout \<le> reclaimMinIdle then
          Inl (Errorf [Lit ''DASHER_CONSUMER_GC_TIMEOUT ('', D consumerGCTimeout,
                       Lit '') must be > DASHER_RECLAIM_MIN_IDLE ('', D reclaimMinIdle, Lit ''): '',
                       W (Sentinel ErrConsumerGCTimeoutTooSmall)])
        else
        and_then (parseDurationEnv env ''DASHER_HEARTBEAT_INTERVAL'' (quot2 reclaimMinIdle) ErrBadHeartbeatInterval)
          (\<lambda>heartbeatInterval.
        if heartbeatInterval > quot2 reclaimMinIdle then
          Inl (Errorf [Lit ''DASHER_HEARTBEAT_INTERVAL ('', D heartbeatInterval,
                       Lit '') must be <= DASHER_RECLAIM_MIN_IDLE/2 ('', D (quot2 reclaimMinIdle), Lit ''): '',
                       W (Sentinel ErrHeartbeatIntervalTooLarge)])
        else Inr \<lparr>
          InstanceID = instanceID,
          RedisAddr = getenv_or env ''DASHER_REDIS_ADDR'' ''localhost:6379'',
          Group = instanceID,
          Consumer = consumer,
          EscalateAfter = escalate,
          Instance = inst,
          ReclaimMinIdle = reclaimMinIdle,
          ReclaimInterval = reclaimInterval,
          ConsumerGCInterval = consumerGCInterval,
          ConsumerGCTimeout = consumerGCTimeout,
          HeartbeatInterval = heartbeatInterval \<rparr>)))))))))))"

end
