(* ===== verification/Config_Valid.thy ===== *)
theory Config_Valid
  imports Config
begin

section \<open>Correctness of the configuration checks\<close>

text \<open>
  The depth-first search reports exactly the cycles of its edge map; a configuration passes
  \<open>validateInstance\<close> exactly when it satisfies the declarative predicate \<open>valid_instance\<close>, as
  long as no two emitting bindings consume the same key; what \<open>Load\<close> returns satisfies the
  relations between the tuning parameters that the consumer relies on.
\<close>

subsection \<open>The search finds exactly the cycles of the edge map\<close>

definition edge_rel :: "(string \<times> string) list \<Rightarrow> (string \<times> string) set" where
  "edge_rel edge = {(a, b). map_of edge a = Some b}"

text \<open>Every walk along the edges from \<open>n\<close> ends.\<close>

definition terminating :: "(string \<times> string) list \<Rightarrow> string \<Rightarrow> bool" where
  "terminating edge n \<longleftrightarrow> Wellfounded.accp (\<lambda>b a. map_of edge a = Some b) n"

lemma terminatingI: "(\<And>b. map_of edge n = Some b \<Longrightarrow> terminating edge b) \<Longrightarrow> terminating edge n"
  unfolding terminating_def by (rule accp.accI)

lemma dfs_marks:
  "dfs edge n st = Inr st' \<Longrightarrow> \<forall>x. st x = Visited \<longrightarrow> terminating edge x \<Longrightarrow>
     terminating edge n \<and> (\<forall>x. st' x = Visited \<longrightarrow> terminating edge x)
     \<and> (\<forall>x. st' x = Visiting \<longrightarrow> st x = Visiting) \<and> (\<forall>x. st x = Visited \<longrightarrow> st' x = Visited)
     \<and> st' n = Visited"
proof (induction edge n st arbitrary: st' rule: dfs.induct)
  case (1 edge n st)
  show ?case
  proof (cases "st n")
    case Unvisited
    show ?thesis
    proof (cases "map_of edge n")
      case None
      have "terminating edge n" by (rule terminatingI) (simp add: None)
      moreover have "st' = st(n := Visited)"
        using "1.prems"(1) None Unvisited by (simp add: dfs.simps [of edge n st])
      ultimately show ?thesis using "1.prems"(2) by simp
    next
      case (Some nx)
      with "1.prems"(1) Unvisited obtain st'' where
        rec: "dfs edge nx (st(n := Visiting)) = Inr st''" and st': "st' = st''(n := Visited)"
        by (auto simp: dfs.simps [of edge n st] split: sum.splits)
      have "\<forall>x. (st(n := Visiting)) x = Visited \<longrightarrow> terminating edge x"
        using "1.prems"(2) by simp
      note IH = "1.IH" [OF Unvisited Some rec this]
      have n: "terminating edge n" by (rule terminatingI) (use Some IH in auto)
      have keep: "st'' x = Visited" if "st x = Visited" for x
      proof -
        have "(st(n := Visiting)) x = Visited" using that Unvisited by auto
        with IH show ?thesis by blast
      qed
      have visiting: "st x = Visiting" if "st'' x = Visiting" "x \<noteq> n" for x
      proof -
        from IH that(1) have "(st(n := Visiting)) x = Visiting" by blast
        with that(2) show ?thesis by simp
      qed
      have "\<forall>x. st'' x = Visited \<longrightarrow> terminating edge x" using IH by blast
      with n keep visiting show ?thesis by (auto simp: st' split: if_splits)
    qed
  qed (use "1.prems" in \<open>auto simp: dfs.simps [of edge n st]\<close>)
qed

lemma dfs_cycle:
  "dfs edge n st = Inl e \<Longrightarrow> \<forall>x. st x = Visiting \<longrightarrow> (x, n) \<in> (edge_rel edge)\<^sup>+ \<Longrightarrow>
     \<exists>x. (x, x) \<in> (edge_rel edge)\<^sup>+ \<and> e = cycle_error x"
proof (induction edge n st rule: dfs.induct)
  case (1 edge n st)
  show ?case
  proof (cases "st n")
    case Unvisited
    with "1.prems"(1) obtain nx where nx: "map_of edge n = Some nx"
      and rec: "dfs edge nx (st(n := Visiting)) = Inl e"
      by (auto simp: dfs.simps [of edge n st] split: option.splits sum.splits)
    then have "(n, nx) \<in> edge_rel edge" by (simp add: edge_rel_def)
    with "1.prems"(2) have "\<forall>x. (st(n := Visiting)) x = Visiting \<longrightarrow> (x, nx) \<in> (edge_rel edge)\<^sup>+"
      by (auto intro: trancl_into_trancl)
    with "1.IH" [OF Unvisited nx rec] show ?thesis by blast
  qed (use "1.prems" in \<open>auto simp: dfs.simps [of edge n st]\<close>)
qed

lemma walk_all_ok:
  "walk_all edge ks st = Inr st' \<Longrightarrow> \<forall>x. st x = Visited \<longrightarrow> terminating edge x \<Longrightarrow>
     \<forall>x. st x \<noteq> Visiting \<Longrightarrow> \<forall>k \<in> set ks. terminating edge k"
proof (induction ks arbitrary: st)
  case (Cons k ks)
  show ?case
  proof (cases "st k = Unvisited")
    case True
    with Cons.prems(1) obtain st1 where d: "dfs edge k st = Inr st1"
      and w: "walk_all edge ks st1 = Inr st'" by (auto split: sum.splits)
    from dfs_marks [OF d Cons.prems(2)] Cons.prems(3) Cons.IH [OF w] show ?thesis by auto
  next
    case False
    with Cons.prems(2,3) have "terminating edge k" by (metis visit.exhaust)
    with False Cons show ?thesis by auto
  qed
qed simp

lemma walk_all_cycle:
  "walk_all edge ks st = Inl e \<Longrightarrow> \<forall>x. st x = Visited \<longrightarrow> terminating edge x \<Longrightarrow>
     \<forall>x. st x \<noteq> Visiting \<Longrightarrow> \<exists>x. (x, x) \<in> (edge_rel edge)\<^sup>+ \<and> e = cycle_error x"
proof (induction ks arbitrary: st)
  case (Cons k ks)
  show ?case
  proof (cases "dfs edge k st")
    case (Inl e')
    with Cons.prems Cons.IH [of st] dfs_cycle [OF Inl] show ?thesis by (auto split: if_splits)
  next
    case (Inr st1)
    with dfs_marks [OF Inr Cons.prems(2)] Cons.prems Cons.IH [of st] Cons.IH [of st1]
    show ?thesis by (auto split: if_splits)
  qed
qed simp

text \<open>Stated on the edge map: no error means no cycle, and an error names a node of a cycle.\<close>

lemma terminating_acyclic:
  assumes "\<And>k. k \<in> fst ` set edge \<Longrightarrow> terminating edge k"
  shows "acyclic (edge_rel edge)"
proof -
  have "terminating edge n" for n
  proof (cases "map_of edge n")
    case None
    show ?thesis by (rule terminatingI) (simp add: None)
  next
    case (Some b)
    then have "n \<in> fst ` set edge" by (force dest: map_of_SomeD)
    then show ?thesis by (rule assms)
  qed
  then have "wfp (\<lambda>b a. map_of edge a = Some b)"
    by (intro accp_wfpI) (simp add: terminating_def)
  then have "wf ((edge_rel edge)\<inverse>)"
    by (simp add: wfp_def edge_rel_def converse_unfold)
  then show ?thesis using wf_acyclic acyclic_converse by blast
qed

lemma emit_edges_alt:
  "emit_edges streams iid =
     rev (map (\<lambda>s. (consume_key iid s, emit_key iid s)) (filter (\<lambda>s. sb_Emit s \<noteq> []) streams))"
proof -
  have "foldl (\<lambda>m s. if sb_Emit s \<noteq> [] then (consume_key iid s, emit_key iid s) # m else m) m streams
      = rev (map (\<lambda>s. (consume_key iid s, emit_key iid s)) (filter (\<lambda>s. sb_Emit s \<noteq> []) streams)) @ m"
    for m by (induction streams arbitrary: m) auto
  then show ?thesis by (simp add: emit_edges_def)
qed

lemma emit_edges_keys: "fst ` set (emit_edges streams iid) \<subseteq> consume_key iid ` set streams"
  by (auto simp: emit_edges_alt)

lemma detectEmitCycles_None:
  "detectEmitCycles streams iid = None \<longleftrightarrow> acyclic (edge_rel (emit_edges streams iid))"
proof (cases "walk_all (emit_edges streams iid) (map (consume_key iid) streams) (\<lambda>_. Unvisited)")
  case (Inl e)
  from walk_all_cycle [OF this] Inl show ?thesis
    by (auto simp: detectEmitCycles_def acyclic_def)
next
  case (Inr st)
  from walk_all_ok [OF this] have "\<forall>s \<in> set streams. terminating (emit_edges streams iid) (consume_key iid s)"
    by simp
  then have "acyclic (edge_rel (emit_edges streams iid))"
    using emit_edges_keys [of streams iid] by (intro terminating_acyclic) auto
  with Inr show ?thesis by (simp add: detectEmitCycles_def)
qed

lemma detectEmitCycles_Some:
  "detectEmitCycles streams iid = Some e \<Longrightarrow>
     \<exists>n. (n, n) \<in> (edge_rel (emit_edges streams iid))\<^sup>+ \<and> e = cycle_error n"
  using walk_all_cycle [of "emit_edges streams iid" "map (consume_key iid) streams" "\<lambda>_. Unvisited" e]
  by (auto simp: detectEmitCycles_def split: sum.splits)

subsection \<open>What a valid instance is\<close>

text \<open>The graph the bindings describe, every emitting binding an edge.\<close>

definition emit_graph :: "string \<Rightarrow> StreamBinding list \<Rightarrow> (string \<times> string) set" where
  "emit_graph iid streams =
     (\<lambda>s. (consume_key iid s, emit_key iid s)) ` set (filter (\<lambda>s. sb_Emit s \<noteq> []) streams)"

lemma edge_rel_subset: "edge_rel (emit_edges streams iid) \<subseteq> emit_graph iid streams"
  by (auto simp: edge_rel_def emit_graph_def emit_edges_alt dest!: map_of_SomeD)

definition distinct_emitters :: "string \<Rightarrow> StreamBinding list \<Rightarrow> bool" where
  "distinct_emitters iid streams \<longleftrightarrow>
     distinct (map (consume_key iid) (filter (\<lambda>s. sb_Emit s \<noteq> []) streams))"

lemma edge_rel_emit_graph:
  assumes "distinct_emitters iid streams"
  shows "edge_rel (emit_edges streams iid) = emit_graph iid streams"
proof -
  have "distinct (map fst (emit_edges streams iid))"
    using assms by (simp add: distinct_emitters_def emit_edges_alt comp_def flip: rev_map)
  then have "edge_rel (emit_edges streams iid) = set (emit_edges streams iid)"
    by (auto simp: edge_rel_def dest: map_of_SomeD)
  then show ?thesis by (auto simp: emit_edges_alt emit_graph_def)
qed

definition valid_rule :: "(string \<times> LookupSpecRaw) list \<Rightarrow> EnrichRuleConfig \<Rightarrow> bool" where
  "valid_rule lookups rule \<longleftrightarrow>
     er_Lookup rule \<in> fst ` set lookups \<and> (\<forall>(param, col) \<in> set (er_Bind rule). ident_match col)"

definition valid_binding :: "(string \<times> LookupSpecRaw) list \<Rightarrow> StreamBinding \<Rightarrow> bool" where
  "valid_binding lookups s \<longleftrightarrow>
     sb_Stream s \<noteq> [] \<and> sb_Scope s \<in> {[], ''instance'', ''shared''}
     \<and> (sb_Handler s \<noteq> [] \<or> sb_Emit s \<noteq> []) \<and> (\<forall>rule \<in> set (sb_Enrich s). valid_rule lookups rule)"

definition valid_lookup :: "LookupSpecRaw \<Rightarrow> bool" where
  "valid_lookup spec \<longleftrightarrow>
     raw_Type spec = ''sql'' \<and> (raw_TTL spec = [] \<or> (\<exists>d. parse_duration (raw_TTL spec) = Some d))"

definition valid_services :: "getenv \<Rightarrow> bool \<Rightarrow> ServicesConfig \<Rightarrow> bool" where
  "valid_services env enriching c \<longleftrightarrow>
     (isc_URLEnv (svc_Internal c) = [] \<or> env (isc_URLEnv (svc_Internal c)) \<noteq> [])
     \<and> (gwc_URLEnv (svc_Gateway c) = [] \<or>
         (\<forall>name \<in> {gwc_URLEnv (svc_Gateway c), gwc_AppInstanceCodeEnv (svc_Gateway c), gwc_APIKeyEnv (svc_Gateway c)}.
            env name \<noteq> [])
         \<and> gwc_AppInstanceCodeEnv (svc_Gateway c) \<noteq> [] \<and> gwc_APIKeyEnv (svc_Gateway c) \<noteq> [])
     \<and> (enriching \<longrightarrow> DSNEnv (svc_DB c) \<noteq> [] \<and> env (DSNEnv (svc_DB c)) \<noteq> [])"

definition valid_instance :: "getenv \<Rightarrow> InstanceConfig \<Rightarrow> bool" where
  "valid_instance env inst \<longleftrightarrow>
     ic_Streams inst \<noteq> []
     \<and> (\<forall>(name, spec) \<in> set (ic_Lookups inst). valid_lookup spec)
     \<and> valid_services env (\<exists>s \<in> set (ic_Streams inst). sb_Enrich s \<noteq> []) (ic_Services inst)
     \<and> (\<forall>s \<in> set (ic_Streams inst). valid_binding (ic_Lookups inst) s)
     \<and> acyclic (emit_graph (ic_ID inst) (ic_Streams inst))"

lemma validate_lookup_None: "validate_lookup (name, spec) = None \<longleftrightarrow> valid_lookup spec"
  by (auto simp: validate_lookup_def valid_lookup_def allowedLookupTypes_def)

lemma validate_services_None:
  "validate_internal env (svc_Internal c) = None \<and> validate_gateway env (svc_Gateway c) = None
     \<and> validate_db env streams (svc_DB c) = None
   \<longleftrightarrow> valid_services env (\<exists>s \<in> set streams. sb_Enrich s \<noteq> []) c"
  by (auto simp: validate_internal_def validate_gateway_def validate_db_def valid_services_def
      list_ex_iff Let_def)

lemma validate_rule_None: "validate_rule lookups stream rule = None \<longleftrightarrow> valid_rule lookups rule"
  by (force simp: validate_rule_def valid_rule_def map_of_eq_None_iff split: if_splits)

lemma validate_binding_None:
  "validate_binding iid lookups s = None \<longleftrightarrow>
     valid_binding lookups s \<and> (sb_Emit s \<noteq> [] \<longrightarrow> consume_key iid s \<noteq> emit_key iid s)"
  by (auto simp: validate_binding_def valid_binding_def validate_rule_None scopeOrDefault_def
      consume_key_def emit_key_def Let_def)

lemma acyclic_no_self_emit:
  "acyclic (emit_graph iid streams) \<Longrightarrow> s \<in> set streams \<Longrightarrow> sb_Emit s \<noteq> [] \<Longrightarrow>
     consume_key iid s \<noteq> emit_key iid s"
proof
  assume a: "acyclic (emit_graph iid streams)" "s \<in> set streams" "sb_Emit s \<noteq> []"
    and eq: "consume_key iid s = emit_key iid s"
  then have "(consume_key iid s, consume_key iid s) \<in> emit_graph iid streams"
    by (force simp: emit_graph_def)
  with a(1) show False by (auto simp: acyclic_def)
qed

text \<open>What validation returns without error in general, and exactly when.\<close>

lemma validateInstance_None:
  "validateInstance env inst = None \<longleftrightarrow>
     ic_Streams inst \<noteq> []
     \<and> (\<forall>(name, spec) \<in> set (ic_Lookups inst). valid_lookup spec)
     \<and> valid_services env (\<exists>s \<in> set (ic_Streams inst). sb_Enrich s \<noteq> []) (ic_Services inst)
     \<and> (\<forall>s \<in> set (ic_Streams inst). valid_binding (ic_Lookups inst) s
          \<and> (sb_Emit s \<noteq> [] \<longrightarrow> consume_key (ic_ID inst) s \<noteq> emit_key (ic_ID inst) s))
     \<and> acyclic (edge_rel (emit_edges (ic_Streams inst) (ic_ID inst)))"
  unfolding validateInstance_def detectEmitCycles_None [symmetric] validate_services_None [symmetric]
  by (auto simp: validate_lookup_None validate_binding_None)

subsection \<open>Properties\<close>

text \<open>C17. The search for emit cycles succeeds exactly when the edge map it builds is acyclic.\<close>

theorem detect_emit_cycles_exact:
  "detectEmitCycles streams iid = None \<longleftrightarrow> acyclic (edge_rel (emit_edges streams iid))"
  by (rule detectEmitCycles_None)

text \<open>
  C6. When no two emitting bindings consume the same key, \<open>validateInstance\<close> accepts exactly the
  valid instances: streams, lookups, services, bindings and enrich rules as documented, and an
  emit graph without cycles.
\<close>

theorem validate_instance_iff:
  assumes "distinct_emitters (ic_ID inst) (ic_Streams inst)"
  shows "validateInstance env inst = None \<longleftrightarrow> valid_instance env inst"
  using acyclic_no_self_emit [of "ic_ID inst" "ic_Streams inst"]
  by (auto simp: validateInstance_None valid_instance_def edge_rel_emit_graph [OF assms])

definition demo_env :: getenv where
  "demo_env name = (if name = ''DB_DSN'' then ''postgres://db'' else if name = ''DASHER_INSTANCE_ID'' then ''i1''
     else if name = ''DASHER_RECLAIM_MIN_IDLE'' then ''20s'' else [])"

definition demo_rule :: EnrichRuleConfig where
  "demo_rule = \<lparr>er_Lookup = ''email'', er_Bind = [(''role_id'', ''user_id'')], er_Into = ''user''\<rparr>"

definition demo_instance :: InstanceConfig where
  "demo_instance = \<lparr>ic_ID = ''i1'',
     ic_Services = \<lparr>svc_Internal = \<lparr>isc_URLEnv = [], isc_TokenEnv = []\<rparr>,
       svc_Gateway = \<lparr>gwc_URLEnv = [], gwc_AppInstanceCodeEnv = [], gwc_APIKeyEnv = []\<rparr>,
       svc_DB = \<lparr>DSNEnv = ''DB_DSN'', MaxConns = 0\<rparr>\<rparr>,
     ic_Lookups = [(''email'', \<lparr>raw_Type = ''sql'', raw_TTL = ''24h'', raw_SQL = ''SELECT 1''\<rparr>)],
     ic_Streams =
       [\<lparr>sb_Stream = ''cdc.grant'', sb_Scope = [], sb_Handler = [], sb_Emit = ''enriched.grant'', sb_Enrich = [demo_rule]\<rparr>,
        \<lparr>sb_Stream = ''enriched.grant'', sb_Scope = ''shared'', sb_Handler = ''order-sync@v1'', sb_Emit = [], sb_Enrich = []\<rparr>]\<rparr>"

lemma validate_demo: "validateInstance demo_env demo_instance = None"
  by code_simp

theorem validate_instance_iff_witness: "valid_instance demo_env demo_instance"
proof -
  have "distinct_emitters (ic_ID demo_instance) (ic_Streams demo_instance)" by code_simp
  from validate_instance_iff [OF this, of demo_env] validate_demo show ?thesis by simp
qed

text \<open>
  C39. A later binding hides an emit cycle: take bindings whose cycle the search finds, every cycle passing through
  one key, and add a second emitting binding that consumes this key, with an emit that leads nowhere. The
  map keeps one edge per key, so the new edge replaces the one on the cycle: the search now accepts the
  bindings, although they still emit into each other as before.
\<close>

theorem duplicate_binding_hides_cycle:
  assumes "distinct_emitters iid bs" "\<not> acyclic (emit_graph iid bs)"
    and "acyclic {(x, y) \<in> emit_graph iid bs. x \<noteq> consume_key iid b}"
    and "sb_Emit b \<noteq> []" "emit_key iid b \<notin> insert (consume_key iid b) (fst ` emit_graph iid bs)"
  shows "detectEmitCycles bs iid \<noteq> None
    \<and> detectEmitCycles (bs @ [b]) iid = None \<and> \<not> acyclic (emit_graph iid (bs @ [b]))"
proof -
  let ?k = "consume_key iid b" and ?t = "emit_key iid b"
  let ?R = "{(x, y) \<in> emit_graph iid bs. x \<noteq> ?k}"
  have "edge_rel (emit_edges (bs @ [b]) iid) \<subseteq> insert (?k, ?t) ?R"
    using edge_rel_subset [of bs iid] assms(4) by (auto simp: emit_edges_alt edge_rel_def split: if_splits)
  moreover have "(?t, ?k) \<notin> ?R\<^sup>*"
  proof
    assume "(?t, ?k) \<in> ?R\<^sup>*"
    then show False
    proof (cases rule: converse_rtranclE)
      case (step y)
      then have "fst (?t, y) \<in> fst ` emit_graph iid bs" by (intro imageI) simp
      with assms(5) show False by simp
    qed (use assms(5) in simp)
  qed
  with assms(3) have "acyclic (insert (?k, ?t) ?R)" by (simp add: acyclic_insert)
  ultimately have "detectEmitCycles (bs @ [b]) iid = None"
    unfolding detectEmitCycles_None by (rule acyclic_subset [rotated])
  moreover have "emit_graph iid bs \<subseteq> emit_graph iid (bs @ [b])" by (auto simp: emit_graph_def)
  then have "\<not> acyclic (emit_graph iid (bs @ [b]))" using assms(2) acyclic_subset by blast
  moreover have "detectEmitCycles bs iid \<noteq> None"
    using assms(2) by (simp add: detectEmitCycles_None edge_rel_emit_graph [OF assms(1)])
  ultimately show ?thesis by blast
qed

text \<open>Two bindings that emit into each other, and a third on the stream of the first.\<close>

definition looping_bindings :: "StreamBinding list" where
  "looping_bindings =
     [\<lparr>sb_Stream = ''a'', sb_Scope = ''shared'', sb_Handler = [], sb_Emit = ''b'', sb_Enrich = []\<rparr>,
      \<lparr>sb_Stream = ''b'', sb_Scope = ''shared'', sb_Handler = [], sb_Emit = ''a'', sb_Enrich = []\<rparr>]"

definition hiding_binding :: StreamBinding where
  "hiding_binding = \<lparr>sb_Stream = ''a'', sb_Scope = ''shared'', sb_Handler = [], sb_Emit = ''c'', sb_Enrich = []\<rparr>"

lemma looping_accepted:
  "validateInstance demo_env (demo_instance\<lparr>ic_Streams := looping_bindings @ [hiding_binding]\<rparr>) = None"
  by code_simp

theorem duplicate_binding_hides_cycle_witness:
  "detectEmitCycles looping_bindings ''i1'' \<noteq> None
   \<and> detectEmitCycles (looping_bindings @ [hiding_binding]) ''i1'' = None"
proof -
  have g: "emit_graph ''i1'' looping_bindings = {(''a'', ''b''), (''b'', ''a'')}"
    and k: "consume_key ''i1'' hiding_binding = ''a''" "emit_key ''i1'' hiding_binding = ''c''"
    by (auto simp: emit_graph_def looping_bindings_def hiding_binding_def consume_key_def emit_key_def ResolveKey_def
        scopeOrDefault_def)
  have "(''a'', ''a'') \<in> {(''a'', ''b''), (''b'', ''a'')}\<^sup>+"
    by (rule trancl_into_trancl [OF r_into_trancl]) simp_all
  then have cyclic: "\<not> acyclic (emit_graph ''i1'' looping_bindings)" unfolding g acyclic_def by blast
  have "acyclic ({} :: (string \<times> string) set)" by (simp add: acyclic_def)
  then have single: "acyclic (insert (''b'', ''a'') {})" by (simp add: acyclic_insert)
  have "{(x, y) \<in> emit_graph ''i1'' looping_bindings. x \<noteq> ''a''} = insert (''b'', ''a'') {}" by (auto simp: g)
  then have "acyclic {(x, y) \<in> emit_graph ''i1'' looping_bindings. x \<noteq> consume_key ''i1'' hiding_binding}"
    unfolding k using single by simp
  moreover have "distinct_emitters ''i1'' looping_bindings" by code_simp
  ultimately show ?thesis
    using duplicate_binding_hides_cycle [OF _ cyclic, of hiding_binding] k g by (simp add: hiding_binding_def)
qed

lemma parseDurationEnv_positive:
  "parseDurationEnv env key def sent = Inr d \<Longrightarrow> 0 < def \<Longrightarrow> 0 < d"
  "parseDurationEnv env key def sent = Inr d \<Longrightarrow> 0 \<le> def \<Longrightarrow> 0 \<le> d"
  by (auto simp: parseDurationEnv_def Let_def split: if_splits option.splits)

lemma escalate_env_positive: "escalate_env env = Inr n \<Longrightarrow> 1 \<le> n"
  by (auto simp: escalate_env_def Let_def split: if_splits option.splits)

text \<open>The steps of a successful \<open>Load\<close>, in order.\<close>

lemma LoadE:
  assumes "Load h = Inr cfg"
  obtains raw instances inst0 esc rm ri gi gt hb where
    "h_env h ''DASHER_INSTANCE_ID'' \<noteq> []"
    "h_read_file h (getenv_or (h_env h) ''DASHER_CONFIG'' ''config.yaml'') = Inr raw"
    "h_unmarshal h raw = Inr instances"
    "map_of instances (h_env h ''DASHER_INSTANCE_ID'') = Some inst0"
    "validateInstance (h_env h) (inst0\<lparr>ic_ID := h_env h ''DASHER_INSTANCE_ID''\<rparr>) = None"
    "escalate_env (h_env h) = Inr esc"
    "parseDurationEnv (h_env h) ''DASHER_RECLAIM_MIN_IDLE'' (30 * second) ErrBadReclaimMinIdle = Inr rm"
    "parseDurationEnv (h_env h) ''DASHER_RECLAIM_INTERVAL'' (5 * second) ErrBadReclaimInterval = Inr ri"
    "parseDurationEnv (h_env h) ''DASHER_CONSUMER_GC_INTERVAL'' (5 * minute) ErrBadConsumerGCInterval = Inr gi"
    "parseDurationEnv (h_env h) ''DASHER_CONSUMER_GC_TIMEOUT'' (10 * minute) ErrBadConsumerGCTimeout = Inr gt"
    "rm < gt"
    "parseDurationEnv (h_env h) ''DASHER_HEARTBEAT_INTERVAL'' (quot2 rm) ErrBadHeartbeatInterval = Inr hb"
    "hb \<le> quot2 rm"
    "cfg = \<lparr>InstanceID = h_env h ''DASHER_INSTANCE_ID'',
       RedisAddr = getenv_or (h_env h) ''DASHER_REDIS_ADDR'' ''localhost:6379'',
       Group = h_env h ''DASHER_INSTANCE_ID'',
       Consumer = consumer_name h,
       EscalateAfter = esc, Instance = inst0\<lparr>ic_ID := h_env h ''DASHER_INSTANCE_ID''\<rparr>,
       ReclaimMinIdle = rm, ReclaimInterval = ri, ConsumerGCInterval = gi, ConsumerGCTimeout = gt,
       HeartbeatInterval = hb\<rparr>"
  using assms unfolding Load_def Let_def
  by (auto simp: not_le not_less split: if_splits sum.splits option.splits)

lemma load_relations:
  assumes "Load h = Inr cfg"
  shows "InstanceID cfg = h_env h ''DASHER_INSTANCE_ID'' \<and> Group cfg = InstanceID cfg
     \<and> ic_ID (Instance cfg) = InstanceID cfg \<and> validateInstance (h_env h) (Instance cfg) = None
     \<and> 1 \<le> EscalateAfter cfg \<and> Consumer cfg \<noteq> []
     \<and> 0 < ReclaimMinIdle cfg \<and> 0 < ReclaimInterval cfg \<and> 0 < ConsumerGCInterval cfg
     \<and> ReclaimMinIdle cfg < ConsumerGCTimeout cfg
     \<and> 0 \<le> HeartbeatInterval cfg \<and> 2 * HeartbeatInterval cfg \<le> ReclaimMinIdle cfg"
  using assms
proof (cases rule: LoadE)
  case (1 raw instances inst0 esc rm ri gi gt hb)
  from 1(7) have rm: "0 < rm" by (rule parseDurationEnv_positive) (simp add: go_simps)
  from 1(8) have ri: "0 < ri" by (rule parseDurationEnv_positive) (simp add: go_simps)
  from 1(9) have gi: "0 < gi" by (rule parseDurationEnv_positive) (simp add: go_simps)
  from 1(12) have hb: "0 \<le> hb" by (rule parseDurationEnv_positive) (use rm in simp)
  from 1(13) rm have "2 * hb \<le> rm" by simp
  moreover have "consumer_name h \<noteq> []"
    by (auto simp: consumer_name_def split: sum.splits)
  ultimately show ?thesis
    using 1 rm ri gi hb escalate_env_positive [OF 1(6)] by simp
qed

text \<open>
  C34. A loaded configuration belongs to the selected instance, has passed validation, and
  relates the tuning parameters as the consumer needs them: positive periods, dead consumers
  collected later than their entries are reclaimed, at least two heartbeats per idle period.
\<close>

theorem load_tuning:
  assumes "Load h = Inr cfg"
  shows "InstanceID cfg = h_env h ''DASHER_INSTANCE_ID'' \<and> Group cfg = InstanceID cfg
     \<and> ic_ID (Instance cfg) = InstanceID cfg \<and> validateInstance (h_env h) (Instance cfg) = None
     \<and> 1 \<le> EscalateAfter cfg \<and> Consumer cfg \<noteq> []
     \<and> 0 < ReclaimMinIdle cfg \<and> 0 < ReclaimInterval cfg \<and> 0 < ConsumerGCInterval cfg
     \<and> ReclaimMinIdle cfg < ConsumerGCTimeout cfg
     \<and> 0 \<le> HeartbeatInterval cfg \<and> 2 * HeartbeatInterval cfg \<le> ReclaimMinIdle cfg"
  using load_relations [OF assms] .

definition demo_host :: host where
  "demo_host = \<lparr>h_env = demo_env, h_read_file = (\<lambda>path. Inr ''yaml''),
     h_unmarshal = (\<lambda>raw. Inr [(''i1'', demo_instance)]), h_hostname = Inr ''pod-1''\<rparr>"

definition demo_config :: Config where
  "demo_config = \<lparr>InstanceID = ''i1'', RedisAddr = ''localhost:6379'', Group = ''i1'', Consumer = ''pod-1'',
     EscalateAfter = 10, Instance = demo_instance, ReclaimMinIdle = 20 * second,
     ReclaimInterval = 5 * second, ConsumerGCInterval = 5 * minute, ConsumerGCTimeout = 10 * minute,
     HeartbeatInterval = 10 * second\<rparr>"

lemma load_demo: "Load demo_host = Inr demo_config"
  by code_simp

theorem load_tuning_witness:
  "2 * HeartbeatInterval demo_config \<le> ReclaimMinIdle demo_config
   \<and> ReclaimMinIdle demo_config < ConsumerGCTimeout demo_config"
  using load_tuning [OF load_demo] by simp

end
