(* ===== verification/Go_Json.thy ===== *)
theory Go_Json
  imports Prelude
begin

section \<open>encoding/json: syntax trees, the scanner and the encoder\<close>

text \<open>
  The part of \<^verbatim>\<open>encoding/json\<close> the sources rely on. A JSON text is parsed to a syntax tree
  that keeps numbers as their decimal text (as \<^verbatim>\<open>UseNumber\<close> does) and members in textual
  order with their duplicates; what a Go value receives from the tree is defined where it is
  decoded. \<^verbatim>\<open>parse_prefix\<close> is \<^verbatim>\<open>Decoder.Decode\<close>, which stops after the first value;
  \<^verbatim>\<open>parse_all\<close> is \<^verbatim>\<open>Unmarshal\<close>, which refuses trailing data. \<^verbatim>\<open>render\<close> is the encoder,
  with its HTML escaping. Strings are UTF-8 bytes; invalid UTF-8 and unpaired surrogates
  become U+FFFD, as in Go.
\<close>

datatype json =
    JNull
  | JBool bool
  | JNum string
  | JStr string
  | JArr "json list"
  | JObj "(string \<times> json) list"

subsection \<open>UTF-8\<close>

abbreviation byte :: "char \<Rightarrow> int" where
  "byte c \<equiv> of_char c"

definition byte_at :: "int \<Rightarrow> int \<Rightarrow> string \<Rightarrow> nat \<Rightarrow> bool" where
  "byte_at lo hi s k \<longleftrightarrow> k < length s \<and> lo \<le> byte (s ! k) \<and> byte (s ! k) \<le> hi"

text \<open>
  \<^verbatim>\<open>utf8.DecodeRune\<close>'s size of a well-formed first rune, and 0 where it would report
  \<^verbatim>\<open>RuneError\<close> of size 1 (or nothing is left).
\<close>

definition utf8_size :: "string \<Rightarrow> nat" where
  "utf8_size s =
     (if s = [] then 0
      else let b = byte (hd s) in
        if b < 0x80 then 1
        else if 0xC2 \<le> b \<and> b \<le> 0xDF then (if byte_at 0x80 0xBF s 1 then 2 else 0)
        else if 0xE0 \<le> b \<and> b \<le> 0xEF then
          (if byte_at (if b = 0xE0 then 0xA0 else 0x80) (if b = 0xED then 0x9F else 0xBF) s 1
              \<and> byte_at 0x80 0xBF s 2 then 3 else 0)
        else if 0xF0 \<le> b \<and> b \<le> 0xF4 then
          (if byte_at (if b = 0xF0 then 0x90 else 0x80) (if b = 0xF4 then 0x8F else 0xBF) s 1
              \<and> byte_at 0x80 0xBF s 2 \<and> byte_at 0x80 0xBF s 3 then 4 else 0)
        else 0)"

lemma utf8_size_le: "utf8_size s \<le> length s"
  by (cases s) (auto simp: utf8_size_def byte_at_def Let_def Suc_le_eq)

lemma utf8_size_zero_or: "utf8_size (c # s) = 0 \<or> 1 \<le> utf8_size (c # s)"
  by auto

text \<open>The replacement character and \<^verbatim>\<open>utf8.AppendRune\<close>.\<close>

definition ufffd :: string where
  "ufffd = [CHR 0xEF, CHR 0xBF, CHR 0xBD]"

definition encode_rune :: "int \<Rightarrow> string" where
  "encode_rune r =
     (if r < 0x80 then [char_of r]
      else if r < 0x800 then [char_of (0xC0 + r div 64), char_of (0x80 + r mod 64)]
      else if 0xD800 \<le> r \<and> r < 0xE000 then ufffd
      else if r < 0x10000 then
        [char_of (0xE0 + r div 4096), char_of (0x80 + r div 64 mod 64), char_of (0x80 + r mod 64)]
      else [char_of (0xF0 + r div 262144), char_of (0x80 + r div 4096 mod 64),
            char_of (0x80 + r div 64 mod 64), char_of (0x80 + r mod 64)])"

subsection \<open>The scanner\<close>

definition is_ws :: "char \<Rightarrow> bool" where
  "is_ws c \<longleftrightarrow> c = CHR '' '' \<or> c = CHR 0x09 \<or> c = CHR 0x0A \<or> c = CHR 0x0D"

definition skip_ws :: "string \<Rightarrow> string" where
  "skip_ws s = dropWhile is_ws s"

lemma skip_ws_length: "length (skip_ws s) \<le> length s"
  by (simp add: skip_ws_def length_dropWhile_le)

lemma skip_ws_Cons_length: "skip_ws s = c # r \<Longrightarrow> length r < length s"
  using skip_ws_length [of s] by simp

lemma skip_ws_no_ws [simp]: "\<not> is_ws c \<Longrightarrow> skip_ws (c # s) = c # s"
  by (simp add: skip_ws_def)

definition hex_val :: "char \<Rightarrow> int option" where
  "hex_val c =
     (let b = byte c in
      if 48 \<le> b \<and> b \<le> 57 then Some (b - 48)
      else if 97 \<le> b \<and> b \<le> 102 then Some (b - 87)
      else if 65 \<le> b \<and> b \<le> 70 then Some (b - 55)
      else None)"

fun hex4 :: "string \<Rightarrow> (int \<times> string) option" where
  "hex4 (a # b # c # d # s) =
     (case (hex_val a, hex_val b, hex_val c, hex_val d) of
        (Some w, Some x, Some y, Some z) \<Rightarrow> Some (((w * 16 + x) * 16 + y) * 16 + z, s)
      | _ \<Rightarrow> None)"
| "hex4 s = None"

lemma hex4_length: "hex4 s = Some (u, r) \<Longrightarrow> length s = length r + 4"
  by (induction s rule: hex4.induct) (auto split: option.splits)

text \<open>The second half of a surrogate pair, \<^verbatim>\<open>utf16.DecodeRune\<close> on it.\<close>

definition surrogate_pair :: "int \<Rightarrow> string \<Rightarrow> (int \<times> string) option" where
  "surrogate_pair u s =
     (case s of
        a # b # r \<Rightarrow>
          if a = CHR 0x5C \<and> b = CHR ''u'' then
            (case hex4 r of
               Some (v, r') \<Rightarrow>
                 if 0xD800 \<le> u \<and> u < 0xDC00 \<and> 0xDC00 \<le> v \<and> v < 0xE000
                 then Some ((u - 0xD800) * 1024 + (v - 0xDC00) + 0x10000, r') else None
             | None \<Rightarrow> None)
          else None
      | _ \<Rightarrow> None)"

lemma surrogate_pair_length: "surrogate_pair u s = Some (v, r) \<Longrightarrow> length r < length s"
  by (auto simp: surrogate_pair_def dest!: hex4_length split: list.splits if_splits option.splits)

definition simple_escape :: "char \<Rightarrow> char option" where
  "simple_escape e =
     (if e = CHR 0x22 \<or> e = CHR 0x5C \<or> e = CHR ''/'' then Some e
      else if e = CHR ''b'' then Some (CHR 0x08)
      else if e = CHR ''f'' then Some (CHR 0x0C)
      else if e = CHR ''n'' then Some (CHR 0x0A)
      else if e = CHR ''r'' then Some (CHR 0x0D)
      else if e = CHR ''t'' then Some (CHR 0x09)
      else None)"

definition prepend :: "string \<Rightarrow> (string \<times> string) option \<Rightarrow> (string \<times> string) option" where
  "prepend p x = map_option (\<lambda>(b, r). (p @ b, r)) x"

lemma prepend_Some: "prepend p x = Some (b, r) \<longleftrightarrow> (\<exists>b'. x = Some (b', r) \<and> b = p @ b')"
  by (auto simp: prepend_def)

text \<open>The body of a string literal, after its opening quote: the decoded bytes and the rest.\<close>

function scan_str :: "string \<Rightarrow> (string \<times> string) option" where
  "scan_str [] = None"
| "scan_str (c # r) =
     (if c = CHR 0x22 then Some ([], r)
      else if c = CHR 0x5C then
        (case r of
           [] \<Rightarrow> None
         | e # r1 \<Rightarrow>
             if e = CHR ''u'' then
               (case hex4 r1 of
                  None \<Rightarrow> None
                | Some (u, r2) \<Rightarrow>
                    if 0xD800 \<le> u \<and> u < 0xE000 then
                      (case surrogate_pair u r2 of
                         Some (v, r3) \<Rightarrow> prepend (encode_rune v) (scan_str r3)
                       | None \<Rightarrow> prepend ufffd (scan_str r2))
                    else prepend (encode_rune u) (scan_str r2))
             else (case simple_escape e of
                  None \<Rightarrow> None
                | Some d \<Rightarrow> prepend [d] (scan_str r1)))
      else if byte c < 32 then None
      else (case utf8_size (c # r) of
          0 \<Rightarrow> prepend ufffd (scan_str r)
        | Suc n \<Rightarrow> prepend (c # take n r) (scan_str (drop n r))))"
  by pat_completeness auto
termination
  by (relation "measure length") (auto dest!: hex4_length surrogate_pair_length)

declare scan_str.simps(2) [simp del]

lemma scan_str_length: "scan_str s = Some (b, r) \<Longrightarrow> length r < length s"
proof (induction s arbitrary: b rule: length_induct)
  case (1 s)
  show ?case
  proof (cases s)
    case Nil
    with "1.prems" show ?thesis by simp
  next
    case (Cons c q)
    then have IH: "scan_str t = Some (d, r) \<Longrightarrow> length t \<le> length q \<Longrightarrow> length r < length t" for t d
      using "1.IH" by simp
    from Cons "1.prems" have "scan_str (c # q) = Some (b, r)" by simp
    then show ?thesis unfolding Cons
      by (subst (asm) scan_str.simps(2))
        (auto simp: prepend_Some dest!: hex4_length surrogate_pair_length
          split: if_splits list.splits option.splits nat.splits, (drule IH; simp)+)
  qed
qed

text \<open>A number literal: \<^verbatim>\<open>-?(0|[1-9][0-9]*)(\.[0-9]+)?([eE][+-]?[0-9]+)?\<close>, as its text.\<close>

definition scan_sign :: "string \<Rightarrow> string \<times> string" where
  "scan_sign s = (case s of c # r \<Rightarrow> if c = CHR ''-'' then ([c], r) else ([], s) | [] \<Rightarrow> ([], []))"

definition scan_int :: "string \<Rightarrow> (string \<times> string) option" where
  "scan_int s =
     (case s of
        [] \<Rightarrow> None
      | c # r \<Rightarrow> if c = CHR ''0'' then Some ([c], r)
                else if is_digit c then Some (takeWhile is_digit s, dropWhile is_digit s)
                else None)"

definition scan_frac :: "string \<Rightarrow> (string \<times> string) option" where
  "scan_frac s =
     (case s of
        c # r \<Rightarrow> if c = CHR ''.'' then
                   (if takeWhile is_digit r = [] then None
                    else Some (c # takeWhile is_digit r, dropWhile is_digit r))
                 else Some ([], s)
      | [] \<Rightarrow> Some ([], []))"

definition scan_exp :: "string \<Rightarrow> (string \<times> string) option" where
  "scan_exp s =
     (case s of
        c # r \<Rightarrow> if c = CHR ''e'' \<or> c = CHR ''E'' then
                   (let (sg, r1) = (case r of d # r' \<Rightarrow>
                                     if d = CHR ''+'' \<or> d = CHR ''-'' then ([d], r') else ([], r)
                                   | [] \<Rightarrow> ([], []))
                    in if takeWhile is_digit r1 = [] then None
                       else Some (c # sg @ takeWhile is_digit r1, dropWhile is_digit r1))
                 else Some ([], s)
      | [] \<Rightarrow> Some ([], []))"

definition scan_num :: "string \<Rightarrow> (string \<times> string) option" where
  "scan_num s =
     (let (sg, s1) = scan_sign s in
      case scan_int s1 of None \<Rightarrow> None
      | Some (i, s2) \<Rightarrow>
      (case scan_frac s2 of None \<Rightarrow> None
      | Some (f, s3) \<Rightarrow>
      (case scan_exp s3 of None \<Rightarrow> None
      | Some (x, s4) \<Rightarrow> Some (sg @ i @ f @ x, s4))))"

text \<open>Go's \<^verbatim>\<open>isValidNumber\<close>: the whole text is one number literal.\<close>

definition valid_number :: "string \<Rightarrow> bool" where
  "valid_number s \<longleftrightarrow> scan_num s = Some (s, [])"

definition scan_word :: "string \<Rightarrow> json \<Rightarrow> string \<Rightarrow> (json \<times> string) option" where
  "scan_word w j s = (if has_prefix s w then Some (j, drop (length w) s) else None)"

text \<open>
  A value, the elements of an array and the members of an object. \<open>d\<close> is how many more levels
  may be opened (Go's \<^verbatim>\<open>maxNestingDepth\<close>). The comparisons of lengths never fail, as
  \<^verbatim>\<open>parse_value_shorter\<close> below shows; they make the recursion evidently well founded.
\<close>

function (sequential) parse_value :: "nat \<Rightarrow> string \<Rightarrow> (json \<times> string) option"
  and parse_elems :: "nat \<Rightarrow> string \<Rightarrow> (json list \<times> string) option"
  and parse_members :: "nat \<Rightarrow> string \<Rightarrow> ((string \<times> json) list \<times> string) option"
where
  "parse_value d s =
     (case skip_ws s of
        [] \<Rightarrow> None
      | c # r \<Rightarrow>
          if c = CHR ''{'' then
            (if d = 0 then None
             else (case skip_ws r of
                [] \<Rightarrow> None
              | c2 # r2 \<Rightarrow>
                  if c2 = CHR ''}'' then Some (JObj [], r2)
                  else map_option (\<lambda>(ms, t). (JObj ms, t)) (parse_members (d - 1) r)))
          else if c = CHR ''['' then
            (if d = 0 then None
             else (case skip_ws r of
                [] \<Rightarrow> None
              | c2 # r2 \<Rightarrow>
                  if c2 = CHR '']'' then Some (JArr [], r2)
                  else map_option (\<lambda>(vs, t). (JArr vs, t)) (parse_elems (d - 1) r)))
          else if c = CHR 0x22 then map_option (\<lambda>(b, t). (JStr b, t)) (scan_str r)
          else if c = CHR ''t'' then scan_word ''true'' (JBool True) (c # r)
          else if c = CHR ''f'' then scan_word ''false'' (JBool False) (c # r)
          else if c = CHR ''n'' then scan_word ''null'' JNull (c # r)
          else map_option (\<lambda>(b, t). (JNum b, t)) (scan_num (c # r)))"
| "parse_elems d s =
     (case parse_value d s of
        None \<Rightarrow> None
      | Some (v, r) \<Rightarrow>
          (case skip_ws r of
             [] \<Rightarrow> None
           | c # r2 \<Rightarrow>
               if c = CHR '']'' then Some ([v], r2)
               else if c = CHR '','' \<and> length r2 < length s
               then map_option (\<lambda>(vs, t). (v # vs, t)) (parse_elems d r2)
               else None))"
| "parse_members d s =
     (case skip_ws s of
        [] \<Rightarrow> None
      | q # r \<Rightarrow>
          if q \<noteq> CHR 0x22 then None
          else (case scan_str r of
             None \<Rightarrow> None
           | Some (k, r1) \<Rightarrow>
               (case skip_ws r1 of
                  [] \<Rightarrow> None
                | c # r2 \<Rightarrow>
                    if c \<noteq> CHR '':'' then None
                    else (case parse_value d r2 of
                       None \<Rightarrow> None
                     | Some (v, r3) \<Rightarrow>
                         (case skip_ws r3 of
                            [] \<Rightarrow> None
                          | e # r4 \<Rightarrow>
                              if e = CHR ''}'' then Some ([(k, v)], r4)
                              else if e = CHR '','' \<and> length r4 < length s
                              then map_option (\<lambda>(ms, t). ((k, v) # ms, t)) (parse_members d r4)
                              else None)))))"
  by pat_completeness auto
termination
  by (relation "measure (\<lambda>x. case x of Inl (d, s) \<Rightarrow> 2 * length s
      | Inr (Inl (d, s)) \<Rightarrow> 2 * length s + 1 | Inr (Inr (d, s)) \<Rightarrow> 2 * length s + 1)")
    (auto dest!: skip_ws_Cons_length scan_str_length)

declare parse_value.simps [simp del] parse_elems.simps [simp del] parse_members.simps [simp del]

definition max_nesting_depth :: nat where
  "max_nesting_depth = 10000"

text \<open>
  \<^verbatim>\<open>Decoder.Decode\<close> reads one value and ignores what follows: the scanner reports the end of a value at the
  byte after it, whatever that byte is, and the complaint about it is left to the next call, which the
  sources never make. \<^verbatim>\<open>Unmarshal\<close> takes the whole text.
\<close>

definition parse_prefix :: "string \<Rightarrow> json option" where
  "parse_prefix s = map_option fst (parse_value max_nesting_depth s)"

definition parse_all :: "string \<Rightarrow> json option" where
  "parse_all s =
     (case parse_value max_nesting_depth s of
        Some (j, r) \<Rightarrow> if skip_ws r = [] then Some j else None
      | None \<Rightarrow> None)"

subsection \<open>The encoder\<close>

definition hex_digit :: "int \<Rightarrow> char" where
  "hex_digit d = (if d < 10 then char_of (48 + d) else char_of (87 + d))"

definition u_escape :: "int \<Rightarrow> string" where
  "u_escape u =
     [CHR 0x5C, CHR ''u'', hex_digit (u div 4096 mod 16), hex_digit (u div 256 mod 16),
      hex_digit (u div 16 mod 16), hex_digit (u mod 16)]"

definition enc_ascii :: "char \<Rightarrow> string" where
  "enc_ascii c =
     (if c = CHR 0x22 \<or> c = CHR 0x5C then [CHR 0x5C, c]
      else if c = CHR 0x08 then [CHR 0x5C, CHR ''b'']
      else if c = CHR 0x0C then [CHR 0x5C, CHR ''f'']
      else if c = CHR 0x0A then [CHR 0x5C, CHR ''n'']
      else if c = CHR 0x0D then [CHR 0x5C, CHR ''r'']
      else if c = CHR 0x09 then [CHR 0x5C, CHR ''t'']
      else if byte c < 32 \<or> c = CHR ''<'' \<or> c = CHR ''>'' \<or> c = CHR ''&'' then u_escape (byte c)
      else [c])"

function enc_str :: "string \<Rightarrow> string" where
  "enc_str [] = []"
| "enc_str (c # r) =
     (case utf8_size (c # r) of
        0 \<Rightarrow> [CHR 0x5C] @ ''ufffd'' @ enc_str r
      | Suc n \<Rightarrow>
          (if n = 0 then enc_ascii c
           else if c # take n r = [CHR 0xE2, CHR 0x80, CHR 0xA8] then u_escape 0x2028
           else if c # take n r = [CHR 0xE2, CHR 0x80, CHR 0xA9] then u_escape 0x2029
           else c # take n r) @ enc_str (drop n r))"
  by pat_completeness auto
termination
  by (relation "measure length") auto

declare enc_str.simps(2) [simp del]

definition quote :: "string \<Rightarrow> string" where
  "quote s = CHR 0x22 # enc_str s @ [CHR 0x22]"

fun join :: "string \<Rightarrow> string list \<Rightarrow> string" where
  "join sep [] = []"
| "join sep [x] = x"
| "join sep (x # y # ys) = x @ sep @ join sep (y # ys)"

fun render :: "json \<Rightarrow> string" where
  "render JNull = ''null''"
| "render (JBool b) = (if b then ''true'' else ''false'')"
| "render (JNum s) = s"
| "render (JStr s) = quote s"
| "render (JArr js) = ''['' @ join '','' (map render js) @ '']''"
| "render (JObj ms) = ''{'' @ join '','' (map (\<lambda>(k, j). quote k @ '':'' @ render j) ms) @ ''}''"

end
