(* ===== verification/Go_Value.thy ===== *)
theory Go_Value
  imports Go_Json "HOL-Library.Word"
begin

section \<open>Dynamically typed Go values\<close>

text \<open>
  What a variable of type \<^verbatim>\<open>any\<close> holds in this program: decoded JSON, bind values and database
  columns. A \<^verbatim>\<open>map[string]any\<close> is an association list sorted by key with distinct keys, its
  canonical form; a map variable is an option of it, \<^term>\<open>None\<close> being the nil map.
  \<open>VOther\<close> stands for a value of a type of another package (a timestamp or UUID a database
  column is scanned into): its \<^verbatim>\<open>%T\<close>, its \<^verbatim>\<open>%v\<close> and its JSON encoding, which may not exist.
  A \<^verbatim>\<open>float64\<close> is its 64 bits; reading one from decimal text and printing one are the
  functions of \<open>float_ops\<close>, parameters of the model.
\<close>

datatype val =
    VNil
  | VBool bool
  | VInt int
  | VFloat "64 word"
  | VNum string
  | VStr string
  | VList "val list"
  | VMap "(string \<times> val) list"
  | VOther string string "json option"

type_synonym gomap = "(string \<times> val) list"

record float_ops =
  fl_parse :: "string \<Rightarrow> 64 word option"
  fl_v :: "64 word \<Rightarrow> string"
  fl_json :: "64 word \<Rightarrow> string option"

subsection \<open>Maps as sorted association lists\<close>

fun map_put :: "'k::linorder \<Rightarrow> 'v \<Rightarrow> ('k \<times> 'v) list \<Rightarrow> ('k \<times> 'v) list" where
  "map_put k v [] = [(k, v)]"
| "map_put k v ((k', v') # m) =
     (if k < k' then (k, v) # (k', v') # m
      else if k = k' then (k, v) # m
      else (k', v') # map_put k v m)"

definition sorted_map :: "('k::linorder \<times> 'v) list \<Rightarrow> bool" where
  "sorted_map m \<longleftrightarrow> sorted_wrt (<) (map fst m)"

lemma map_of_map_put [simp]: "sorted_map m \<Longrightarrow> map_of (map_put k v m) = (map_of m)(k \<mapsto> v)"
  by (induction k v m rule: map_put.induct) (auto simp: sorted_map_def fun_eq_iff)

lemma set_keys_map_put [simp]: "fst ` set (map_put k v m) = insert k (fst ` set m)"
  by (induction k v m rule: map_put.induct) auto

lemma sorted_map_put [simp, intro]: "sorted_map m \<Longrightarrow> sorted_map (map_put k v m)"
proof (induction k v m rule: map_put.induct)
  case (2 k v k' v' m)
  then have m: "sorted_map m" "\<forall>x \<in> fst ` set m. k' < x"
    by (auto simp: sorted_map_def)
  show ?case
  proof (cases "k < k' \<or> k = k'")
    case True
    with m show ?thesis by (auto simp: sorted_map_def)
  next
    case False
    with m 2 have "sorted_map (map_put k v m)" "k' < k" by auto
    with m False show ?thesis
      using set_keys_map_put [of k v m] by (auto simp: sorted_map_def)
  qed
qed (simp add: sorted_map_def)

lemma sorted_map_Nil [simp, intro]: "sorted_map []"
  by (simp add: sorted_map_def)

lemma sorted_map_distinct: "sorted_map m \<Longrightarrow> distinct (map fst m)"
  by (simp add: sorted_map_def strict_sorted_iff)

text \<open>Inserting the pairs of a list one after the other, the last one of a key winning.\<close>

definition map_of_pairs :: "('k::linorder \<times> 'v) list \<Rightarrow> ('k \<times> 'v) list" where
  "map_of_pairs ps = foldl (\<lambda>m (k, v). map_put k v m) [] ps"

lemma foldl_map_put:
  "sorted_map m \<Longrightarrow> sorted_map (foldl (\<lambda>m (k, v). map_put k v m) m ps)
     \<and> map_of (foldl (\<lambda>m (k, v). map_put k v m) m ps) = map_of m ++ map_of (rev ps)"
proof (induction ps arbitrary: m)
  case (Cons p ps)
  then show ?case by (cases p) (auto simp: fun_upd_def fun_eq_iff map_add_def split: option.splits)
qed simp

lemma sorted_map_of_pairs [simp]: "sorted_map (map_of_pairs ps)"
  by (simp add: map_of_pairs_def foldl_map_put)

lemma map_of_pairs_lookup: "map_of (map_of_pairs ps) = map_of (rev ps)"
  by (simp add: map_of_pairs_def foldl_map_put)

lemma map_put_last: "\<forall>x \<in> fst ` set m. x < k \<Longrightarrow> map_put k v m = m @ [(k, v)]"
  by (induction k v m rule: map_put.induct) force+

lemma foldl_map_put_sorted:
  "sorted_map (m @ ps) \<Longrightarrow> foldl (\<lambda>m (k, v). map_put k v m) m ps = m @ ps"
proof (induction ps arbitrary: m)
  case (Cons p ps)
  obtain k v where p: "p = (k, v)" by fastforce
  with Cons.prems have "\<forall>x \<in> fst ` set m. x < k"
    by (auto simp: sorted_map_def sorted_wrt_append)
  then have "map_put k v m = m @ [p]" by (simp add: p map_put_last)
  with Cons show ?case by (simp add: p)
qed simp

lemma map_of_pairs_sorted [simp]: "sorted_map ps \<Longrightarrow> map_of_pairs ps = ps"
  using foldl_map_put_sorted [of "[]" ps] by (simp add: map_of_pairs_def)

subsection \<open>Decoding into \<open>any\<close> and into a map\<close>

fun to_any :: "json \<Rightarrow> val" where
  "to_any JNull = VNil"
| "to_any (JBool b) = VBool b"
| "to_any (JNum s) = VNum s"
| "to_any (JStr s) = VStr s"
| "to_any (JArr js) = VList (map to_any js)"
| "to_any (JObj ms) = VMap (map_of_pairs (map (\<lambda>(k, j). (k, to_any j)) ms))"

text \<open>A destination of type \<^verbatim>\<open>map[string]any\<close>: an object, \<^verbatim>\<open>null\<close> (the nil map), or an error.\<close>

fun to_map :: "json \<Rightarrow> gomap option option" where
  "to_map JNull = Some None"
| "to_map (JObj ms) = Some (Some (map_of_pairs (map (\<lambda>(k, j). (k, to_any j)) ms)))"
| "to_map _ = None"

lemma to_map_sorted: "to_map j = Some (Some m) \<Longrightarrow> sorted_map m"
  by (cases j) auto

subsection \<open>json.Marshal\<close>

fun marshal :: "float_ops \<Rightarrow> val \<Rightarrow> json option" where
  "marshal fl VNil = Some JNull"
| "marshal fl (VBool b) = Some (JBool b)"
| "marshal fl (VInt i) = Some (JNum (dec_int i))"
| "marshal fl (VFloat f) = map_option JNum (fl_json fl f)"
| "marshal fl (VNum s) =
     (let t = (if s = [] then ''0'' else s) in if valid_number t then Some (JNum t) else None)"
| "marshal fl (VStr s) = Some (JStr s)"
| "marshal fl (VList vs) = map_option JArr (those (map (marshal fl) vs))"
| "marshal fl (VMap m) =
     map_option JObj
       (those (map (\<lambda>(k, v). map_option (Pair k) (marshal fl v)) (sort_key fst m)))"
| "marshal fl (VOther t v j) = j"

definition marshal_map :: "float_ops \<Rightarrow> gomap option \<Rightarrow> string option" where
  "marshal_map fl m =
     map_option render (marshal fl (case m of None \<Rightarrow> VNil | Some kv \<Rightarrow> VMap kv))"

subsection \<open>The verbs \<open>%T\<close> and \<open>%v\<close>\<close>

fun type_name :: "val \<Rightarrow> string" where
  "type_name VNil = ''<nil>''"
| "type_name (VBool b) = ''bool''"
| "type_name (VInt i) = ''int64''"
| "type_name (VFloat f) = ''float64''"
| "type_name (VNum s) = ''json.Number''"
| "type_name (VStr s) = ''string''"
| "type_name (VList vs) = ''[]interface {}''"
| "type_name (VMap m) = ''map[string]interface {}''"
| "type_name (VOther t v j) = t"

fun show_v :: "float_ops \<Rightarrow> val \<Rightarrow> string" where
  "show_v fl VNil = ''<nil>''"
| "show_v fl (VBool b) = (if b then ''true'' else ''false'')"
| "show_v fl (VInt i) = dec_int i"
| "show_v fl (VFloat f) = fl_v fl f"
| "show_v fl (VNum s) = s"
| "show_v fl (VStr s) = s"
| "show_v fl (VList vs) = ''['' @ join '' '' (map (show_v fl) vs) @ '']''"
| "show_v fl (VMap m) =
     ''map['' @ join '' '' (map (\<lambda>(k, v). k @ '':'' @ show_v fl v) (sort_key fst m)) @ '']''"
| "show_v fl (VOther t v j) = v"

end
