(* ===== verification/Environment.thy ===== *)
theory Environment
  imports Go_Value Go_Error Complex_Main
begin

section \<open>What the process finds around it\<close>

text \<open>
  The state outside the program's own memory, passed through every operation that touches it.
  Servers, the network, the clock, the random generator and the cancellation of the context are
  not code of the repository: their answers are parameters. The \<open>n\<close>-th reading of the clock is
  \<open>ticks n\<close>, the \<open>n\<close>-th draw \<open>rands n\<close>, the \<open>n\<close>-th look at the context \<open>polls n\<close>, the answer
  to the \<open>n\<close>-th HTTP request and database query \<open>http_ans n\<close> and \<open>db_ans n\<close>; what was sent is
  logged in order. An error these make is opaque text. \<open>srv\<close> is the state of the Redis server, of a type the commands of the
  parameter \<open>redis\<close> (below) work on.
\<close>

datatype http_result = NoResponse string | Response int string

record http_request =
  rq_method :: string
  rq_url :: string
  rq_headers :: "(string \<times> string) list"
  rq_body :: string

record 's env =
  srv :: 's
  ticks :: "nat \<Rightarrow> int"
  tick_n :: nat
  rands :: "nat \<Rightarrow> rat"
  rand_n :: nat
  polls :: "nat \<Rightarrow> bool"
  poll_n :: nat
  url_error :: "string \<Rightarrow> string option"
  http_ans :: "nat \<Rightarrow> http_result"
  http_log :: "http_request list"
  db_ans :: "nat \<Rightarrow> string + gomap list"
  db_log :: "(string \<times> (string \<times> val) list) list"
  flops :: float_ops

text \<open>\<^verbatim>\<open>time.Now\<close>, a draw of \<^verbatim>\<open>rand.Float64\<close>, and whether the context is done.\<close>

definition time_now :: "('s, 'm) env_scheme \<Rightarrow> int \<times> ('s, 'm) env_scheme" where
  "time_now w = (ticks w (tick_n w), w\<lparr>tick_n := Suc (tick_n w)\<rparr>)"

definition rand_float :: "('s, 'm) env_scheme \<Rightarrow> rat \<times> ('s, 'm) env_scheme" where
  "rand_float w = (rands w (rand_n w), w\<lparr>rand_n := Suc (rand_n w)\<rparr>)"

definition ctx_done :: "('s, 'm) env_scheme \<Rightarrow> bool \<times> ('s, 'm) env_scheme" where
  "ctx_done w = (polls w (poll_n w), w\<lparr>poll_n := Suc (poll_n w)\<rparr>)"

text \<open>\<^verbatim>\<open>http.Client.Do\<close> on a request, and a query of the database pool.\<close>

definition http_send :: "http_request \<Rightarrow> ('s, 'm) env_scheme \<Rightarrow> http_result \<times> ('s, 'm) env_scheme" where
  "http_send rq w = (http_ans w (length (http_log w)), w\<lparr>http_log := http_log w @ [rq]\<rparr>)"

definition db_query ::
  "string \<Rightarrow> (string \<times> val) list \<Rightarrow> ('s, 'm) env_scheme \<Rightarrow> gomap list result \<times> ('s, 'm) env_scheme" where
  "db_query sql args w =
     (case db_ans w (length (db_log w)) of Inl msg \<Rightarrow> Inl (External msg) | Inr rows \<Rightarrow> Inr rows,
      w\<lparr>db_log := db_log w @ [(sql, args)]\<rparr>)"

lemmas env_ops = time_now_def rand_float_def ctx_done_def http_send_def db_query_def

end
