(* ===== verification/Go_Float.thy ===== *)
theory Go_Float
  imports Complex_Main "HOL-Library.Log_Nat"
begin

section \<open>Arithmetic in float64\<close>

text \<open>
  \<open>round64\<close> rounds a rational to the nearest one with a 53-bit significand, ties to even, as each
  conversion, constant and product in \<^verbatim>\<open>float64\<close> does. Exponents down to \<open>2 ^ -128\<close> are covered;
  the smallest value the program rounds is above \<open>2 ^ -64\<close>. The conversion of a
  \<^verbatim>\<open>float64\<close> to an integer cuts towards zero. The lemmas bound the relative error.
\<close>

definition trunc_rat :: "rat \<Rightarrow> int" where
  "trunc_rat r = (if 0 \<le> r then \<lfloor>r\<rfloor> else - \<lfloor>- r\<rfloor>)"

definition round_even :: "rat \<Rightarrow> int" where
  "round_even r =
     (let f = \<lfloor>r\<rfloor>; d = r - of_int f in
      if d < 1 / 2 then f else if d > 1 / 2 then f + 1 else if even f then f else f + 1)"

definition exponent64 :: "rat \<Rightarrow> nat" where
  "exponent64 r = nat (bitlen \<lfloor>r * 2 ^ 128\<rfloor> - 53)"

definition round64 :: "rat \<Rightarrow> rat" where
  "round64 r =
     (if r = 0 then 0
      else (let u = 2 ^ exponent64 \<bar>r\<bar> / 2 ^ 128 in
            (if r < 0 then - 1 else 1) * of_int (round_even (\<bar>r\<bar> / u)) * u))"

lemma round_even_bound: "\<bar>of_int (round_even r) - r\<bar> \<le> 1 / 2"
proof -
  have "of_int \<lfloor>r\<rfloor> \<le> r" "r < of_int \<lfloor>r\<rfloor> + 1" by linarith+
  then show ?thesis by (auto simp: round_even_def Let_def)
qed

lemma exponent64_bound:
  assumes "2 ^ 52 \<le> r * 2 ^ 128"
  shows "2 ^ 52 * 2 ^ exponent64 r \<le> r * 2 ^ 128"
proof -
  define n where "n = \<lfloor>r * 2 ^ 128\<rfloor>"
  have n: "2 ^ 52 \<le> n" using assms by (simp add: n_def le_floor_iff)
  then have pos: "0 < n" by simp
  have b: "2 ^ nat (bitlen n - 1) \<le> n" using bitlen_bounds [OF pos] by simp
  have "53 \<le> bitlen n"
  proof (rule ccontr)
    assume "\<not> 53 \<le> bitlen n"
    then have "nat (bitlen n) \<le> 52" by linarith
    then have "(2::int) ^ nat (bitlen n) \<le> 2 ^ 52" by (intro power_increasing) auto
    with bitlen_bounds [OF pos] n show False by linarith
  qed
  then have "52 + exponent64 r = nat (bitlen n - 1)"
    by (simp add: exponent64_def n_def)
  then have "2 ^ 52 * 2 ^ exponent64 r = (2::int) ^ nat (bitlen n - 1)"
    by (simp only: power_add [symmetric])
  with b have "2 ^ 52 * 2 ^ exponent64 r \<le> n" by simp
  then have "of_int (2 ^ 52 * 2 ^ exponent64 r) \<le> r * 2 ^ 128" by (simp only: le_floor_iff n_def)
  then show ?thesis by simp
qed

lemma scaled_round_bound:
  fixes u :: rat
  assumes "0 < u" "2 ^ 52 * u \<le> a"
  shows "\<bar>of_int (round_even (a / u)) * u - a\<bar> \<le> a / 2 ^ 53"
proof -
  have "of_int (round_even (a / u)) * u - a = (of_int (round_even (a / u)) - a / u) * u"
    using assms(1) by (simp add: left_diff_distrib)
  also have "\<bar>\<dots>\<bar> = \<bar>of_int (round_even (a / u)) - a / u\<bar> * u"
    using assms(1) by (simp add: abs_mult)
  also have "\<dots> \<le> 1 / 2 * u" using round_even_bound assms(1) by (intro mult_right_mono) auto
  finally show ?thesis using assms(2) by simp
qed

lemma round64_bound:
  assumes "r = 0 \<or> 1 / 2 ^ 76 \<le> \<bar>r\<bar>"
  shows "\<bar>round64 r - r\<bar> \<le> \<bar>r\<bar> / 2 ^ 53"
proof (cases "r = 0")
  case False
  define u :: rat where "u = 2 ^ exponent64 \<bar>r\<bar> / 2 ^ 128"
  have u: "0 < u" by (simp add: u_def)
  from False assms have "2 ^ 52 \<le> \<bar>r\<bar> * 2 ^ 128" by (simp add: divide_le_eq)
  then have "2 ^ 52 * u \<le> \<bar>r\<bar>"
    using exponent64_bound [of "\<bar>r\<bar>"] by (simp add: u_def le_divide_eq divide_le_eq)
  note bound = scaled_round_bound [OF u this]
  define y where "y = of_int (round_even (\<bar>r\<bar> / u)) * u"
  have "round64 r = (if r < 0 then - y else y)"
    using False by (simp only: round64_def Let_def u_def [symmetric] y_def if_False) simp
  then have "\<bar>round64 r - r\<bar> = \<bar>y - \<bar>r\<bar>\<bar>" by (cases "r < 0") simp_all
  with bound [folded y_def] show ?thesis by simp
qed (simp add: round64_def)

lemma round64_scaled:
  assumes "r = 0 \<or> 1 / 2 ^ 76 \<le> \<bar>r\<bar>"
  shows "\<bar>round64 r\<bar> \<le> \<bar>r\<bar> * (1 + 1 / 2 ^ 53)" "\<bar>r\<bar> / 2 \<le> \<bar>round64 r\<bar>"
proof -
  have "\<bar>round64 r\<bar> \<le> \<bar>r\<bar> + \<bar>r\<bar> / 2 ^ 53" "\<bar>r\<bar> - \<bar>r\<bar> / 2 ^ 53 \<le> \<bar>round64 r\<bar>"
    using round64_bound [OF assms] by linarith+
  then show "\<bar>round64 r\<bar> \<le> \<bar>r\<bar> * (1 + 1 / 2 ^ 53)" "\<bar>r\<bar> / 2 \<le> \<bar>round64 r\<bar>"
    by (simp_all add: distrib_left)
qed

lemma trunc_rat_le: "\<bar>of_int (trunc_rat r)\<bar> \<le> \<bar>r\<bar>"
proof -
  have "of_int \<lfloor>r\<rfloor> \<le> r" "of_int \<lfloor>- r\<rfloor> \<le> - r" 
    "0 \<le> r \<Longrightarrow> (0 :: rat) \<le> of_int \<lfloor>r\<rfloor>" "r < 0 \<Longrightarrow> (0 :: rat) \<le> of_int \<lfloor>- r\<rfloor>"
    by (simp_all add: zero_le_floor)
  then show ?thesis unfolding trunc_rat_def by (cases "0 \<le> r") auto
qed

end
