(* ===== verification/Lookup_Cache.thy ===== *)
theory Lookup_Cache
  imports Environment Go_Float
begin

section \<open>internal/lookup/cache.go: the LRU cache\<close>

text \<open>
  The cache is a Go map from keys to list elements and a doubly linked list of the same elements,
  the most recently used in front. Elements are addresses into \<open>elems\<close>, what an element's value
  points to; \<open>lru\<close> is the order of the list. The mutex makes each operation one step.
\<close>

type_synonym rows = "gomap list"

record cacheEntry =
  ce_key :: string
  ce_value :: rows
  ce_expiresAt :: int

record Cache =
  maxEntries :: int
  items :: "string \<Rightarrow> nat option"
  lru :: "nat list"
  elems :: "nat \<Rightarrow> cacheEntry option"
  next_elem :: nat

definition defaultMaxEntries :: int where
  "defaultMaxEntries = 1024"

definition NewCache :: "int \<Rightarrow> Cache" where
  "NewCache n = \<lparr>maxEntries = (if n \<le> 0 then defaultMaxEntries else n), items = (\<lambda>_. None), lru = [],
     elems = (\<lambda>_. None), next_elem = 0\<rparr>"

subsection \<open>The cache key\<close>

text \<open>A bind map as the pairs in the order \<^verbatim>\<open>range\<close> visits them; the keys are sorted first.\<close>

definition MakeCacheKey :: "float_ops \<Rightarrow> (string \<times> val) list \<Rightarrow> string" where
  "MakeCacheKey fl bnd =
     concat (map (\<lambda>(k, v). ''|'' @ k @ ''='' @ type_name v @ '':'' @ show_v fl v) (sort_key fst bnd))"

subsection \<open>The list of container/list\<close>

definition move_to_front :: "nat \<Rightarrow> Cache \<Rightarrow> Cache" where
  "move_to_front el c = c\<lparr>lru := el # remove1 el (lru c)\<rparr>"

definition push_front :: "cacheEntry \<Rightarrow> Cache \<Rightarrow> nat \<times> Cache" where
  "push_front e c =
     (let el = next_elem c in
      (el, c\<lparr>lru := el # lru c, elems := (elems c)(el := Some e), next_elem := Suc el\<rparr>))"

subsection \<open>Get, Set and Len\<close>

text \<open>\<open>Get\<close> reads the clock only for a key it finds.\<close>

definition Get_at :: "int \<Rightarrow> string \<Rightarrow> Cache \<Rightarrow> rows option \<times> Cache" where
  "Get_at now key c =
     (case items c key of
        None \<Rightarrow> (None, c)
      | Some el \<Rightarrow>
          (case elems c el of
             None \<Rightarrow> (None, c)
           | Some entry \<Rightarrow>
               if now > ce_expiresAt entry then
                 (None, c\<lparr>lru := remove1 el (lru c), items := (items c)(key := None)\<rparr>)
               else (Some (ce_value entry), move_to_front el c)))"

definition Get :: "string \<Rightarrow> Cache \<Rightarrow> ('s, 'm) env_scheme \<Rightarrow> rows option \<times> Cache \<times> ('s, 'm) env_scheme" where
  "Get key c w =
     (if items c key = None then (None, c, w)
      else (case time_now w of (now, w') \<Rightarrow> (case Get_at now key c of (r, c') \<Rightarrow> (r, c', w'))))"

text \<open>The time to live after jitter, a product of three factors in \<^verbatim>\<open>float64\<close>.\<close>

definition jitterFraction :: rat where
  "jitterFraction = round64 (15 / 100)"

definition jitter :: "int \<Rightarrow> rat \<Rightarrow> int" where
  "jitter ttl u = trunc_rat (round64 (round64 (round64 (of_int ttl) * jitterFraction) * (u * 2 - 1)))"

definition effectiveTTL :: "int \<Rightarrow> rat \<Rightarrow> int" where
  "effectiveTTL ttl u =
     (let e = wrap64 (ttl + jitter ttl u) in if e \<le> 0 then ttl else e)"

text \<open>Eviction of the least recently used element, when the list is full.\<close>

definition evict_back :: "Cache \<Rightarrow> Cache" where
  "evict_back c =
     (if int (length (lru c)) \<ge> maxEntries c \<and> lru c \<noteq> [] then
        (let back = last (lru c); c1 = c\<lparr>lru := butlast (lru c)\<rparr> in
         case elems c back of
           None \<Rightarrow> c1
         | Some evicted \<Rightarrow> c1\<lparr>items := (items c1)(ce_key evicted := None)\<rparr>)
      else c)"

definition Set_at :: "string \<Rightarrow> rows \<Rightarrow> int \<Rightarrow> Cache \<Rightarrow> Cache" where
  "Set_at key value ex c =
     (case items c key of
        Some el \<Rightarrow>
          (let c1 = move_to_front el c in
           c1\<lparr>elems := (elems c1)(el := map_option (\<lambda>e. e\<lparr>ce_value := value, ce_expiresAt := ex\<rparr>) (elems c1 el))\<rparr>)
      | None \<Rightarrow>
          (case push_front \<lparr>ce_key = key, ce_value = value, ce_expiresAt = ex\<rparr> (evict_back c) of
             (el, c2) \<Rightarrow> c2\<lparr>items := (items c2)(key := Some el)\<rparr>))"

definition Set :: "string \<Rightarrow> rows \<Rightarrow> int \<Rightarrow> Cache \<Rightarrow> ('s, 'm) env_scheme \<Rightarrow> Cache \<times> ('s, 'm) env_scheme" where
  "Set key value ttl c w =
     (if ttl \<le> 0 then (c, w)
      else (case rand_float w of (u, w1) \<Rightarrow>
           (case time_now w1 of (now, w2) \<Rightarrow> (Set_at key value (now + effectiveTTL ttl u) c, w2))))"

definition Len :: "Cache \<Rightarrow> nat" where
  "Len c = length (lru c)"

subsection \<open>The map and the list agree\<close>

definition cache_inv :: "Cache \<Rightarrow> bool" where
  "cache_inv c \<longleftrightarrow>
     distinct (lru c)
     \<and> (\<forall>el \<in> set (lru c). \<exists>e. elems c el = Some e \<and> items c (ce_key e) = Some el)
     \<and> (\<forall>k el. items c k = Some el \<longrightarrow> el \<in> set (lru c) \<and> (\<exists>e. elems c el = Some e \<and> ce_key e = k))
     \<and> (\<forall>el. elems c el \<noteq> None \<longrightarrow> el < next_elem c)
     \<and> 1 \<le> maxEntries c \<and> int (length (lru c)) \<le> maxEntries c"

lemma cache_inv_New [simp, inv_intros]: "cache_inv (NewCache n)"
  by (simp add: cache_inv_def NewCache_def defaultMaxEntries_def)

lemma cache_inv_item:
  "cache_inv c \<Longrightarrow> items c k = Some el \<Longrightarrow> \<exists>e. elems c el = Some e \<and> ce_key e = k \<and> el \<in> set (lru c)"
  by (auto simp: cache_inv_def)

lemma cache_inv_elem:
  "cache_inv c \<Longrightarrow> el \<in> set (lru c) \<Longrightarrow> \<exists>e. elems c el = Some e \<and> items c (ce_key e) = Some el"
  by (auto simp: cache_inv_def)

lemma cache_invI:
  assumes "distinct (lru c)"
    and "\<And>el. el \<in> set (lru c) \<Longrightarrow> \<exists>e. elems c el = Some e \<and> items c (ce_key e) = Some el"
    and "\<And>k el. items c k = Some el \<Longrightarrow> el \<in> set (lru c) \<and> (\<exists>e. elems c el = Some e \<and> ce_key e = k)"
    and "\<And>el e. elems c el = Some e \<Longrightarrow> el < next_elem c"
    and "1 \<le> maxEntries c" "int (length (lru c)) \<le> maxEntries c"
  shows "cache_inv c"
  using assms by (auto simp: cache_inv_def)

lemma cache_inv_distinct: "cache_inv c \<Longrightarrow> distinct (lru c)"
  by (simp add: cache_inv_def)

lemma cache_inv_fresh: "cache_inv c \<Longrightarrow> elems c el = Some e \<Longrightarrow> el < next_elem c"
  by (auto simp: cache_inv_def)

lemma cache_inv_max: "cache_inv c \<Longrightarrow> 1 \<le> maxEntries c \<and> int (length (lru c)) \<le> maxEntries c"
  by (auto simp: cache_inv_def)

lemma cache_inv_move:
  assumes inv: "cache_inv c" and el: "el \<in> set (lru c)"
  shows "cache_inv (move_to_front el c)"
proof -
  have "length (el # remove1 el (lru c)) = length (lru c)"
    using el by (metis One_nat_def Suc_pred length_Cons length_pos_if_in_set length_remove1)
  with inv el show ?thesis
    by (simp add: cache_inv_def move_to_front_def set_remove1_eq insert_absorb)
qed

definition drop_elem :: "string \<Rightarrow> nat \<Rightarrow> Cache \<Rightarrow> Cache" where
  "drop_elem k el c = c\<lparr>lru := remove1 el (lru c), items := (items c)(k := None)\<rparr>"

lemma cache_inv_drop:
  assumes inv: "cache_inv c" and k: "items c k = Some el"
  shows "cache_inv (drop_elem k el c)"
proof (rule cache_invI)
  have len: "length (remove1 el (lru c)) \<le> length (lru c)" by (simp add: length_remove1)
  note d = cache_inv_distinct [OF inv]
  show "distinct (lru (drop_elem k el c))" using d by (simp add: drop_elem_def)
  show "1 \<le> maxEntries (drop_elem k el c)"
    "int (length (lru (drop_elem k el c))) \<le> maxEntries (drop_elem k el c)"
    using cache_inv_max [OF inv] len by (auto simp: drop_elem_def)
  show "elems (drop_elem k el c) x = Some e \<Longrightarrow> x < next_elem (drop_elem k el c)" for x e
    using cache_inv_fresh [OF inv] by (simp add: drop_elem_def)
  from cache_inv_item [OF inv k] obtain e0 where e0: "elems c el = Some e0" "ce_key e0 = k" by blast
  fix x
  show "\<exists>e. elems (drop_elem k el c) x = Some e \<and> items (drop_elem k el c) (ce_key e) = Some x"
    if "x \<in> set (lru (drop_elem k el c))"
  proof -
    from that d have x: "x \<in> set (lru c)" "x \<noteq> el" by (auto simp: drop_elem_def)
    from cache_inv_elem [OF inv x(1)] obtain e where "elems c x = Some e" "items c (ce_key e) = Some x"
      by blast
    with k x(2) show ?thesis by (auto simp: drop_elem_def)
  qed
  show "x \<in> set (lru (drop_elem k el c)) \<and> (\<exists>e. elems (drop_elem k el c) x = Some e \<and> ce_key e = k')"
    if "items (drop_elem k el c) k' = Some x" for k'
  proof -
    from that have k': "k' \<noteq> k" "items c k' = Some x" by (auto simp: drop_elem_def split: if_splits)
    from cache_inv_item [OF inv k'(2)] obtain e
      where "elems c x = Some e" "ce_key e = k'" "x \<in> set (lru c)" by blast
    moreover from this e0 k'(1) have "x \<noteq> el" by auto
    ultimately show ?thesis using d by (auto simp: drop_elem_def)
  qed
qed

lemma cache_inv_push:
  assumes inv: "cache_inv c" and k: "items c key = None" and room: "int (length (lru c)) < maxEntries c"
  shows "cache_inv (c\<lparr>lru := next_elem c # lru c,
      elems := (elems c)(next_elem c := Some \<lparr>ce_key = key, ce_value = v, ce_expiresAt = ex\<rparr>),
      next_elem := Suc (next_elem c), items := (items c)(key := Some (next_elem c))\<rparr>)"
    (is "cache_inv ?c")
proof (rule cache_invI)
  have new: "elems c (next_elem c) = None"
    using cache_inv_fresh [OF inv] by (metis less_irrefl option.exhaust)
  have notin: "next_elem c \<notin> set (lru c)"
    using cache_inv_elem [OF inv] new by fastforce
  show "distinct (lru ?c)" using cache_inv_distinct [OF inv] notin by simp
  show "1 \<le> maxEntries ?c" "int (length (lru ?c)) \<le> maxEntries ?c"
    using cache_inv_max [OF inv] room by auto
  show "elems ?c x = Some e \<Longrightarrow> x < next_elem ?c" for x e
    using cache_inv_fresh [OF inv, of x] by (auto split: if_splits intro: less_SucI)
  show "\<exists>e. elems ?c x = Some e \<and> items ?c (ce_key e) = Some x" if "x \<in> set (lru ?c)" for x
  proof (cases "x = next_elem c")
    case False
    with that obtain e where "elems c x = Some e" "items c (ce_key e) = Some x"
      using cache_inv_elem [OF inv, of x] by auto
    with False k show ?thesis by auto
  qed simp
  show "x \<in> set (lru ?c) \<and> (\<exists>e. elems ?c x = Some e \<and> ce_key e = k')" if "items ?c k' = Some x" for k' x
  proof (cases "k' = key")
    case False
    with that have "items c k' = Some x" by simp
    from cache_inv_item [OF inv this] notin show ?thesis by auto
  qed (use that in auto)
qed

lemma butlast_remove1: "distinct xs \<Longrightarrow> xs \<noteq> [] \<Longrightarrow> butlast xs = remove1 (last xs) xs"
  by (metis append_butlast_last_id append_Nil2 distinct_butlast distinct_remove1_removeAll
      not_distinct_conv_prefix remove1.simps(2) remove1_append snoc_eq_iff_butlast)

lemma cache_inv_Get_at [inv_intros]:
  assumes inv: "cache_inv c"
  shows "cache_inv (snd (Get_at now key c))"
proof (cases "items c key")
  case (Some el)
  from cache_inv_item [OF inv Some] obtain e
    where e: "elems c el = Some e" "ce_key e = key" "el \<in> set (lru c)" by blast
  with Some cache_inv_drop [OF inv Some] cache_inv_move [OF inv e(3)] show ?thesis
    by (auto simp: Get_at_def drop_elem_def)
qed (simp add: Get_at_def inv)

lemma evict_back_drop:
  assumes inv: "cache_inv c" and full: "int (length (lru c)) \<ge> maxEntries c"
  shows "\<exists>k. items c k = Some (last (lru c)) \<and> evict_back c = drop_elem k (last (lru c)) c \<and> lru c \<noteq> []"
proof -
  from cache_inv_max [OF inv] full have ne: "lru c \<noteq> []" by auto
  then have "last (lru c) \<in> set (lru c)" by simp
  from cache_inv_elem [OF inv this] obtain e
    where e: "elems c (last (lru c)) = Some e" "items c (ce_key e) = Some (last (lru c))" by blast
  have "evict_back c = drop_elem (ce_key e) (last (lru c)) c"
    using e ne full butlast_remove1 [OF cache_inv_distinct [OF inv] ne]
    by (simp add: evict_back_def drop_elem_def Let_def)
  with e(2) ne show ?thesis by blast
qed

lemma evict_back_inv:
  assumes inv: "cache_inv c"
  shows "cache_inv (evict_back c)" "int (length (lru (evict_back c))) < maxEntries (evict_back c)"
    "items c key = None \<Longrightarrow> items (evict_back c) key = None"
    "items (evict_back c) k = items c k \<or> items (evict_back c) k = None"
    "elems (evict_back c) = elems c"
    "maxEntries (evict_back c) = maxEntries c"
proof -
  consider "int (length (lru c)) < maxEntries c" | "int (length (lru c)) \<ge> maxEntries c" by linarith
  then have "cache_inv (evict_back c) \<and> int (length (lru (evict_back c))) < maxEntries (evict_back c)
      \<and> (items c key = None \<longrightarrow> items (evict_back c) key = None)
      \<and> (items (evict_back c) k = items c k \<or> items (evict_back c) k = None)
      \<and> elems (evict_back c) = elems c \<and> maxEntries (evict_back c) = maxEntries c"
  proof cases
    case 1
    then have "evict_back c = c" by (simp add: evict_back_def)
    with 1 inv show ?thesis by simp
  next
    case 2
    from evict_back_drop [OF inv 2] obtain k' where k': "items c k' = Some (last (lru c))"
      "evict_back c = drop_elem k' (last (lru c)) c" "lru c \<noteq> []" by blast
    have "length (remove1 (last (lru c)) (lru c)) < length (lru c)"
      using k'(3) by (simp add: length_remove1)
    then show ?thesis
      using cache_inv_drop [OF inv k'(1)] k' cache_inv_max [OF inv] by (auto simp: drop_elem_def)
  qed
  then show "cache_inv (evict_back c)" "int (length (lru (evict_back c))) < maxEntries (evict_back c)"
    "items c key = None \<Longrightarrow> items (evict_back c) key = None"
    "items (evict_back c) k = items c k \<or> items (evict_back c) k = None"
    "elems (evict_back c) = elems c" "maxEntries (evict_back c) = maxEntries c"
    by auto
qed

lemma cache_inv_update:
  assumes inv: "cache_inv c" and e: "elems c el = Some e"
  shows "cache_inv (c\<lparr>elems := (elems c)(el := Some (e\<lparr>ce_value := v, ce_expiresAt := ex\<rparr>))\<rparr>)"
    (is "cache_inv ?c")
proof (rule cache_invI)
  show "distinct (lru ?c)" "1 \<le> maxEntries ?c" "int (length (lru ?c)) \<le> maxEntries ?c"
    using cache_inv_distinct [OF inv] cache_inv_max [OF inv] by auto
  show "elems ?c x = Some f \<Longrightarrow> x < next_elem ?c" for x f
    using cache_inv_fresh [OF inv] e by (auto split: if_splits)
  show "\<exists>f. elems ?c x = Some f \<and> items ?c (ce_key f) = Some x" if "x \<in> set (lru ?c)" for x
    using cache_inv_elem [OF inv, of x] that e by auto
  show "x \<in> set (lru ?c) \<and> (\<exists>f. elems ?c x = Some f \<and> ce_key f = k)" if "items ?c k = Some x" for k x
    using cache_inv_item [OF inv, of k x] that e by auto
qed

lemma cache_inv_Set_at [inv_intros]:
  assumes inv: "cache_inv c"
  shows "cache_inv (Set_at key v ex c)"
proof (cases "items c key")
  case None
  from cache_inv_push [OF evict_back_inv(1) [OF inv] evict_back_inv(3) [OF inv None] evict_back_inv(2) [OF inv]]
  show ?thesis using None by (simp add: Set_at_def push_front_def Let_def)
next
  case (Some el)
  from cache_inv_item [OF inv Some] obtain e
    where e: "elems c el = Some e" "el \<in> set (lru c)" by blast
  from e(1) have "elems (move_to_front el c) el = Some e" by (simp add: move_to_front_def)
  from cache_inv_update [OF cache_inv_move [OF inv e(2)] this, where v = v and ex = ex] e(1)
  show ?thesis using Some by (simp add: Set_at_def Let_def move_to_front_def)
qed

end
