(* ===== verification/Lookup_Cache_Spec.thy ===== *)
theory Lookup_Cache_Spec
  imports Lookup_Cache
begin

section \<open>What the cache promises\<close>

text \<open>
  Two specifications of the cache. The first is the order of the entries: the pointer structure
  implements a list of entries, most recently used in front, on which \<open>Get\<close> and \<open>Set\<close> are two
  list functions. The second is the contract a client uses, the locale \<open>ttl_cache\<close>: what a
  lookup finds after an insert, and that nothing is found that was not inserted or has expired.
\<close>

subsection \<open>Refinement: the list of entries\<close>

definition entries :: "Cache \<Rightarrow> cacheEntry list" where
  "entries c = map (\<lambda>el. the (elems c el)) (lru c)"

definition without :: "string \<Rightarrow> cacheEntry list \<Rightarrow> cacheEntry list" where
  "without k xs = filter (\<lambda>e. ce_key e \<noteq> k) xs"

definition spec_get :: "int \<Rightarrow> string \<Rightarrow> cacheEntry list \<Rightarrow> rows option \<times> cacheEntry list" where
  "spec_get now k xs =
     (case find (\<lambda>e. ce_key e = k) xs of
        None \<Rightarrow> (None, xs)
      | Some e \<Rightarrow> if now > ce_expiresAt e then (None, without k xs)
                  else (Some (ce_value e), e # without k xs))"

definition spec_set :: "nat \<Rightarrow> string \<Rightarrow> rows \<Rightarrow> int \<Rightarrow> cacheEntry list \<Rightarrow> cacheEntry list" where
  "spec_set n k v ex xs =
     (let e = \<lparr>ce_key = k, ce_value = v, ce_expiresAt = ex\<rparr> in
      if list_ex (\<lambda>x. ce_key x = k) xs then e # without k xs
      else e # (if n \<le> length xs then butlast xs else xs))"

lemma elem_key_iff:
  assumes inv: "cache_inv c" and k: "items c k = Some el" and x: "x \<in> set (lru c)"
  shows "ce_key (the (elems c x)) = k \<longleftrightarrow> x = el"
proof -
  from cache_inv_elem [OF inv x] obtain e where "elems c x = Some e" "items c (ce_key e) = Some x" by blast
  moreover from cache_inv_item [OF inv k] obtain f where "elems c el = Some f" "ce_key f = k" by blast
  ultimately show ?thesis using k by auto
qed

lemma entries_without:
  assumes inv: "cache_inv c" and k: "items c k = Some el"
  shows "map (\<lambda>x. the (elems c x)) (remove1 el (lru c)) = without k (entries c)"
proof -
  have "remove1 el (lru c) = filter (\<lambda>x. x \<noteq> el) (lru c)"
    using cache_inv_distinct [OF inv] by (auto simp: distinct_remove1_removeAll removeAll_filter_not_eq intro!: filter_cong)
  also have "\<dots> = filter (\<lambda>x. ce_key (the (elems c x)) \<noteq> k) (lru c)"
    using elem_key_iff [OF inv k] by (intro filter_cong) auto
  finally show ?thesis by (simp add: without_def entries_def filter_map comp_def)
qed

lemma find_entries:
  assumes inv: "cache_inv c"
  shows "find (\<lambda>e. ce_key e = k) (entries c) = (case items c k of None \<Rightarrow> None | Some el \<Rightarrow> elems c el)"
proof (cases "items c k")
  case None
  have "ce_key e \<noteq> k" if "e \<in> set (entries c)" for e
    using that cache_inv_elem [OF inv] None by (fastforce simp: entries_def)
  with None show ?thesis by (simp add: find_None_iff)
next
  case (Some el)
  from cache_inv_item [OF inv Some] obtain e
    where e: "elems c el = Some e" "ce_key e = k" "el \<in> set (lru c)" by blast
  have uniq: "f = e" if "f \<in> set (entries c)" "ce_key f = k" for f
  proof -
    from that(1) obtain x where x: "x \<in> set (lru c)" "f = the (elems c x)" by (auto simp: entries_def)
    with that(2) elem_key_iff [OF inv Some x(1)] e(1) show ?thesis by simp
  qed
  have "e \<in> set (entries c)" using e by (force simp: entries_def)
  with e uniq have "find (\<lambda>e. ce_key e = k) (entries c) = Some e"
    by (metis (mono_tags, lifting) find_None_iff find_Some_iff nth_mem option.exhaust)
  with Some e show ?thesis by simp
qed

lemma entries_ex:
  "cache_inv c \<Longrightarrow> list_ex (\<lambda>x. ce_key x = k) (entries c) \<longleftrightarrow> items c k \<noteq> None"
proof -
  assume inv: "cache_inv c"
  have "list_ex (\<lambda>x. ce_key x = k) (entries c) \<longleftrightarrow> find (\<lambda>e. ce_key e = k) (entries c) \<noteq> None"
    by (auto simp: list_ex_iff find_None_iff simp del: not_None_eq)
  also have "\<dots> \<longleftrightarrow> items c k \<noteq> None"
    using find_entries [OF inv, of k] cache_inv_item [OF inv, of k] by (auto split: option.splits)
  finally show ?thesis .
qed

lemma get_refines_list_step:
  assumes inv: "cache_inv c"
  shows "fst (Get_at now k c) = fst (spec_get now k (entries c))
    \<and> entries (snd (Get_at now k c)) = snd (spec_get now k (entries c))"
proof (cases "items c k")
  case None
  with find_entries [OF inv, of k] show ?thesis by (simp add: Get_at_def spec_get_def)
next
  case (Some el)
  from cache_inv_item [OF inv Some] obtain e
    where e: "elems c el = Some e" "ce_key e = k" "el \<in> set (lru c)" by blast
  with Some find_entries [OF inv, of k] entries_without [OF inv Some] show ?thesis
    by (auto simp: Get_at_def spec_get_def entries_def move_to_front_def)
qed

text \<open>
  C21. The map-and-pointer cache implements the list of entries: the result of a \<open>Get\<close> and the
  order of the entries after it are those of the list specification.
\<close>

theorem get_refines_list:
  assumes inv: "cache_inv c"
  shows "fst (Get_at now k c) = fst (spec_get now k (entries c))
    \<and> entries (snd (Get_at now k c)) = snd (spec_get now k (entries c))"
  using get_refines_list_step [OF inv] .

lemma set_refines_list_step:
  assumes inv: "cache_inv c"
  shows "entries (Set_at k v ex c) = spec_set (nat (maxEntries c)) k v ex (entries c)"
proof (cases "items c k")
  case (Some el)
  from cache_inv_item [OF inv Some] obtain e
    where e: "elems c el = Some e" "ce_key e = k" "el \<in> set (lru c)" by blast
  have "map (\<lambda>x. the (if x = el then y else elems c x)) (remove1 el (lru c))
      = map (\<lambda>x. the (elems c x)) (remove1 el (lru c))" for y
    using cache_inv_distinct [OF inv] by (intro map_cong) auto
  with Some e entries_without [OF inv Some] entries_ex [OF inv, of k] show ?thesis
    by (simp add: Set_at_def spec_set_def entries_def move_to_front_def Let_def)
next
  case None
  have "entries (evict_back c) = (if nat (maxEntries c) \<le> length (entries c) then butlast (entries c) else entries c)"
    using cache_inv_max [OF inv]
    by (auto simp: evict_back_def entries_def Let_def map_butlast nat_le_iff split: option.splits)
  moreover have "next_elem (evict_back c) \<notin> set (lru (evict_back c))"
    using cache_inv_elem [OF evict_back_inv(1) [OF inv]] cache_inv_fresh [OF evict_back_inv(1) [OF inv]]
    by fastforce
  then have "map (\<lambda>x. the (if x = next_elem (evict_back c) then y else elems (evict_back c) x)) (lru (evict_back c))
      = entries (evict_back c)" for y
    unfolding entries_def by (intro map_cong) auto
  ultimately show ?thesis using None entries_ex [OF inv, of k]
    by (simp add: Set_at_def spec_set_def push_front_def entries_def Let_def)
qed

text \<open>C22. A \<open>Set\<close> moves or adds its entry to the front and evicts the last entry of a full cache.\<close>

theorem set_refines_list:
  assumes inv: "cache_inv c"
  shows "entries (Set_at k v ex c) = spec_set (nat (maxEntries c)) k v ex (entries c)"
  using set_refines_list_step [OF inv] .

text \<open>A cache of two entries in use, for the witnesses.\<close>

definition demo_rows :: "string \<Rightarrow> rows" where
  "demo_rows s = [[(''email'', VStr s)]]"

definition demo_cache :: Cache where
  "demo_cache = Set_at ''b'' (demo_rows ''B'') 20 (Set_at ''a'' (demo_rows ''A'') 10 (NewCache 2))"

lemma demo_cache_inv: "cache_inv demo_cache"
  by (simp add: demo_cache_def inv_intros)

theorem get_refines_list_witness:
  "fst (Get_at 5 ''a'' demo_cache) = Some (demo_rows ''A'')
   \<and> map ce_key (entries (snd (Get_at 5 ''a'' demo_cache))) = [''a'', ''b'']"
proof -
  have "spec_get 5 ''a'' (entries demo_cache)
      = (Some (demo_rows ''A''), [\<lparr>ce_key = ''a'', ce_value = demo_rows ''A'', ce_expiresAt = 10\<rparr>,
          \<lparr>ce_key = ''b'', ce_value = demo_rows ''B'', ce_expiresAt = 20\<rparr>])"
    by code_simp
  with get_refines_list [OF demo_cache_inv, of 5 "''a''"] show ?thesis by simp
qed

theorem set_refines_list_witness:
  "map ce_key (entries (Set_at ''c'' (demo_rows ''C'') 30 demo_cache)) = [''c'', ''b'']"
proof -
  have "map ce_key (spec_set (nat (maxEntries demo_cache)) ''c'' (demo_rows ''C'') 30 (entries demo_cache))
      = [''c'', ''b'']"
    by code_simp
  with set_refines_list [OF demo_cache_inv, of "''c''" "demo_rows ''C''" 30] show ?thesis by simp
qed

subsection \<open>The contract of a cache with expiry\<close>

locale ttl_cache =
  fixes get :: "int \<Rightarrow> string \<Rightarrow> 'c \<Rightarrow> rows option \<times> 'c"
    and put :: "string \<Rightarrow> rows \<Rightarrow> int \<Rightarrow> 'c \<Rightarrow> 'c"
    and content :: "'c \<Rightarrow> string \<Rightarrow> (rows \<times> int) option"
    and ok :: "'c \<Rightarrow> bool"
  assumes ok_get: "ok c \<Longrightarrow> ok (snd (get now k c))"
    and ok_put: "ok c \<Longrightarrow> ok (put k v ex c)"
    and get_live: "ok c \<Longrightarrow> content c k = Some (v, ex) \<Longrightarrow> now \<le> ex \<Longrightarrow>
      fst (get now k c) = Some v \<and> content (snd (get now k c)) = content c"
    and get_dead: "ok c \<Longrightarrow> \<not> (\<exists>v ex. content c k = Some (v, ex) \<and> now \<le> ex) \<Longrightarrow>
      fst (get now k c) = None \<and> content (snd (get now k c)) = (content c)(k := None)"
    and put_same: "ok c \<Longrightarrow> content (put k v ex c) k = Some (v, ex)"
    and put_other: "ok c \<Longrightarrow> k' \<noteq> k \<Longrightarrow> content (put k v ex c) k' \<in> {content c k', None}"
begin

lemma get_after_put: "ok c \<Longrightarrow> now \<le> ex \<Longrightarrow> fst (get now k (put k v ex c)) = Some v"
  using get_live [OF ok_put put_same] by blast

lemma get_shrinks: "ok c \<Longrightarrow> content (snd (get now k c)) k' \<in> {content c k', None}"
  using get_live [of c k] get_dead [of c k now] by (cases "\<exists>v ex. content c k = Some (v, ex) \<and> now \<le> ex") auto

lemma get_SomeD: "ok c \<Longrightarrow> fst (get now k c) = Some v \<Longrightarrow> \<exists>ex. content c k = Some (v, ex) \<and> now \<le> ex"
  using get_live [of c k] get_dead [of c k now] by (cases "\<exists>v ex. content c k = Some (v, ex) \<and> now \<le> ex") auto

text \<open>A property of every key and value kept is kept by both operations.\<close>

lemma content_invariant:
  assumes "ok c" and all: "\<And>k v ex. content c k = Some (v, ex) \<Longrightarrow> P k v ex"
  shows "content (snd (get now k c)) k' = Some (v', ex') \<Longrightarrow> P k' v' ex'"
    and "P k v ex \<Longrightarrow> content (put k v ex c) k' = Some (v', ex') \<Longrightarrow> P k' v' ex'"
proof -
  show "content (snd (get now k c)) k' = Some (v', ex') \<Longrightarrow> P k' v' ex'"
    using get_shrinks [OF assms(1), of now k k'] all by auto
  show "P k v ex \<Longrightarrow> content (put k v ex c) k' = Some (v', ex') \<Longrightarrow> P k' v' ex'"
    using put_same [OF assms(1), of k v ex] put_other [OF assms(1), of k' k v ex] all by (cases "k' = k") auto
qed

end

definition content :: "Cache \<Rightarrow> string \<Rightarrow> (rows \<times> int) option" where
  "content c k =
     (case items c k of
        None \<Rightarrow> None
      | Some el \<Rightarrow> map_option (\<lambda>e. (ce_value e, ce_expiresAt e)) (elems c el))"

lemma content_Get_at:
  assumes inv: "cache_inv c"
  shows "content c k = Some (v, ex) \<Longrightarrow> now \<le> ex \<Longrightarrow>
      fst (Get_at now k c) = Some v \<and> content (snd (Get_at now k c)) = content c"
    and "\<not> (\<exists>v ex. content c k = Some (v, ex) \<and> now \<le> ex) \<Longrightarrow>
      fst (Get_at now k c) = None \<and> content (snd (Get_at now k c)) = (content c)(k := None)"
  using cache_inv_item [OF inv, of k]
  by (auto simp: content_def Get_at_def move_to_front_def fun_eq_iff split: option.splits if_splits)

lemma content_Set_at:
  assumes inv: "cache_inv c"
  shows "content (Set_at k v ex c) k = Some (v, ex)"
    and "k' \<noteq> k \<Longrightarrow> content (Set_at k v ex c) k' \<in> {content c k', None}"
proof -
  show "content (Set_at k v ex c) k = Some (v, ex)"
    using cache_inv_item [OF inv, of k]
    by (auto simp: content_def Set_at_def move_to_front_def push_front_def Let_def split: option.splits)
  assume k': "k' \<noteq> k"
  show "content (Set_at k v ex c) k' \<in> {content c k', None}"
  proof (cases "items c k")
    case (Some el)
    have "items c k' \<noteq> Some el"
      using cache_inv_item [OF inv Some] cache_inv_item [OF inv, of k' el] k' by auto
    with Some k' show ?thesis
      by (auto simp: content_def Set_at_def move_to_front_def Let_def split: option.splits)
  next
    case None
    note ev = evict_back_inv [OF inv]
    have "items (evict_back c) k' \<noteq> Some (next_elem (evict_back c))"
      using cache_inv_item [OF ev(1), of k'] cache_inv_fresh [OF ev(1)] by fastforce
    with None k' ev(4) [of k'] ev(5) show ?thesis
      by (auto simp: content_def Set_at_def push_front_def Let_def split: option.splits)
  qed
qed

interpretation lru_cache: ttl_cache Get_at Set_at content cache_inv
  using content_Get_at content_Set_at by unfold_locales (auto simp: inv_intros)

end
