(* ===== verification/Lookup_TTL.thy ===== *)
theory Lookup_TTL
  imports Lookup_Cache_Spec
begin

section \<open>internal/lookup/cache.go: the jittered time to live\<close>

text \<open>
  The rounding errors of the three \<^verbatim>\<open>float64\<close> operations are bounded, so that the time to live
  of an entry is within fifteen percent of the configured one and never falls to zero.
\<close>

lemma jitterFraction_bound: "jitterFraction * 10 ^ 16 \<le> 1500000000000001 \<and> 1 / 10 \<le> jitterFraction"
  by code_simp

lemma draw_factor:
  fixes u :: rat
  assumes "u = of_nat k / 2 ^ 53" "k < 2 ^ 53"
  shows "\<bar>u * 2 - 1\<bar> \<le> 1 \<and> (u * 2 - 1 = 0 \<or> 1 / 2 ^ 53 \<le> \<bar>u * 2 - 1\<bar>)"
proof -
  define n where "n = 2 * int k - 2 ^ 53"
  have x: "u * 2 - 1 = of_int n / 2 ^ 53" by (simp add: n_def assms(1) diff_divide_distrib)
  have "\<bar>n\<bar> \<le> 2 ^ 53" using assms(2) by (simp add: n_def)
  then have "of_int \<bar>n\<bar> \<le> (of_int (2 ^ 53) :: rat)" by (simp only: of_int_le_iff)
  moreover have "n = 0 \<or> 1 \<le> \<bar>n\<bar>" by linarith
  then have "n = 0 \<or> (1 :: rat) \<le> of_int \<bar>n\<bar>" by (metis of_int_1 of_int_le_iff)
  ultimately show ?thesis by (auto simp: x divide_le_eq le_divide_eq)
qed

lemma jitter_bound:
  assumes ttl: "0 < ttl" and u: "u = of_nat k / 2 ^ 53" "k < 2 ^ 53"
  shows "\<bar>jitter ttl u\<bar> * 10 ^ 15 \<le> 150000000000001 * ttl"
proof -
  define e :: rat where "e = 1 + 1 / 2 ^ 53"
  define t where "t = (of_int ttl :: rat)"
  define a where "a = round64 t"
  define b where "b = round64 (a * jitterFraction)"
  define x where "x = u * 2 - 1"
  have t: "1 \<le> t" using ttl by (simp add: t_def)
  then have "t = 0 \<or> 1 / 2 ^ 76 \<le> \<bar>t\<bar>" by simp
  note a = round64_scaled [OF this, folded a_def e_def]
  have jf: "jitterFraction \<le> 1500000000000001 / 10 ^ 16" "1 / 10 \<le> jitterFraction"
    using jitterFraction_bound by auto
  have "1 / 2 * (1 / 10) \<le> \<bar>a\<bar> * \<bar>jitterFraction\<bar>"
    by (rule mult_mono) (use a t jf in auto)
  then have aj: "1 / 20 \<le> \<bar>a * jitterFraction\<bar>" by (simp add: abs_mult)
  then have "a * jitterFraction = 0 \<or> 1 / 2 ^ 76 \<le> \<bar>a * jitterFraction\<bar>" by simp
  note b = round64_scaled [OF this, folded b_def e_def]
  note x = draw_factor [OF u, folded x_def]
  have "1 / 40 * (1 / 2 ^ 53) \<le> \<bar>b\<bar> * \<bar>x\<bar>" if "x \<noteq> 0"
    by (rule mult_mono) (use b aj x that in auto)
  then have "b * x = 0 \<or> 1 / 2 ^ 76 \<le> \<bar>b * x\<bar>" by (cases "x = 0") (auto simp: abs_mult)
  note c = round64_scaled [OF this, folded e_def]
  have e: "0 \<le> e" by (simp add: e_def)
  have "\<bar>of_int (jitter ttl u)\<bar> \<le> \<bar>round64 (b * x)\<bar>"
    using trunc_rat_le by (simp add: jitter_def a_def b_def t_def x_def)
  also have "\<dots> \<le> \<bar>b\<bar> * \<bar>x\<bar> * e" using c(1) by (simp add: abs_mult)
  also have "\<dots> \<le> \<bar>b\<bar> * 1 * e" using x e by (intro mult_right_mono mult_left_mono) auto
  also have "\<dots> \<le> \<bar>a * jitterFraction\<bar> * e * e" using b(1) e by (simp add: mult_right_mono)
  also have "\<dots> \<le> (t * e * (1500000000000001 / 10 ^ 16)) * e * e"
    unfolding abs_mult using a(1) jf e t by (intro mult_right_mono mult_mono) auto
  also have "\<dots> = t * (e * e * e * (1500000000000001 / 10 ^ 16))" by simp
  also have "\<dots> \<le> t * (150000000000001 / 10 ^ 15)"
    using t by (intro mult_left_mono) (auto simp: e_def)
  finally have "of_int (\<bar>jitter ttl u\<bar> * 10 ^ 15) \<le> (of_int (150000000000001 * ttl) :: rat)"
    by (simp add: t_def field_simps)
  then show ?thesis by (simp only: of_int_le_iff)
qed

text \<open>C36. Jitter keeps the time to live within 15% of the configured one, up to the rounding of
  \<^verbatim>\<open>float64\<close>: for every draw of \<^verbatim>\<open>rand.Float64\<close> (a multiple of \<open>2 ^ -53\<close> below one) and every
  positive duration up to 146 years the sum does not overflow, stays positive, so that the fallback to
  the plain duration is never taken, and differs from it by at most 0.150000000000001 of it.\<close>

theorem effective_ttl_bounds:
  assumes "0 < ttl" "ttl \<le> 2 ^ 62" "u = of_nat k / 2 ^ 53" "k < 2 ^ 53"
  shows "effectiveTTL ttl u = ttl + jitter ttl u \<and> 0 < effectiveTTL ttl u
    \<and> \<bar>effectiveTTL ttl u - ttl\<bar> * 10 ^ 15 \<le> 150000000000001 * ttl"
proof -
  note b = jitter_bound [OF assms(1,3,4)]
  have "fits64 (ttl + jitter ttl u)" "0 < ttl + jitter ttl u"
    using b assms(1,2) unfolding fits64_def by auto
  then show ?thesis using b by (auto simp: effectiveTTL_def)
qed

text \<open>At five minutes and the draw 1/4 the entry lives 277.5 seconds.\<close>

theorem effective_ttl_bounds_witness:
  "effectiveTTL 300000000000 (1 / 4) = 277500000000
   \<and> \<bar>effectiveTTL 300000000000 (1 / 4) - 300000000000\<bar> * 10 ^ 15 \<le> 150000000000001 * 300000000000"
proof -
  have "jitter 300000000000 (1 / 4) = -22500000000" by code_simp
  with effective_ttl_bounds [of 300000000000 "1 / 4" "2 ^ 51"] show ?thesis by simp
qed

end
