(* ===== verification/Services.thy ===== *)
theory Services
  imports Environment Config
begin

section \<open>internal/services: the authenticated HTTP clients\<close>

text \<open>
  The client of the internal service, with its static token, the gateway client, whose token is
  obtained by a login and cached until it nears its expiry, and the construction of both from an
  instance's configuration. The two mutable fields of the gateway client are \<open>gw_state\<close>; its
  mutex makes \<open>getToken\<close> one step.
\<close>

subsection \<open>Requests\<close>

definition join_url :: "string \<Rightarrow> string \<Rightarrow> string" where
  "join_url base path = trim_right CHR ''/'' base @ ''/'' @ trim_left CHR ''/'' path"

text \<open>\<^verbatim>\<open>http.NewRequestWithContext\<close> followed by \<^verbatim>\<open>hc.Do\<close>: a status and a body, or an error.\<close>

definition do_request ::
  "string \<Rightarrow> string \<Rightarrow> (string \<times> string) list \<Rightarrow> string \<Rightarrow> ('s, 'm) env_scheme \<Rightarrow>
     (int \<times> string) result \<times> ('s, 'm) env_scheme" where
  "do_request method url headers body w =
     (case url_error w url of
        Some msg \<Rightarrow> (Inl (External msg), w)
      | None \<Rightarrow>
          (case http_send \<lparr>rq_method = method, rq_url = url, rq_headers = headers, rq_body = body\<rparr> w of
             (NoResponse msg, w') \<Rightarrow> (Inl (External msg), w')
           | (Response code b, w') \<Rightarrow> (Inr (code, b), w')))"

record InternalClient =
  ic_baseURL :: string
  ic_token :: string

definition bearer :: "string \<Rightarrow> (string \<times> string) list" where
  "bearer tok = [(''Authorization'', ''Bearer '' @ tok)]"

definition internal_do ::
  "InternalClient \<Rightarrow> string \<Rightarrow> string \<Rightarrow> string \<Rightarrow> ('s, 'm) env_scheme \<Rightarrow>
     (int \<times> string) result \<times> ('s, 'm) env_scheme" where
  "internal_do c method path body w =
     do_request method (join_url (ic_baseURL c) path) (bearer (ic_token c)) body w"

subsection \<open>The expiry claim of a JWT\<close>

text \<open>\<^verbatim>\<open>base64.RawURLEncoding.DecodeString\<close>: line breaks are skipped, padding is refused.\<close>

definition b64_val :: "char \<Rightarrow> int option" where
  "b64_val c =
     (let b = byte c in
      if 65 \<le> b \<and> b \<le> 90 then Some (b - 65)
      else if 97 \<le> b \<and> b \<le> 122 then Some (b - 71)
      else if 48 \<le> b \<and> b \<le> 57 then Some (b + 4)
      else if c = CHR ''-'' then Some 62
      else if c = CHR ''_'' then Some 63
      else None)"

fun b64_quanta :: "int list \<Rightarrow> string option" where
  "b64_quanta [] = Some []"
| "b64_quanta [a] = None"
| "b64_quanta [a, b] = Some [char_of (a * 4 + b div 16)]"
| "b64_quanta [a, b, c] = Some [char_of (a * 4 + b div 16), char_of (b mod 16 * 16 + c div 4)]"
| "b64_quanta (a # b # c # d # r) =
     map_option (\<lambda>t. [char_of (a * 4 + b div 16), char_of (b mod 16 * 16 + c div 4),
                      char_of (c mod 4 * 64 + d)] @ t) (b64_quanta r)"

definition b64_decode :: "string \<Rightarrow> string option" where
  "b64_decode s =
     (case those (map b64_val (filter (\<lambda>c. c \<noteq> CHR 0x0A \<and> c \<noteq> CHR 0x0D) s)) of
        None \<Rightarrow> None
      | Some vs \<Rightarrow> b64_quanta vs)"

text \<open>
  The key comparison of \<^verbatim>\<open>encoding/json\<close> for struct fields ignores case; of the characters
  outside ASCII only the long s and the Kelvin sign fold to a letter.
\<close>

fun fold_name :: "string \<Rightarrow> string" where
  "fold_name (a # b # c # s) =
     (if a = CHR 0xC5 \<and> b = CHR 0xBF then CHR ''S'' # fold_name (c # s)
      else if a = CHR 0xE2 \<and> b = CHR 0x84 \<and> c = CHR 0xAA then CHR ''K'' # fold_name s
      else (if 97 \<le> byte a \<and> byte a \<le> 122 then char_of (byte a - 32) else a) # fold_name (b # c # s))"
| "fold_name [a, b] =
     (if a = CHR 0xC5 \<and> b = CHR 0xBF then ''S''
      else (if 97 \<le> byte a \<and> byte a \<le> 122 then char_of (byte a - 32) else a) # fold_name [b])"
| "fold_name [a] = [if 97 \<le> byte a \<and> byte a \<le> 122 then char_of (byte a - 32) else a]"
| "fold_name [] = []"

text \<open>
  Decoding an object into a struct with one field: members of other names are skipped, the last
  matching one wins, and a member of the wrong type makes the whole decoding an error.
\<close>

fun decode_field :: "string \<Rightarrow> ('a \<Rightarrow> json \<Rightarrow> 'a option) \<Rightarrow> 'a \<Rightarrow> json \<Rightarrow> 'a option" where
  "decode_field name upd x JNull = Some x"
| "decode_field name upd x (JObj ms) =
     foldl (\<lambda>acc (k, j). if fold_name k = name
              then (case acc of None \<Rightarrow> None | Some y \<Rightarrow> upd y j) else acc) (Some x) ms"
| "decode_field name upd x _ = None"

fun set_string :: "string \<Rightarrow> json \<Rightarrow> string option" where
  "set_string x (JStr s) = Some s"
| "set_string x JNull = Some x"
| "set_string x _ = None"

fun set_int_ptr :: "int option \<Rightarrow> json \<Rightarrow> int option option" where
  "set_int_ptr x (JNum s) = map_option Some (parse_int64 s)"
| "set_int_ptr x JNull = Some None"
| "set_int_ptr x _ = None"

text \<open>\<^verbatim>\<open>time.Unix(sec, 0)\<close>, in seconds; the internal epoch is year 1 and its sum wraps.\<close>

definition time_unix :: "int \<Rightarrow> int" where
  "time_unix sec = wrap64 (sec + 62135596800) - 62135596800"

definition jwtExpiry :: "string \<Rightarrow> int result" where
  "jwtExpiry token =
     (let parts = split_on CHR ''.'' token in
      if length parts \<noteq> 3 then Inl (Errorf [Lit ''invalid JWT format''])
      else (case b64_decode (parts ! 1) of
          None \<Rightarrow> Inl (Errorf [Lit ''decode JWT payload: '', W (External ''base64'')])
        | Some payload \<Rightarrow>
            (case Option.bind (parse_all payload) (decode_field ''EXP'' set_int_ptr None) of
               None \<Rightarrow> Inl (Errorf [Lit ''parse JWT claims: '', W (External ''json'')])
             | Some None \<Rightarrow> Inl (Errorf [Lit ''JWT missing exp claim''])
             | Some (Some sec) \<Rightarrow> Inr (time_unix sec))))"

subsection \<open>The gateway client\<close>

record GatewayClient =
  gc_baseURL :: string
  gc_authURL :: string
  gc_appInstanceCode :: string
  gc_apiKey :: string

text \<open>The cached token and its expiry in seconds; the zero \<^verbatim>\<open>time.Time\<close> is the year 1.\<close>

record gw_state =
  tok :: string
  expiry :: int

definition gw_init :: gw_state where
  "gw_init = \<lparr>tok = [], expiry = -62135596800\<rparr>"

definition login_body :: "GatewayClient \<Rightarrow> string" where
  "login_body c = render (JObj [(''api_key'', JStr (gc_apiKey c)),
                                (''app_instance_code'', JStr (gc_appInstanceCode c))])"

definition authenticate ::
  "GatewayClient \<Rightarrow> gw_state \<Rightarrow> ('s, 'm) env_scheme \<Rightarrow> error option \<times> gw_state \<times> ('s, 'm) env_scheme" where
  "authenticate c st w =
     (case url_error w (gc_authURL c) of
        Some msg \<Rightarrow> (Some (External msg), st, w)
      | None \<Rightarrow>
     (case http_send \<lparr>rq_method = ''POST'', rq_url = gc_authURL c,
                      rq_headers = [(''Content-Type'', ''application/json'')], rq_body = login_body c\<rparr> w of
        (NoResponse msg, w') \<Rightarrow> (Some (Errorf [Lit ''gateway login: '', W (External msg)]), st, w')
      | (Response code body, w') \<Rightarrow>
          if code < 200 \<or> code \<ge> 300 then (Some (Errorf [Lit ''gateway login returned '', D code]), st, w')
          else (case Option.bind (parse_prefix body) (decode_field ''ACCESS'' set_string []) of
             None \<Rightarrow> (Some (Errorf [Lit ''decode login response: '', W (External ''json'')]), st, w')
           | Some access \<Rightarrow>
               if access = [] then (Some (Errorf [Lit ''gateway login: empty access token'']), st, w')
               else (case jwtExpiry access of
                  Inl e \<Rightarrow> (Some (Errorf [Lit ''gateway login: parse token expiry: '', W e]), st, w')
                | Inr ex \<Rightarrow> (None, \<lparr>tok = access, expiry = ex\<rparr>, w')))))"

definition getToken ::
  "GatewayClient \<Rightarrow> gw_state \<Rightarrow> ('s, 'm) env_scheme \<Rightarrow> string result \<times> gw_state \<times> ('s, 'm) env_scheme" where
  "getToken c st w =
     (let (fresh, w1) =
        (if tok st \<noteq> [] then
           (let (now, w1) = time_now w in (now + 60 * 1000000000 < expiry st * 1000000000, w1))
         else (False, w))
      in if fresh then (Inr (tok st), st, w1)
         else (case authenticate c st w1 of
             (Some e, st', w2) \<Rightarrow> (Inl e, st', w2)
           | (None, st', w2) \<Rightarrow> (Inr (tok st'), st', w2)))"

definition gateway_do ::
  "GatewayClient \<Rightarrow> string \<Rightarrow> string \<Rightarrow> string \<Rightarrow> gw_state \<Rightarrow> ('s, 'm) env_scheme \<Rightarrow>
     (int \<times> string) result \<times> gw_state \<times> ('s, 'm) env_scheme" where
  "gateway_do c method path body st w =
     (case getToken c st w of
        (Inl e, st', w1) \<Rightarrow> (Inl (Errorf [Lit ''gateway: get token: '', W e]), st', w1)
      | (Inr t, st', w1) \<Rightarrow>
          (case do_request method (join_url (gc_baseURL c) path) (bearer t) body w1 of
             (r, w2) \<Rightarrow> (r, st', w2)))"

subsection \<open>Building the services of an instance\<close>

text \<open>The database pool; parsing its DSN and creating it belong to another package.\<close>

record pool =
  pool_dsn :: string
  pool_MaxConns :: int

record pgx =
  pgx_ParseConfig :: "string \<Rightarrow> error option"
  pgx_NewWithConfig :: "string \<Rightarrow> int \<Rightarrow> error option"

record Services =
  Internal :: "InternalClient option"
  Gateway :: "GatewayClient option"
  DB :: "pool option"

definition wrap32 :: "int \<Rightarrow> int" where
  "wrap32 i = (i + 2 ^ 31) mod 2 ^ 32 - 2 ^ 31"

definition New_Services :: "pgx \<Rightarrow> getenv \<Rightarrow> InstanceConfig \<Rightarrow> Services result" where
  "New_Services px env cfg =
     (let sc = ic_Services cfg;
          int = (if isc_URLEnv (svc_Internal sc) \<noteq> [] then
                   Some \<lparr>ic_baseURL = env (isc_URLEnv (svc_Internal sc)),
                         ic_token = env (isc_TokenEnv (svc_Internal sc))\<rparr> else None);
          gw = (if gwc_URLEnv (svc_Gateway sc) \<noteq> [] then
                  (let baseURL = env (gwc_URLEnv (svc_Gateway sc)) in
                   Some \<lparr>gc_baseURL = baseURL,
                         gc_authURL = trim_right CHR ''/'' baseURL @ ''/api/auth/api_login/'',
                         gc_appInstanceCode = env (gwc_AppInstanceCodeEnv (svc_Gateway sc)),
                         gc_apiKey = env (gwc_APIKeyEnv (svc_Gateway sc))\<rparr>) else None)
      in if DSNEnv (svc_DB sc) \<noteq> [] \<and> env (DSNEnv (svc_DB sc)) \<noteq> [] then
           (let dsn = env (DSNEnv (svc_DB sc)) in
            case pgx_ParseConfig px dsn of
              Some e \<Rightarrow> Inl (Errorf [Lit ''services: parse db dsn: '', W e])
            | None \<Rightarrow>
                (let n = wrap32 (MaxConns (svc_DB sc)); maxConns = (if n \<le> 0 then 4 else n) in
                 case pgx_NewWithConfig px dsn maxConns of
                   Some e \<Rightarrow> Inl (Errorf [Lit ''services: create db pool: '', W e])
                 | None \<Rightarrow> Inr \<lparr>Internal = int, Gateway = gw,
                                 DB = Some \<lparr>pool_dsn = dsn, pool_MaxConns = maxConns\<rparr>\<rparr>))
         else Inr \<lparr>Internal = int, Gateway = gw, DB = None\<rparr>)"

end
