(* ===== verification/Go_Time.thy ===== *)
theory Go_Time
  imports Prelude "HOL-Library.Monad_Syntax"
begin

section \<open>time.Time: RFC 3339 text and instants\<close>

text \<open>
  A \<^verbatim>\<open>time.Time\<close> as the program uses it: seconds since the Unix epoch, nanoseconds within the
  second, and the offset of its location. \<open>parse_rfc3339\<close> is \<^verbatim>\<open>time.Parse(time.RFC3339, _)\<close> with
  the liberties Go takes (an hour of one digit, a fraction after the seconds with a point or a
  comma, an offset of up to 24 hours and 60 minutes); \<open>format_rfc3339\<close> is
  \<^verbatim>\<open>UTC().Format(time.RFC3339)\<close> and \<open>marshal_time\<close> is \<^verbatim>\<open>Time.MarshalJSON\<close>.
\<close>

record gotime =
  unix :: int
  nsec :: int
  zone :: int

subsection \<open>The calendar\<close>

definition is_leap :: "int \<Rightarrow> bool" where
  "is_leap y \<longleftrightarrow> y mod 4 = 0 \<and> (y mod 100 \<noteq> 0 \<or> y mod 400 = 0)"

text \<open>Days of the year before each month of a common year, December's end included.\<close>

definition month_starts :: "int list" where
  "month_starts = [0, 31, 59, 90, 120, 151, 181, 212, 243, 273, 304, 334, 365]"

definition month_start :: "bool \<Rightarrow> nat \<Rightarrow> int" where
  "month_start leap k = month_starts ! k + (if leap \<and> 2 \<le> k then 1 else 0)"

definition days_in :: "int \<Rightarrow> int \<Rightarrow> int" where
  "days_in y m = month_start (is_leap y) (nat m) - month_start (is_leap y) (nat (m - 1))"

text \<open>Days from 1 January of the year 1 to 1 January of the year \<open>y\<close>, and to a date.\<close>

definition year_start :: "int \<Rightarrow> int" where
  "year_start y = 365 * (y - 1) + (y - 1) div 4 - (y - 1) div 100 + (y - 1) div 400"

definition unix_day :: "int \<Rightarrow> int \<Rightarrow> int \<Rightarrow> int" where
  "unix_day y m d = year_start y + month_start (is_leap y) (nat (m - 1)) + (d - 1) - 719162"

definition civil_year :: "int \<Rightarrow> int" where
  "civil_year n =
     (let r = n mod 146097; c = min 3 (r div 36524); r1 = r - c * 36524;
          q = r1 div 1461; r2 = r1 mod 1461; a = min 3 (r2 div 365)
      in 400 * (n div 146097) + 100 * c + 4 * q + a + 1)"

definition civil_month :: "bool \<Rightarrow> int \<Rightarrow> nat" where
  "civil_month leap yd = length (takeWhile (\<lambda>k. month_start leap k \<le> yd) [1..<12]) + 1"

definition civil_date :: "int \<Rightarrow> int \<times> int \<times> int" where
  "civil_date n =
     (let y = civil_year n; yd = n - year_start y; m = civil_month (is_leap y) yd
      in (y, int m, yd - month_start (is_leap y) (m - 1) + 1))"

subsection \<open>Parsing\<close>

definition num2 :: "string \<Rightarrow> (int \<times> string) option" where
  "num2 s = (case s of a # b # r \<Rightarrow>
       if is_digit a \<and> is_digit b then Some (digit_val a * 10 + digit_val b, r) else None
     | _ \<Rightarrow> None)"

definition num12 :: "string \<Rightarrow> (int \<times> string) option" where
  "num12 s = (case s of
       [] \<Rightarrow> None
     | a # r \<Rightarrow>
         if \<not> is_digit a then None
         else (case r of
             b # r' \<Rightarrow> if is_digit b then Some (digit_val a * 10 + digit_val b, r') else Some (digit_val a, r)
           | [] \<Rightarrow> Some (digit_val a, r)))"

definition num4 :: "string \<Rightarrow> (int \<times> string) option" where
  "num4 s = do { (h, r) \<leftarrow> num2 s; (l, r') \<leftarrow> num2 r; Some (h * 100 + l, r') }"

definition expect :: "char \<Rightarrow> string \<Rightarrow> string option" where
  "expect c s = (case s of d # r \<Rightarrow> if d = c then Some r else None | [] \<Rightarrow> None)"

definition guard_opt :: "bool \<Rightarrow> unit option" where
  "guard_opt b = (if b then Some () else None)"

text \<open>Nine digits of the fraction count, missing ones are zeros.\<close>

definition frac_nsec :: "string \<Rightarrow> int" where
  "frac_nsec ds =
     (let t = take 9 ds in the (digits_val 0 t) * 10 ^ (9 - length t))"

definition scan_fraction :: "string \<Rightarrow> int \<times> string" where
  "scan_fraction s =
     (case s of
        p # d # r \<Rightarrow>
          if (p = CHR ''.'' \<or> p = CHR '','') \<and> is_digit d
          then (frac_nsec (takeWhile is_digit (d # r)), dropWhile is_digit (d # r))
          else (0, s)
      | _ \<Rightarrow> (0, s))"

definition scan_zone :: "string \<Rightarrow> int option" where
  "scan_zone s =
     (if s = ''Z'' then Some 0
      else (case s of
         [] \<Rightarrow> None
       | sg # r \<Rightarrow> do {
           guard_opt (sg = CHR ''+'' \<or> sg = CHR ''-'');
           (h, r1) \<leftarrow> num2 r; r2 \<leftarrow> expect CHR '':'' r1; (m, r3) \<leftarrow> num2 r2;
           guard_opt (r3 = [] \<and> h \<le> 24 \<and> m \<le> 60);
           let off = (h * 60 + m) * 60;
           Some (if sg = CHR ''-'' then - off else off) }))"

definition parse_rfc3339 :: "string \<Rightarrow> gotime option" where
  "parse_rfc3339 s = do {
     (y, s) \<leftarrow> num4 s; s \<leftarrow> expect CHR ''-'' s;
     (mo, s) \<leftarrow> num2 s; guard_opt (1 \<le> mo \<and> mo \<le> 12); s \<leftarrow> expect CHR ''-'' s;
     (d, s) \<leftarrow> num2 s; s \<leftarrow> expect CHR ''T'' s;
     (h, s) \<leftarrow> num12 s; guard_opt (h < 24); s \<leftarrow> expect CHR '':'' s;
     (mi, s) \<leftarrow> num2 s; guard_opt (mi < 60); s \<leftarrow> expect CHR '':'' s;
     (sec, s) \<leftarrow> num2 s; guard_opt (sec < 60);
     let (ns, s) = scan_fraction s;
     off \<leftarrow> scan_zone s;
     guard_opt (1 \<le> d \<and> d \<le> days_in y mo);
     Some \<lparr>unix = unix_day y mo d * 86400 + h * 3600 + mi * 60 + sec - off, nsec = ns, zone = off\<rparr> }"

subsection \<open>Formatting\<close>

definition pad2 :: "int \<Rightarrow> string" where
  "pad2 n = [char_of (48 + n div 10 mod 10), char_of (48 + n mod 10)]"

definition pad4 :: "int \<Rightarrow> string" where
  "pad4 n = (if n < 0 then CHR ''-'' # (let t = dec_nat (- n) in replicate (4 - length t) CHR ''0'' @ t)
             else (let t = dec_nat n in replicate (4 - length t) CHR ''0'' @ t))"

definition format_civil :: "int \<Rightarrow> string" where
  "format_civil t =
     (let (y, m, d) = civil_date (t div 86400 + 719162); r = t mod 86400
      in pad4 y @ ''-'' @ pad2 m @ ''-'' @ pad2 d @ ''T'' @
         pad2 (r div 3600) @ '':'' @ pad2 (r div 60 mod 60) @ '':'' @ pad2 (r mod 60))"

definition format_rfc3339 :: "gotime \<Rightarrow> string" where
  "format_rfc3339 t = format_civil (unix t) @ ''Z''"

definition format_fraction :: "int \<Rightarrow> string" where
  "format_fraction ns =
     (if ns = 0 then []
      else CHR ''.'' # (let t = dec_nat ns; u = replicate (9 - length t) CHR ''0'' @ t
                        in rev (dropWhile (\<lambda>c. c = CHR ''0'') (rev u))))"

text \<open>
  \<^verbatim>\<open>appendStrictRFC3339\<close>: the time in its own location; an error when the year does not have
  four digits or the offset has 24 hours or more.
\<close>

definition marshal_time :: "gotime \<Rightarrow> string option" where
  "marshal_time t =
     (let l = unix t + zone t; (y, m, d) = civil_date (l div 86400 + 719162);
          z = \<bar>zone t\<bar> div 60
      in if y < 0 \<or> 9999 < y \<or> 24 * 60 \<le> z then None
         else Some (format_civil l @ format_fraction (nsec t) @
                (if zone t = 0 then ''Z''
                 else (if zone t < 0 then ''-'' else ''+'') @ pad2 (z div 60) @ '':'' @ pad2 (z mod 60))))"

lemma parse_rfc3339_examples:
  "parse_rfc3339 ''1970-01-01T00:00:00Z'' = Some \<lparr>unix = 0, nsec = 0, zone = 0\<rparr>"
  "parse_rfc3339 ''2026-06-12T10:00:00.25+02:00'' = Some \<lparr>unix = 1781251200, nsec = 250000000, zone = 7200\<rparr>"
  "parse_rfc3339 ''2026-02-29T10:00:00Z'' = None"
  "format_rfc3339 \<lparr>unix = 1781251200, nsec = 250000000, zone = 7200\<rparr> = ''2026-06-12T08:00:00Z''"
  "marshal_time \<lparr>unix = 1781251200, nsec = 250000000, zone = 7200\<rparr> = Some ''2026-06-12T10:00:00.25+02:00''"
  by code_simp+

end
