(* ===== verification/Dasher.thy ===== *)
theory Dasher
  imports Services Go_Time
begin

section \<open>The package dasher: events, handlers, poison and the error policy\<close>

text \<open>
  The domain types of \<^verbatim>\<open>dasher.go\<close>. A handler takes the state of the world and returns it
  updated, with what the call did: return an error value (\<^term>\<open>None\<close> is nil) or panic.
\<close>

subsection \<open>Events and handlers\<close>

record Event =
  ID :: string
  Op :: string
  Table :: string
  Schema :: string
  LSN :: string
  StreamedAt :: gotime
  Data :: "gomap option"
  Old :: "gomap option"
  Enrichment :: "gomap option"
  Source :: string

record InstanceContext =
  inst_ID :: string
  inst_Config :: InstanceConfig
  inst_Services :: Services

datatype hresult = Returned "error option" | Panicked string

type_synonym 'w handler = "InstanceContext \<Rightarrow> Event \<Rightarrow> 'w \<Rightarrow> hresult \<times> 'w"

definition Noop :: "'w handler" where
  "Noop inst evt w = (Returned None, w)"

subsection \<open>Poison\<close>

definition Poison :: "error option \<Rightarrow> error option" where
  "Poison err = map_option PoisonError err"

fun is_poisonError :: "error \<Rightarrow> bool" where
  "is_poisonError (PoisonError e) = True"
| "is_poisonError _ = False"

definition IsPoison :: "error \<Rightarrow> bool" where
  "IsPoison err = err_any is_poisonError err"

lemma IsPoison_simps [err_simps]:
  "IsPoison (PoisonError e) \<longleftrightarrow> True"
  "IsPoison (Errorf fs) \<longleftrightarrow> list_ex id (map (frag_any is_poisonError) fs)"
  "IsPoison (Sentinel s) \<longleftrightarrow> False"
  "IsPoison (External msg) \<longleftrightarrow> False"
  "IsPoison (LookupErrPoison fs) \<longleftrightarrow> False"
  by (auto simp: IsPoison_def)

lemma err_any_IsPoison [err_simps]: "err_any is_poisonError e = IsPoison e"
  by (simp add: IsPoison_def)

subsection \<open>The policy for fatal errors\<close>

text \<open>
  \<open>on_fatal\<close> is \<^verbatim>\<open>StreamErrorPolicy.OnFatal\<close>: what it returns for the stream and the error,
  \<^term>\<open>None\<close> meaning that the policy dealt with it. The consumer's guarantee that no entry is
  left behind rests on a policy that never does: \<open>fail_loud_policy\<close>.
\<close>

type_synonym policy = "string \<Rightarrow> error \<Rightarrow> error option"

locale fail_loud_policy =
  fixes on_fatal :: policy
  assumes propagates: "on_fatal stream e = Some e"
begin

lemma never_swallows: "on_fatal stream e \<noteq> None"
  by (simp add: propagates)

lemma keeps_poison: "on_fatal stream e = Some e' \<Longrightarrow> IsPoison e' = IsPoison e"
  by (simp add: propagates)

end

definition FailLoud_OnFatal :: policy where
  "FailLoud_OnFatal stream err = Some err"

interpretation fail_loud: fail_loud_policy FailLoud_OnFatal
  by unfold_locales (simp add: FailLoud_OnFatal_def)

end
