(* ===== verification/World.thy ===== *)
theory World
  imports Dasher Lookup_Cache_Spec
begin

section \<open>The state of the process\<close>

text \<open>
  The environment extended with the mutable objects of the program that outlive a call: the
  caches of the lookups (by address, as they are shared between bindings), the token of the
  gateway client, the closed flag of the producer, and the entry the consumer has in flight. Of what
  the program logs, the level and the pause of the consumer's retries are kept.
\<close>

datatype level = LevelWarn | LevelError

instantiation level :: linorder
begin

definition less_eq_level :: "level \<Rightarrow> level \<Rightarrow> bool" where
  "less_eq_level a b \<longleftrightarrow> a = LevelWarn \<or> b = LevelError"

definition less_level :: "level \<Rightarrow> level \<Rightarrow> bool" where
  "less_level a b \<longleftrightarrow> a = LevelWarn \<and> b = LevelError"

instance
proof
  fix a b c :: level
  show "a < b \<longleftrightarrow> a \<le> b \<and> \<not> b \<le> a" by (cases a; cases b) (simp_all add: less_eq_level_def less_level_def)
  show "a \<le> a" by (cases a) (simp_all add: less_eq_level_def)
  show "a \<le> b \<Longrightarrow> b \<le> c \<Longrightarrow> a \<le> c" by (auto simp: less_eq_level_def)
  show "a \<le> b \<Longrightarrow> b \<le> a \<Longrightarrow> a = b" by (auto simp: less_eq_level_def)
  show "a \<le> b \<or> b \<le> a" by (cases a) (simp_all add: less_eq_level_def)
qed

end

record 's world = "'s env" +
  caches :: "nat \<Rightarrow> Cache"
  next_cache :: nat
  gw :: gw_state
  closed :: bool
  inFlight :: "string option"
  retry_log :: "(level \<times> int) list"

text \<open>The clients of the services as calls on the world.\<close>

definition internal_Do ::
  "InternalClient \<Rightarrow> string \<Rightarrow> string \<Rightarrow> string \<Rightarrow> 's world \<Rightarrow> (int \<times> string) result \<times> 's world" where
  "internal_Do c method path body w = internal_do c method path body w"

definition gateway_Do ::
  "GatewayClient \<Rightarrow> string \<Rightarrow> string \<Rightarrow> string \<Rightarrow> 's world \<Rightarrow> (int \<times> string) result \<times> 's world" where
  "gateway_Do c method path body w =
     (case gateway_do c method path body (gw w) w of (r, st', w') \<Rightarrow> (r, w'\<lparr>gw := st'\<rparr>))"

text \<open>
  A world to run the model in: a clock that advances a second at each reading, draws of one half,
  a context that is never done, services that answer 200 and a database without rows.
\<close>

definition world0 :: "'s \<Rightarrow> 's world" where
  "world0 s = \<lparr>srv = s, ticks = (\<lambda>n. 1700000000000000000 + int n * 1000000000), tick_n = 0,
     rands = (\<lambda>_. 1 / 2), rand_n = 0, polls = (\<lambda>_. False), poll_n = 0, url_error = (\<lambda>_. None),
     http_ans = (\<lambda>_. Response 200 []), http_log = [], db_ans = (\<lambda>_. Inr []), db_log = [],
     flops = \<lparr>fl_parse = (\<lambda>_. None), fl_v = (\<lambda>_. ''0''), fl_json = (\<lambda>_. None)\<rparr>,
     caches = (\<lambda>_. NewCache 0), next_cache = 0, gw = gw_init, closed = False, inFlight = None, retry_log = []\<rparr>"

end
