(* ===== verification/Lookup.thy ===== *)
theory Lookup
  imports World
begin

section \<open>internal/lookup: bind resolution, SQL and cached lookups, the runner\<close>

text \<open>
  A lookup object is an SQL lookup or a cache around another lookup; \<open>Resolve\<close> is the method of
  the interface. The registry maps type names to the factories that build lookups, and the runner
  executes the enrich rules of a binding one after the other.
\<close>

subsection \<open>bind.go\<close>

definition ValidColumn :: "string \<Rightarrow> bool" where
  "ValidColumn s \<longleftrightarrow> s \<noteq> [] \<and> ident_match s"

definition normalizeNumber :: "float_ops \<Rightarrow> val \<Rightarrow> val" where
  "normalizeNumber fl v =
     (case v of
        VNum n \<Rightarrow>
          (case parse_int64 n of
             Some i \<Rightarrow> VInt i
           | None \<Rightarrow> (case fl_parse fl n of Some f \<Rightarrow> VFloat f | None \<Rightarrow> VStr n))
      | _ \<Rightarrow> v)"

definition ResolveBind :: "float_ops \<Rightarrow> string \<Rightarrow> gomap option \<Rightarrow> gomap option \<Rightarrow> val" where
  "ResolveBind fl col data old =
     (let v0 = (case data of
            None \<Rightarrow> VNil
          | Some m \<Rightarrow> (case map_of m col of Some val \<Rightarrow> if val \<noteq> VNil then val else VNil | None \<Rightarrow> VNil));
          v1 = (if v0 = VNil then
                  (case old of
                     None \<Rightarrow> v0
                   | Some m \<Rightarrow> (case map_of m col of Some val \<Rightarrow> val | None \<Rightarrow> v0))
                else v0)
      in normalizeNumber fl v1)"

subsection \<open>Lookups: sql.go and cached.go\<close>

datatype Lookup = sqlLookup string int | cachedLookup Lookup nat int

definition set_cache :: "nat \<Rightarrow> Cache \<Rightarrow> 's world \<Rightarrow> 's world" where
  "set_cache a c w = w\<lparr>caches := (caches w)(a := c)\<rparr>"

definition sqlResolve ::
  "string \<Rightarrow> (string \<times> val) list \<Rightarrow> 's world \<Rightarrow> rows result \<times> 's world" where
  "sqlResolve sql bnd w =
     (case db_query sql bnd w of
        (Inl e, w') \<Rightarrow> (Inl (Errorf [Lit ''sql lookup query: '', W e]), w')
      | (Inr rows, w') \<Rightarrow> (Inr rows, w'))"

declare sqlResolve_def [simp]

fun Resolve :: "Lookup \<Rightarrow> (string \<times> val) list \<Rightarrow> 's world \<Rightarrow> rows result \<times> 's world" where
  "Resolve (sqlLookup sql timeout) bnd w = sqlResolve sql bnd w"
| "Resolve (cachedLookup inner a ttl) bnd w =
     (let key = MakeCacheKey (flops w) bnd in
      case Get key (caches w a) w of
        (Some rows, c1, w1) \<Rightarrow> (Inr rows, set_cache a c1 w1)
      | (None, c1, w1) \<Rightarrow>
          (case Resolve inner bnd (set_cache a c1 w1) of
             (Inl e, w2) \<Rightarrow> (Inl e, w2)
           | (Inr rows, w2) \<Rightarrow>
               if length rows = 1 then
                 (case Set key rows ttl (caches w2 a) w2 of (c3, w3) \<Rightarrow> (Inr rows, set_cache a c3 w3))
               else (Inr rows, w2)))"

definition defaultQueryTimeout :: int where
  "defaultQueryTimeout = 5000000000"

definition newSQLLookup :: "string \<Rightarrow> int \<Rightarrow> Lookup result" where
  "newSQLLookup sql timeout =
     (if sql = [] then Inl (Errorf [Lit ''lookup sql: sql text is required''])
      else Inr (sqlLookup sql (if timeout \<le> 0 then defaultQueryTimeout else timeout)))"

definition NewCachedLookup :: "Lookup \<Rightarrow> int \<Rightarrow> 's world \<Rightarrow> Lookup \<times> 's world" where
  "NewCachedLookup inner ttl w =
     (if ttl \<le> 0 then (inner, w)
      else (cachedLookup inner (next_cache w) ttl,
            (set_cache (next_cache w) (NewCache 0) w)\<lparr>next_cache := Suc (next_cache w)\<rparr>))"

subsection \<open>lookup.go: the registry\<close>

record Spec =
  spec_Type :: string
  spec_TTL :: int
  spec_Raw :: gomap

record Deps =
  dep_Pool :: "pool option"

type_synonym 's Factory = "Spec \<Rightarrow> Deps \<Rightarrow> 's world \<Rightarrow> Lookup result \<times> 's world"
type_synonym 's Registry = "string \<Rightarrow> 's Factory option"

definition Register :: "string \<Rightarrow> 's Factory \<Rightarrow> 's Registry \<Rightarrow> 's Registry" where
  "Register typeName f r = r(typeName := Some f)"

definition NewRegistry :: "'s Registry" where
  "NewRegistry = (\<lambda>_. None)"

definition Build :: "'s Registry \<Rightarrow> Spec \<Rightarrow> Deps \<Rightarrow> 's world \<Rightarrow> Lookup result \<times> 's world" where
  "Build r spec deps w =
     (case r (spec_Type spec) of
        None \<Rightarrow> (Inl (Errorf [Lit ''lookup: unknown type '', Q (spec_Type spec)]), w)
      | Some f \<Rightarrow> f spec deps w)"

text \<open>The factory \<^verbatim>\<open>sql.go\<close> registers, and the registry after its \<^verbatim>\<open>init\<close>.\<close>

definition sql_factory :: "'s Factory" where
  "sql_factory spec deps w =
     (let sqlText = (case map_of (spec_Raw spec) ''sql'' of Some (VStr s) \<Rightarrow> s | _ \<Rightarrow> []) in
      if dep_Pool deps = None then (Inl (Errorf [Lit ''sql lookup: db pool is required'']), w)
      else (case newSQLLookup sqlText 0 of
              Inl e \<Rightarrow> (Inl e, w)
            | Inr l \<Rightarrow> (case NewCachedLookup l (spec_TTL spec) w of (l', w') \<Rightarrow> (Inr l', w'))))"

definition TypeSQL :: string where
  "TypeSQL = ''sql''"

definition DefaultRegistry :: "'s Registry" where
  "DefaultRegistry = Register TypeSQL sql_factory NewRegistry"

subsection \<open>runner.go\<close>

fun is_lookup_poison :: "error \<Rightarrow> bool" where
  "is_lookup_poison (LookupErrPoison msg) = True"
| "is_lookup_poison _ = False"

definition Lookup_IsPoison :: "error \<Rightarrow> bool" where
  "Lookup_IsPoison err = err_any is_lookup_poison err"

lemma Lookup_IsPoison_simps [err_simps]:
  "Lookup_IsPoison (LookupErrPoison fs) \<longleftrightarrow> True"
  "Lookup_IsPoison (Errorf fs) \<longleftrightarrow> list_ex id (map (frag_any is_lookup_poison) fs)"
  "Lookup_IsPoison (External msg) \<longleftrightarrow> False"
  "Lookup_IsPoison (PoisonError e) \<longleftrightarrow> Lookup_IsPoison e"
  "frag_any is_lookup_poison (W e) = Lookup_IsPoison e"
  by (auto simp: Lookup_IsPoison_def)

record EnrichRule =
  LookupName :: string
  rule_Lookup :: Lookup
  Bind :: "(string \<times> string) list"
  Into :: string

text \<open>The bind map of a rule: \<^term>\<open>None\<close> as soon as a column is nil.\<close>

fun resolve_binds ::
  "float_ops \<Rightarrow> gomap option \<Rightarrow> gomap option \<Rightarrow> (string \<times> string) list \<Rightarrow> (string \<times> val) list \<Rightarrow>
     (string \<times> val) list option" where
  "resolve_binds fl data old [] acc = Some acc"
| "resolve_binds fl data old ((param, col) # bs) acc =
     (let v = ResolveBind fl col data old in
      if v = VNil then None else resolve_binds fl data old bs (map_put param v acc))"

definition applyRows :: "rows \<Rightarrow> EnrichRule \<Rightarrow> gomap \<Rightarrow> gomap result" where
  "applyRows rows rule result =
     (case rows of
        [] \<Rightarrow> Inl (LookupErrPoison [Lit ''lookup '', Q (LookupName rule), Lit '': no row found''])
      | [row] \<Rightarrow> Inr (map_put (Into rule) (VMap row) result)
      | _ \<Rightarrow> Inl (LookupErrPoison [Lit ''lookup '', Q (LookupName rule),
                      Lit '': expected at most 1 row, got '', D (int (length rows))]))"

definition run_rule ::
  "((string \<times> val) list \<Rightarrow> 's world \<Rightarrow> rows result \<times> 's world) \<Rightarrow> EnrichRule \<Rightarrow>
     gomap option \<Rightarrow> gomap option \<Rightarrow> gomap \<Rightarrow> 's world \<Rightarrow> gomap result \<times> 's world" where
  "run_rule resolve rule data old result w =
     (case resolve_binds (flops w) data old (Bind rule) [] of
        None \<Rightarrow> (Inl (LookupErrPoison [Lit ''lookup '', Q (LookupName rule),
                        Lit '': bind column not found in data or old'']), w)
      | Some bnd \<Rightarrow>
          (case resolve bnd w of
             (Inl e, w') \<Rightarrow> (Inl e, w')
           | (Inr rows, w') \<Rightarrow> (applyRows rows rule result, w')))"

fun run_rules ::
  "EnrichRule list \<Rightarrow> gomap option \<Rightarrow> gomap option \<Rightarrow> gomap \<Rightarrow> 's world \<Rightarrow> gomap result \<times> 's world" where
  "run_rules [] data old result w = (Inr result, w)"
| "run_rules (rule # rules) data old result w =
     (case run_rule (Resolve (rule_Lookup rule)) rule data old result w of
        (Inl e, w') \<Rightarrow> (Inl e, w')
      | (Inr result', w') \<Rightarrow> run_rules rules data old result' w')"

definition Run :: "EnrichRule list \<Rightarrow> gomap option \<Rightarrow> gomap option \<Rightarrow> 's world \<Rightarrow> gomap result \<times> 's world" where
  "Run rules data old w = run_rules rules data old [] w"

end
