(* ===== verification/Lookup_Contract.thy ===== *)
theory Lookup_Contract
  imports Lookup
begin

section \<open>What a lookup promises the runner, and what the runner promises\<close>

text \<open>
  The contract of a lookup is a locale, interpreted on \<^term>\<open>Resolve\<close>: an error of a lookup is
  transient, never poison, and a lookup touches nothing but the database, the clock, the random
  generator and its cache. The classification of the runner's outcomes rests on it. The second
  part is about the cached lookup: what it returns came from the database.
\<close>

subsection \<open>What a lookup may change\<close>

definition lookup_frame :: "'s world \<Rightarrow> 's world \<Rightarrow> bool" where
  "lookup_frame w w' \<longleftrightarrow>
     srv w' = srv w \<and> flops w' = flops w \<and> http_log w' = http_log w \<and> http_ans w' = http_ans w
     \<and> url_error w' = url_error w \<and> gw w' = gw w \<and> closed w' = closed w \<and> poll_n w' = poll_n w
     \<and> polls w' = polls w \<and> ticks w' = ticks w \<and> rands w' = rands w \<and> db_ans w' = db_ans w
     \<and> inFlight w' = inFlight w \<and> retry_log w' = retry_log w
     \<and> (\<exists>qs. db_log w' = db_log w @ qs)"

lemma lookup_frame_refl [simp]: "lookup_frame w w"
  by (simp add: lookup_frame_def)

lemma lookup_frame_trans [trans]: "lookup_frame u v \<Longrightarrow> lookup_frame v w \<Longrightarrow> lookup_frame u w"
  by (auto simp: lookup_frame_def)

lemma lookup_frame_upd [simp]:
  "lookup_frame w (set_cache a c w') \<longleftrightarrow> lookup_frame w w'"
  "lookup_frame (set_cache a c w) w' \<longleftrightarrow> lookup_frame w w'"
  "lookup_frame w (w'\<lparr>tick_n := n\<rparr>) \<longleftrightarrow> lookup_frame w w'"
  "lookup_frame w (w'\<lparr>rand_n := n\<rparr>) \<longleftrightarrow> lookup_frame w w'"
  "lookup_frame (w\<lparr>tick_n := n\<rparr>) w' \<longleftrightarrow> lookup_frame w w'"
  by (simp_all add: lookup_frame_def set_cache_def)

lemma Get_eq:
  "Get key c w = (fst (Get_at (ticks w (tick_n w)) key c), snd (Get_at (ticks w (tick_n w)) key c),
     if items c key = None then w else w\<lparr>tick_n := Suc (tick_n w)\<rparr>)"
  by (auto simp: Get_def Get_at_def time_now_def split: prod.splits)

lemma Set_eq:
  "0 < ttl \<Longrightarrow> Set key v ttl c w =
     (Set_at key v (ticks w (tick_n w) + effectiveTTL ttl (rands w (rand_n w))) c,
      w\<lparr>rand_n := Suc (rand_n w), tick_n := Suc (tick_n w)\<rparr>)"
  "ttl \<le> 0 \<Longrightarrow> Set key v ttl c w = (c, w)"
  by (simp_all add: Set_def time_now_def rand_float_def)

lemma Get_frame: "Get key c w = (r, c', w') \<Longrightarrow> lookup_frame w w'"
  by (auto simp: Get_eq)

lemma Set_frame: "Set key v ttl c w = (c', w') \<Longrightarrow> lookup_frame w w'"
  by (cases "0 < ttl") (auto simp: Set_eq)

text \<open>The three ways a cached lookup resolves a bind: a hit, a failure, and a fresh answer.\<close>

lemma Resolve_cached_cases:
  assumes "Resolve (cachedLookup inner a ttl) bnd w = (r, w')"
  obtains (hit) rows c1 w1 where "r = Inr rows"
      "Get (MakeCacheKey (flops w) bnd) (caches w a) w = (Some rows, c1, w1)" "w' = set_cache a c1 w1"
  | (fails) e c1 w1 where "r = Inl e"
      "Get (MakeCacheKey (flops w) bnd) (caches w a) w = (None, c1, w1)"
      "Resolve inner bnd (set_cache a c1 w1) = (Inl e, w')"
  | (uncached) rows c1 w1 where "r = Inr rows" "length rows \<noteq> 1"
      "Get (MakeCacheKey (flops w) bnd) (caches w a) w = (None, c1, w1)"
      "Resolve inner bnd (set_cache a c1 w1) = (Inr rows, w')"
  | (fresh) rows c1 w1 w2 c3 w3 where "r = Inr rows" "length rows = 1"
      "Get (MakeCacheKey (flops w) bnd) (caches w a) w = (None, c1, w1)"
      "Resolve inner bnd (set_cache a c1 w1) = (Inr rows, w2)"
      "Set (MakeCacheKey (flops w) bnd) rows ttl (caches w2 a) w2 = (c3, w3)" "w' = set_cache a c3 w3"
  using assms by (auto simp: Let_def split: prod.splits option.splits sum.splits if_splits)

lemma Resolve_frame: "Resolve l bnd w = (r, w') \<Longrightarrow> lookup_frame w w'"
proof (induction l arbitrary: w r w')
  case (sqlLookup sql timeout)
  then show ?case by (auto simp: db_query_def lookup_frame_def split: prod.splits sum.splits)
next
  case (cachedLookup inner a ttl)
  from cachedLookup.prems show ?case
  proof (cases rule: Resolve_cached_cases)
    case (hit rows c1 w1)
    then show ?thesis by (auto dest: Get_frame)
  next
    case (fails e c1 w1)
    with Get_frame [OF fails(2)] cachedLookup.IH [OF fails(3)] show ?thesis
      by (auto intro: lookup_frame_trans)
  next
    case (uncached rows c1 w1)
    with Get_frame [OF uncached(3)] cachedLookup.IH [OF uncached(4)] show ?thesis
      by (auto intro: lookup_frame_trans)
  next
    case (fresh rows c1 w1 w2 c3 w3)
    with Get_frame [OF fresh(3)] cachedLookup.IH [OF fresh(4)] Set_frame [OF fresh(5)] show ?thesis
      by (auto intro: lookup_frame_trans)
  qed
qed

subsection \<open>The contract\<close>

locale lookup_contract =
  fixes resolve :: "(string \<times> val) list \<Rightarrow> 's world \<Rightarrow> rows result \<times> 's world"
  assumes transient: "resolve bnd w = (Inl e, w') \<Longrightarrow> \<not> Lookup_IsPoison e"
    and keeps: "resolve bnd w = (r, w') \<Longrightarrow> lookup_frame w w'"
begin

lemma run_rule_frame: "run_rule resolve rule data old m w = (r, w') \<Longrightarrow> lookup_frame w w'"
  by (auto simp: run_rule_def split: option.splits prod.splits sum.splits dest: keeps)

text \<open>A rule fails with poison exactly when the lookup did not fail itself.\<close>

lemma run_rule_poison_iff:
  assumes "run_rule resolve rule data old m w = (Inl e, w')"
  shows "Lookup_IsPoison e \<longleftrightarrow>
    (case resolve_binds (flops w) data old (Bind rule) [] of
       None \<Rightarrow> True
     | Some bnd \<Rightarrow> (case fst (resolve bnd w) of Inl _ \<Rightarrow> False | Inr rows \<Rightarrow> length rows \<noteq> 1))"
  using assms transient
  by (auto simp: run_rule_def applyRows_def err_simps split: option.splits prod.splits sum.splits list.splits)

lemma run_rule_single:
  "run_rule resolve rule data old m w = (Inr m', w') \<longleftrightarrow>
     (\<exists>bnd row. resolve_binds (flops w) data old (Bind rule) [] = Some bnd
        \<and> resolve bnd w = (Inr [row], w') \<and> m' = map_put (Into rule) (VMap row) m)"
  by (auto simp: run_rule_def applyRows_def split: option.splits prod.splits sum.splits list.splits)

end

lemma Resolve_transient: "Resolve l bnd w = (Inl e, w') \<Longrightarrow> \<not> Lookup_IsPoison e"
proof (induction l arbitrary: w w')
  case (sqlLookup sql timeout)
  then show ?case by (auto simp: db_query_def err_simps split: prod.splits sum.splits)
next
  case (cachedLookup inner a ttl)
  from cachedLookup.prems show ?case
    by (cases rule: Resolve_cached_cases) (auto dest: cachedLookup.IH)
qed

interpretation rslv: lookup_contract "Resolve l" for l
  by unfold_locales (auto dest: Resolve_transient Resolve_frame)

subsection \<open>The outcome of a run\<close>

text \<open>
  \<open>rule_runs data old rules w rows w'\<close>: every rule of \<open>rules\<close> found its bind columns and got
  exactly one row, \<open>rows\<close> being these rows in order.
\<close>

inductive rule_runs ::
  "gomap option \<Rightarrow> gomap option \<Rightarrow> EnrichRule list \<Rightarrow> 's world \<Rightarrow> gomap list \<Rightarrow> 's world \<Rightarrow> bool"
  for data old where
  all_done: "rule_runs data old [] w [] w"
| next_rule: "resolve_binds (flops w) data old (Bind rule) [] = Some bnd \<Longrightarrow>
    Resolve (rule_Lookup rule) bnd w = (Inr [row], w1) \<Longrightarrow>
    rule_runs data old rules w1 rows w2 \<Longrightarrow>
    rule_runs data old (rule # rules) w (row # rows) w2"

inductive_cases rule_runs_NilE: "rule_runs data old [] w rows w'"
inductive_cases rule_runs_ConsE: "rule_runs data old (rule # rules) w rows w'"
inductive_simps rule_runs_Nil [simp]: "rule_runs data old [] w rows w'"
inductive_simps rule_runs_Cons: "rule_runs data old (rule # rules) w rows w'"

text \<open>The rule that ends a run, and how.\<close>

definition rule_fails ::
  "gomap option \<Rightarrow> gomap option \<Rightarrow> EnrichRule \<Rightarrow> 's world \<Rightarrow> error \<Rightarrow> 's world \<Rightarrow> bool" where
  "rule_fails data old rule w e w' \<longleftrightarrow>
     (case resolve_binds (flops w) data old (Bind rule) [] of
        None \<Rightarrow> Lookup_IsPoison e \<and> w' = w
      | Some bnd \<Rightarrow>
          (case Resolve (rule_Lookup rule) bnd w of
             (Inl e', w1) \<Rightarrow> e = e' \<and> \<not> Lookup_IsPoison e \<and> w' = w1
           | (Inr rows, w1) \<Rightarrow> length rows \<noteq> 1 \<and> Lookup_IsPoison e \<and> w' = w1))"

definition merge_rows :: "EnrichRule list \<Rightarrow> gomap list \<Rightarrow> gomap \<Rightarrow> gomap" where
  "merge_rows rules rows m = foldl (\<lambda>m (rule, row). map_put (Into rule) (VMap row) m) m (zip rules rows)"

lemma merge_rows_simps [simp]:
  "merge_rows [] rows m = m"
  "merge_rows (rule # rules) (row # rows) m = merge_rows rules rows (map_put (Into rule) (VMap row) m)"
  by (simp_all add: merge_rows_def)

lemma run_rules_Cons_success:
  "run_rules (rule # rules) data old m w = (Inr m', w') \<longleftrightarrow>
     (\<exists>m1 w1. run_rule (Resolve (rule_Lookup rule)) rule data old m w = (Inr m1, w1)
        \<and> run_rules rules data old m1 w1 = (Inr m', w'))"
  by (auto split: prod.splits sum.splits)

lemma run_rules_success:
  "run_rules rules data old m w = (Inr m', w') \<longleftrightarrow>
     (\<exists>rows. rule_runs data old rules w rows w' \<and> m' = merge_rows rules rows m)"
proof (induction rules arbitrary: m w)
  case (Cons rule rules)
  show ?case
    unfolding run_rules_Cons_success rslv.run_rule_single Cons.IH rule_runs_Cons
    by (safe, (rule exI, rule conjI, blast, simp)+, auto)
qed auto

lemma run_rule_fails:
  "run_rule (Resolve (rule_Lookup rule)) rule data old m w = (Inl e, w') \<Longrightarrow> rule_fails data old rule w e w'"
  by (auto simp: rule_fails_def run_rule_def applyRows_def err_simps dest: Resolve_transient
      split: option.splits prod.splits sum.splits list.splits)

lemma run_rules_failure:
  "run_rules rules data old m w = (Inl e, w') \<Longrightarrow>
     \<exists>pre rule post rows w1. rules = pre @ rule # post \<and> rule_runs data old pre w rows w1
       \<and> rule_fails data old rule w1 e w'"
proof (induction rules arbitrary: m w)
  case (Cons rule rules)
  show ?case
  proof (cases "run_rule (Resolve (rule_Lookup rule)) rule data old m w")
    case (Pair r w1)
    show ?thesis
    proof (cases r)
      case (Inl e1)
      with Pair Cons.prems have "rule_fails data old rule w e w'" by (auto dest: run_rule_fails)
      then have "rule # rules = [] @ rule # rules \<and> rule_runs data old [] w [] w \<and> rule_fails data old rule w e w'"
        by simp
      then show ?thesis by blast
    next
      case (Inr m1)
      with Pair Cons.prems have "run_rules rules data old m1 w1 = (Inl e, w')" by simp
      from Cons.IH [OF this] obtain pre rule' post rows w2 where
        split: "rules = pre @ rule' # post" "rule_runs data old pre w1 rows w2" "rule_fails data old rule' w2 e w'"
        by blast
      from Pair Inr obtain row where "rule_runs data old (rule # pre) w (row # rows) w2"
        using split(2) rslv.run_rule_single [of "rule_Lookup rule" rule data old m w m1 w1] by (auto simp: rule_runs_Cons)
      with split show ?thesis by (metis append_Cons)
    qed
  qed
qed simp

text \<open>C15. A successful run is one in which every rule found its bind columns and its lookup gave
  exactly one row; the enrichment holds, under each rule's \<^verbatim>\<open>into\<close>, the row of the last rule with
  that name and nothing else.\<close>

theorem run_success_iff:
  "Run rules data old w = (Inr m, w') \<longleftrightarrow>
     (\<exists>rows. rule_runs data old rules w rows w'
        \<and> m = map_of_pairs (map (\<lambda>(rule, row). (Into rule, VMap row)) (zip rules rows)))"
  by (simp add: Run_def run_rules_success merge_rows_def map_of_pairs_def foldl_map split_def)

text \<open>C14. When a run fails, the rules before some rule succeeded and that rule failed in one of three
  ways: a bind column is nil (poison, nothing queried), its lookup returned an error, which is
  passed on as it is and is never poison, or the number of rows is not one (poison). No rule after
  it is run.\<close>

theorem run_failure_cases:
  assumes "Run rules data old w = (Inl e, w')"
  shows "\<exists>pre rule post rows w1. rules = pre @ rule # post \<and> rule_runs data old pre w rows w1
    \<and> rule_fails data old rule w1 e w'"
  using assms run_rules_failure unfolding Run_def by blast

text \<open>A rule on the column \<open>user_id\<close>, run on a row whose user the database does not know.\<close>

definition user_rule :: EnrichRule where
  "user_rule = \<lparr>LookupName = ''user'', rule_Lookup = sqlLookup ''SELECT'' 5, Bind = [(''id'', ''user_id'')],
     Into = ''user''\<rparr>"

definition user_data :: gomap where
  "user_data = [(''user_id'', VNum ''7'')]"

theorem run_failure_cases_witness:
  "\<exists>e w'. Run [user_rule] (Some user_data) None (world0 ()) = (Inl e, w')
     \<and> (\<exists>pre rule post rows w1. [user_rule] = pre @ rule # post
          \<and> rule_runs (Some user_data) None pre (world0 ()) rows w1
          \<and> rule_fails (Some user_data) None rule w1 e w')"
proof -
  obtain e w' where r: "Run [user_rule] (Some user_data) None (world0 ()) = (Inl e, w')"
  proof -
    have "case fst (Run [user_rule] (Some user_data) None (world0 ())) of Inl e \<Rightarrow> True | Inr m \<Rightarrow> False"
      by code_simp
    then show ?thesis using that by (metis (no_types, lifting) old.sum.simps(6) sum.exhaust prod.exhaust_sel)
  qed
  with run_failure_cases [OF r] show ?thesis by blast
qed

end
