(* ===== verification/Lookup_Cached.thy ===== *)
theory Lookup_Cached
  imports Lookup_Contract
begin

section \<open>Cached lookups: keys and coherence\<close>

text \<open>
  The bind map of a rule does not depend on the order in which Go visits the map; what a cached
  lookup returns is an answer of the database to a query with the same SQL text and the same cache
  key; and when two binds have the same key.
\<close>

subsection \<open>The order of the bind map\<close>

lemma resolve_binds_eq:
  "resolve_binds fl data old bs acc =
     (if \<exists>(p, c) \<in> set bs. ResolveBind fl c data old = VNil then None
      else Some (foldl (\<lambda>m (k, v). map_put k v m) acc (map (\<lambda>(p, c). (p, ResolveBind fl c data old)) bs)))"
  by (induction bs arbitrary: acc) (auto simp: Let_def)

lemma sorted_map_ext:
  assumes "sorted_map m" "sorted_map m'" "map_of m = map_of m'"
  shows "m = m'"
proof -
  have d: "distinct (map fst m)" "distinct (map fst m')" and s: "sorted (map fst m)" "sorted (map fst m')"
    using assms(1,2) by (simp_all add: sorted_map_def strict_sorted_iff)
  from d assms(3) have set: "set m = set m'" using map_of_inject_set by blast
  then have "inj_on fst (set m \<union> set m')" using d(2) by (simp add: distinct_map)
  from map_sorted_distinct_set_unique [OF this s(1) d(1) s(2) d(2) set] show ?thesis .
qed

text \<open>Go visits the entries of a rule's bind map in an unspecified order. The bind values handed
  to the lookup, and whether the rule is poison for a nil column, are the same for every order:
  \<open>bs\<close> and \<open>bs'\<close> are two orders of one map, so they hold the same pairs and each parameter once.\<close>

lemma bind_order_irrelevant:
  assumes "set bs = set bs'" "distinct (map fst bs)" "distinct (map fst bs')"
  shows "resolve_binds fl data old bs [] = resolve_binds fl data old bs' []"
proof -
  let ?f = "\<lambda>(p, c). (p, ResolveBind fl c data old)"
  have fst: "map (fst \<circ> ?f) xs = map fst xs" for xs by (induction xs) auto
  have rev: "map_of (rev ys) = map_of ys" if "distinct (map fst ys)" for ys :: "(string \<times> val) list"
    using that by (subst map_of_inject_set) (simp_all add: rev_map [symmetric])
  have "map_of (map ?f bs) = map_of (map ?f bs')"
    using assms by (subst map_of_inject_set) (simp_all add: fst)
  then have "map_of_pairs (map ?f bs) = map_of_pairs (map ?f bs')"
    using assms(2,3) by (intro sorted_map_ext) (simp_all add: map_of_pairs_lookup rev fst)
  then show ?thesis using assms(1) by (simp add: resolve_binds_eq map_of_pairs_def)
qed

subsection \<open>Cache keys\<close>

text \<open>
  The scalars a bind column is in practice: a Boolean, an integer, or a string. The last condition
  is the one the key needs, as the separator of the parts is not escaped.
\<close>

fun plain :: "val \<Rightarrow> bool" where
  "plain (VBool b) = True"
| "plain (VInt i) = True"
| "plain (VStr s) = (CHR ''|'' \<notin> set s)"
| "plain _ = False"

definition typed_text :: "float_ops \<Rightarrow> val \<Rightarrow> string" where
  "typed_text fl v = type_name v @ '':'' @ show_v fl v"

lemma dec_nat_inject: "0 \<le> m \<Longrightarrow> 0 \<le> n \<Longrightarrow> dec_nat m = dec_nat n \<Longrightarrow> m = n"
  by (metis digits_val_dec_nat option.inject)

lemma dec_nat_no_minus: "0 \<le> n \<Longrightarrow> dec_nat n \<noteq> CHR ''-'' # s"
  using dec_nat_digits [of n "CHR ''-''"] by (auto simp: is_digit_def)

lemma dec_int_inject: "dec_int i = dec_int j \<Longrightarrow> i = j"
proof (cases "i < 0"; cases "j < 0")
  assume "dec_int i = dec_int j"
  then show "i < 0 \<Longrightarrow> j < 0 \<Longrightarrow> i = j" "\<not> i < 0 \<Longrightarrow> \<not> j < 0 \<Longrightarrow> i = j"
    using dec_nat_inject [of i j] dec_nat_inject [of "- i" "- j"] by (simp_all add: dec_int_def)
  show "i < 0 \<Longrightarrow> \<not> j < 0 \<Longrightarrow> i = j" "\<not> i < 0 \<Longrightarrow> j < 0 \<Longrightarrow> i = j"
    using \<open>dec_int i = dec_int j\<close> dec_nat_no_minus [of i] dec_nat_no_minus [of j]
    by (auto simp: dec_int_def dest: sym)
qed

lemma dec_int_no_bar: "CHR ''|'' \<notin> set (dec_int i)"
  using dec_nat_digits [of i "CHR ''|''"] dec_nat_digits [of "- i" "CHR ''|''"]
  by (auto simp: dec_int_def is_digit_def)

lemma typed_text_no_bar: "plain v \<Longrightarrow> CHR ''|'' \<notin> set (typed_text fl v)"
  by (cases v) (auto simp: typed_text_def dec_int_no_bar)

lemma typed_text_inject: "plain v \<Longrightarrow> plain v' \<Longrightarrow> typed_text fl v = typed_text fl v' \<Longrightarrow> v = v'"
  by (cases v; cases v') (auto simp: typed_text_def dest: dec_int_inject split: if_splits)

definition key_parts :: "float_ops \<Rightarrow> (string \<times> val) list \<Rightarrow> string" where
  "key_parts fl bnd = concat (map (\<lambda>(k, v). ''|'' @ k @ ''='' @ typed_text fl v) bnd)"

lemma MakeCacheKey_parts: "MakeCacheKey fl bnd = key_parts fl (sort_key fst bnd)"
  by (simp add: MakeCacheKey_def key_parts_def typed_text_def)

lemma bar_split:
  assumes "a @ r = b @ r'" "c \<notin> set a" "c \<notin> set b"
    and "r = [] \<or> hd r = c" "r' = [] \<or> hd r' = c"
  shows "a = b \<and> r = r'"
proof -
  have "takeWhile (\<lambda>x. x \<noteq> c) (x @ y) = x" if "c \<notin> set x" "y = [] \<or> hd y = c" for x y
    using that by (cases y) (auto simp: takeWhile_append2 takeWhile_append)
  with assms have "a = b" by metis
  with assms(1) show ?thesis by simp
qed

lemma key_parts_hd: "key_parts fl bnd = [] \<or> hd (key_parts fl bnd) = CHR ''|''"
  by (cases bnd) (auto simp: key_parts_def)

lemma key_parts_inject:
  "map fst bnd = map fst bnd' \<Longrightarrow> list_all (plain \<circ> snd) bnd \<Longrightarrow> list_all (plain \<circ> snd) bnd' \<Longrightarrow>
     key_parts fl bnd = key_parts fl bnd' \<Longrightarrow> bnd = bnd'"
proof (induction bnd arbitrary: bnd')
  case (Cons p bnd)
  then obtain k v v' bnd2 where p: "p = (k, v)" and b: "bnd' = (k, v') # bnd2" and k: "map fst bnd = map fst bnd2"
    by (cases p; cases bnd') auto
  have "typed_text fl v @ key_parts fl bnd = typed_text fl v' @ key_parts fl bnd2"
    using Cons.prems(4) by (simp add: p b key_parts_def)
  then have "typed_text fl v = typed_text fl v' \<and> key_parts fl bnd = key_parts fl bnd2"
    by (rule bar_split [OF _ _ _ key_parts_hd key_parts_hd])
      (use Cons.prems(2,3) in \<open>auto simp: p b typed_text_no_bar\<close>)
  with Cons.IH [OF k] Cons.prems(2,3) typed_text_inject show ?case by (auto simp: p b)
qed simp

text \<open>C37. Two binds of one rule, which have the same parameters, get the same cache key only if they
  are equal, provided the values are Booleans, integers or strings without the separator
  \<open>|\<close>: then a cached row is never handed to another bind.\<close>

theorem cache_key_injective:
  assumes "sorted_map bnd" "sorted_map bnd'" "map fst bnd = map fst bnd'"
    and "list_all (plain \<circ> snd) bnd" "list_all (plain \<circ> snd) bnd'"
    and "MakeCacheKey fl bnd = MakeCacheKey fl bnd'"
  shows "bnd = bnd'"
proof -
  have "sort_key fst xs = xs" if "sorted_map xs" for xs :: "(string \<times> val) list"
    using that by (simp add: sorted_map_def strict_sorted_iff sort_key_id_if_sorted)
  with assms show ?thesis by (auto simp: MakeCacheKey_parts intro: key_parts_inject)
qed

theorem cache_key_injective_witness:
  "MakeCacheKey (flops (world0 ())) [(''id'', VInt 7)] \<noteq> MakeCacheKey (flops (world0 ())) [(''id'', VStr ''7'')]"
  using cache_key_injective [of "[(''id'', VInt 7)]" "[(''id'', VStr ''7'')]" "flops (world0 ())"] by (auto simp: sorted_map_def)

definition row_world :: "unit world" where
  "row_world = (world0 ())\<lparr>db_ans := (\<lambda>n. Inr [[(''n'', VInt (int n))]])\<rparr>"

subsection \<open>Coherence with the database\<close>

text \<open>Some query of \<open>sql\<close> with a bind of this key was answered with these rows.\<close>

definition answered :: "string \<Rightarrow> string \<Rightarrow> rows \<Rightarrow> 's world \<Rightarrow> bool" where
  "answered sql key rows w \<longleftrightarrow>
     (\<exists>i bnd. i < length (db_log w) \<and> db_log w ! i = (sql, bnd)
        \<and> MakeCacheKey (flops w) bnd = key \<and> db_ans w i = Inr rows)"

definition coherent :: "string \<Rightarrow> nat \<Rightarrow> 's world \<Rightarrow> bool" where
  "coherent sql a w \<longleftrightarrow>
     cache_inv (caches w a)
     \<and> (\<forall>k v ex. content (caches w a) k = Some (v, ex) \<longrightarrow> answered sql k v w \<and> length v = 1)"

lemma answered_mono: "answered sql k v w \<Longrightarrow> lookup_frame w w' \<Longrightarrow> answered sql k v w'"
proof -
  assume "answered sql k v w" "lookup_frame w w'"
  then obtain i bnd qs where "i < length (db_log w)" "db_log w ! i = (sql, bnd)"
    "MakeCacheKey (flops w) bnd = k" "db_ans w i = Inr v"
    and f: "flops w' = flops w" "db_ans w' = db_ans w" "db_log w' = db_log w @ qs"
    by (auto simp: answered_def lookup_frame_def)
  then have "i < length (db_log w') \<and> db_log w' ! i = (sql, bnd)
      \<and> MakeCacheKey (flops w') bnd = k \<and> db_ans w' i = Inr v"
    by (simp add: nth_append)
  then show ?thesis unfolding answered_def by blast
qed

lemma coherent_mono:
  "coherent sql a w \<Longrightarrow> lookup_frame w w' \<Longrightarrow> caches w' a = caches w a \<Longrightarrow> coherent sql a w'"
  by (auto simp: coherent_def intro: answered_mono)

lemma sql_answered:
  "Resolve (sqlLookup sql t) bnd w = (Inr rows, w') \<Longrightarrow> answered sql (MakeCacheKey (flops w) bnd) rows w'"
  by (auto simp: answered_def db_query_def nth_append split: prod.splits sum.splits)

lemma sql_caches: "Resolve (sqlLookup sql t) bnd w = (r, w') \<Longrightarrow> caches w' = caches w"
  by (auto simp: db_query_def split: prod.splits sum.splits)

lemma coherent_Get:
  assumes "coherent sql a w" "Get k (caches w a) w = (r, c1, w1)"
  shows "coherent sql a (set_cache a c1 w1)" "r = Some rows \<Longrightarrow> answered sql k rows (set_cache a c1 w1)"
proof -
  let ?now = "ticks w (tick_n w)" let ?P = "\<lambda>k v ex. answered sql k v w \<and> length v = 1"
  from assms(1) have inv: "cache_inv (caches w a)"
    and all: "\<And>k v ex. content (caches w a) k = Some (v, ex) \<Longrightarrow> ?P k v ex" by (auto simp: coherent_def)
  from assms(2) have g: "r = fst (Get_at ?now k (caches w a))" "c1 = snd (Get_at ?now k (caches w a))"
    and f: "lookup_frame w (set_cache a c1 w1)" by (auto simp: Get_eq)
  have "cache_inv c1" using inv g by (auto simp: inv_intros)
  moreover have "content c1 k' = Some (v', ex') \<Longrightarrow> ?P k' v' ex'" for k' v' ex'
    using lru_cache.content_invariant(1) [OF inv, of ?P] all g(2) by blast
  ultimately show "coherent sql a (set_cache a c1 w1)"
    using f by (auto simp: coherent_def set_cache_def intro: answered_mono)
  show "r = Some rows \<Longrightarrow> answered sql k rows (set_cache a c1 w1)"
    using lru_cache.get_SomeD [OF inv, of ?now k rows] g(1) all answered_mono [OF _ f] by auto
qed

lemma coherent_Set:
  assumes "coherent sql a w" "answered sql k v w" "length v = 1" "Set k v ttl (caches w a) w = (c1, w1)"
  shows "coherent sql a (set_cache a c1 w1)"
proof (cases "0 < ttl")
  case True
  let ?ex = "ticks w (tick_n w) + effectiveTTL ttl (rands w (rand_n w))"
  let ?P = "\<lambda>k v ex. answered sql k v w \<and> length v = 1"
  from assms(1) have inv: "cache_inv (caches w a)"
    and all: "\<And>k v ex. content (caches w a) k = Some (v, ex) \<Longrightarrow> ?P k v ex" by (auto simp: coherent_def)
  from assms(4) True have s: "c1 = Set_at k v ?ex (caches w a)"
    and f: "lookup_frame w (set_cache a c1 w1)" by (auto simp: Set_eq)
  have "cache_inv c1" using inv s by (auto simp: inv_intros)
  moreover have "content c1 k' = Some (v', ex') \<Longrightarrow> ?P k' v' ex'" for k' v' ex'
    using lru_cache.content_invariant(2) [OF inv, of ?P] all assms(2,3) s by blast
  ultimately show ?thesis
    using f by (auto simp: coherent_def set_cache_def intro: answered_mono)
next
  case False
  with assms(4) have "c1 = caches w a" "w1 = w" by (auto simp: Set_eq)
  then have "set_cache a c1 w1 = w" by (simp add: set_cache_def)
  with assms(1) show ?thesis by simp
qed

lemma Resolve_coherent:
  assumes inv: "coherent sql a w"
    and run: "Resolve (cachedLookup (sqlLookup sql timeout) a ttl) bnd w = (r, w')"
  shows "coherent sql a w' \<and> (\<forall>rows. r = Inr rows \<longrightarrow> answered sql (MakeCacheKey (flops w) bnd) rows w')"
  using run
proof (cases rule: Resolve_cached_cases)
  case (hit rows c1 w1)
  with coherent_Get [OF inv hit(2)] show ?thesis by auto
next
  case (fails e c1 w1)
  with coherent_mono [OF coherent_Get(1) [OF inv fails(2)] Resolve_frame [OF fails(3)]] sql_caches [OF fails(3)]
  show ?thesis by simp
next
  case (uncached rows c1 w1)
  with coherent_mono [OF coherent_Get(1) [OF inv uncached(3)] Resolve_frame [OF uncached(4)]]
    sql_caches [OF uncached(4)] sql_answered [OF uncached(4)] Get_frame [OF uncached(3)]
  show ?thesis by (simp add: lookup_frame_def set_cache_def)
next
  case (fresh rows c1 w1 w2 c3 w3)
  have key: "flops (set_cache a c1 w1) = flops w"
    using Get_frame [OF fresh(3)] by (simp add: lookup_frame_def set_cache_def)
  have w2: "coherent sql a w2" "answered sql (MakeCacheKey (flops w) bnd) rows w2"
    using coherent_mono [OF coherent_Get(1) [OF inv fresh(3)] Resolve_frame [OF fresh(4)]]
      sql_caches [OF fresh(4)] sql_answered [OF fresh(4)] key by simp_all
  with coherent_Set [OF w2 fresh(2,5)] answered_mono [OF w2(2)] Set_frame [OF fresh(5)] fresh(1,6)
  show ?thesis by simp
qed

text \<open>C16. A cached SQL lookup never makes up an answer: what it returns was, now or earlier, the
  database's answer to its own SQL text for a bind with the same cache key. Every call keeps the
  cache well formed and holding only such answers, of exactly one row each; so the lists of
  no or several rows and the errors are never cached.\<close>

theorem cached_lookup_coherent:
  assumes inv: "coherent sql a w"
    and run: "Resolve (cachedLookup (sqlLookup sql timeout) a ttl) bnd w = (r, w')"
  shows "coherent sql a w' \<and> (\<forall>rows. r = Inr rows \<longrightarrow> answered sql (MakeCacheKey (flops w) bnd) rows w')"
  using Resolve_coherent [OF inv run] .

lemma coherent_empty: "caches w a = NewCache n \<Longrightarrow> coherent sql a w"
  by (simp add: coherent_def) (simp add: content_def NewCache_def)

definition user_bind :: "(string \<times> val) list" where
  "user_bind = [(''id'', VInt 7)]"

theorem cached_lookup_coherent_witness:
  "\<exists>w'. Resolve (cachedLookup (sqlLookup ''Q'' 5) 0 9000) user_bind row_world = (Inr [[(''n'', VInt 0)]], w')
     \<and> coherent ''Q'' 0 w' \<and> answered ''Q'' (MakeCacheKey (flops row_world) user_bind) [[(''n'', VInt 0)]] w'"
proof -
  have start: "coherent ''Q'' 0 row_world"
    by (rule coherent_empty [of _ _ 0]) (simp add: row_world_def world0_def)
  have "fst (Resolve (cachedLookup (sqlLookup ''Q'' 5) 0 9000) user_bind row_world) = Inr [[(''n'', VInt 0)]]"
    by code_simp
  then obtain w' where
    run: "Resolve (cachedLookup (sqlLookup ''Q'' 5) 0 9000) user_bind row_world = (Inr [[(''n'', VInt 0)]], w')"
    by (metis prod.collapse)
  from cached_lookup_coherent [OF start run] run show ?thesis by blast
qed

lemma Resolve_hit:
  assumes inv: "cache_inv (caches w a)"
    and live: "content (caches w a) (MakeCacheKey (flops w) bnd) = Some (rows, ex)" "ticks w (tick_n w) \<le> ex"
  shows "\<exists>w'. Resolve (cachedLookup inner a ttl) bnd w = (Inr rows, w') \<and> db_log w' = db_log w"
proof -
  from lru_cache.get_live [OF inv live] obtain c1 where
    "Get_at (ticks w (tick_n w)) (MakeCacheKey (flops w) bnd) (caches w a) = (Some rows, c1)"
    by (metis prod.collapse)
  then show ?thesis by (simp add: Let_def Get_eq set_cache_def)
qed

lemma Resolve_stores:
  assumes inv: "cache_inv (caches w a)" and ttl: "0 < ttl"
    and miss: "content (caches w a) (MakeCacheKey (flops w) bnd) = None"
    and run: "Resolve (cachedLookup (sqlLookup sql timeout) a ttl) bnd w = (Inr [row], w')"
  shows "caches w' a = Set_at (MakeCacheKey (flops w) bnd) [row]
    (ticks w (tick_n w) + effectiveTTL ttl (rands w (rand_n w))) (caches w a)"
proof -
  let ?k = "MakeCacheKey (flops w) bnd"
  have none: "items (caches w a) ?k = None"
    using cache_inv_item [OF inv, of ?k] miss by (auto simp: content_def split: option.splits)
  then have get: "Get ?k (caches w a) w = (None, caches w a, w)" by (simp add: Get_eq Get_at_def)
  from run show ?thesis
  proof (cases rule: Resolve_cached_cases)
    case (fresh rows c1 w1 w2 c3 w3)
    from get fresh(3) have w1: "set_cache a c1 w1 = w" by (simp add: set_cache_def)
    have "caches w2 a = caches w a" "ticks w2 = ticks w" "rands w2 = rands w"
      "tick_n w2 = tick_n w" "rand_n w2 = rand_n w"
      using fresh(4) w1 by (auto simp: db_query_def split: prod.splits sum.splits)
    with fresh(5) ttl have
      "c3 = Set_at ?k rows (ticks w (tick_n w) + effectiveTTL ttl (rands w (rand_n w))) (caches w a)"
      by (auto simp: Set_eq)
    with fresh(1,6) show ?thesis by (simp add: set_cache_def)
  qed (use get in auto)
qed

end
