(* ===== verification/Lookup_Reuse.thy ===== *)
theory Lookup_Reuse
  imports Lookup_Cached
begin

section \<open>When a cached row is used again\<close>

text \<open>
  How long a cached row is found again: its place in the list of entries bounds what other calls can do
  to it. And whose row a bind gets when two binds share a key.
\<close>

subsection \<open>The place of an entry in the list\<close>

definition depth :: "string \<Rightarrow> cacheEntry list \<Rightarrow> nat" where
  "depth k xs = length (takeWhile (\<lambda>e. ce_key e \<noteq> k) xs)"

lemma depth_simps [simp]:
  "depth k [] = 0" "ce_key e \<noteq> k \<Longrightarrow> depth k (e # xs) = Suc (depth k xs)" "ce_key e = k \<Longrightarrow> depth k (e # xs) = 0"
  by (simp_all add: depth_def)

lemma without_other:
  assumes "k' \<noteq> k"
  shows "find (\<lambda>e. ce_key e = k) (without k' xs) = find (\<lambda>e. ce_key e = k) xs \<and> depth k (without k' xs) \<le> depth k xs"
proof (induction xs)
  case (Cons e xs)
  with assms show ?case by (cases "ce_key e = k"; cases "ce_key e = k'") (auto simp: without_def)
qed (simp add: without_def)

lemma butlast_other:
  "Suc (depth k xs) < length xs \<Longrightarrow>
     find (\<lambda>e. ce_key e = k) (butlast xs) = find (\<lambda>e. ce_key e = k) xs \<and> depth k (butlast xs) = depth k xs"
proof (induction xs)
  case (Cons e xs)
  then show ?case by (cases "ce_key e = k"; cases xs) auto
qed simp

text \<open>The entry \<open>e\<close> for \<open>k\<close> is in the cache, with at most \<open>n\<close> entries used more recently.\<close>

definition held :: "string \<Rightarrow> cacheEntry \<Rightarrow> nat \<Rightarrow> Cache \<Rightarrow> bool" where
  "held k e n c \<longleftrightarrow> cache_inv c \<and> find (\<lambda>x. ce_key x = k) (entries c) = Some e \<and> depth k (entries c) \<le> n"

lemma held_mono: "held k e n c \<Longrightarrow> n \<le> m \<Longrightarrow> held k e m c"
  by (simp add: held_def)

lemma held_Get:
  assumes "held k e n c" "k' \<noteq> k"
  shows "fst (Get_at now k' c) = None \<Longrightarrow> held k e n (snd (Get_at now k' c))"
    and "held k e (Suc n) (snd (Get_at now k' c))"
proof -
  from assms(1) have inv: "cache_inv c" by (simp add: held_def)
  from get_refines_list_step [OF inv, of now k'] have
    sp: "fst (Get_at now k' c) = fst (spec_get now k' (entries c))"
    "entries (snd (Get_at now k' c)) = snd (spec_get now k' (entries c))" by blast+
  have inv': "cache_inv (snd (Get_at now k' c))" using inv by (simp add: inv_intros)
  note other = without_other [OF assms(2), of "entries c"]
  show "fst (Get_at now k' c) = None \<Longrightarrow> held k e n (snd (Get_at now k' c))"
    using assms(1) inv' sp other by (auto simp: held_def spec_get_def split: option.splits if_splits)
  show "held k e (Suc n) (snd (Get_at now k' c))"
    using assms inv' sp other
    by (auto simp: held_def spec_get_def find_Some_iff [of "\<lambda>e. ce_key e = k'"] split: option.splits if_splits)
qed

lemma held_Set:
  assumes "held k e n c" "k' \<noteq> k" "int (Suc n) < maxEntries c"
  shows "held k e (Suc n) (Set_at k' v ex c)"
proof -
  from assms(1) have inv: "cache_inv c" by (simp add: held_def)
  have inv': "cache_inv (Set_at k' v ex c)" using inv by (simp add: inv_intros)
  note sp = set_refines_list_step [OF inv, of k' v ex]
  have "Suc (depth k (entries c)) < length (entries c)" if "nat (maxEntries c) \<le> length (entries c)"
    using assms(1,3) that by (simp add: held_def nat_le_iff)
  note cut = butlast_other [OF this]
  from assms(1,2) inv' sp cut without_other [OF assms(2), of "entries c"] show ?thesis
    by (auto simp: held_def spec_set_def Let_def)
qed

lemma held_content: "held k e n c \<Longrightarrow> content c k = Some (ce_value e, ce_expiresAt e)"
proof -
  assume h: "held k e n c"
  then have "(case items c k of None \<Rightarrow> None | Some el \<Rightarrow> elems c el) = Some e"
    using find_entries [of c k] by (simp add: held_def)
  then show ?thesis by (auto simp: content_def split: option.splits)
qed

lemma held_fresh:
  assumes "cache_inv c"
  shows "held k \<lparr>ce_key = k, ce_value = v, ce_expiresAt = ex\<rparr> 0 (Set_at k v ex c)"
  using set_refines_list_step [OF assms, of k v ex] assms by (simp add: held_def spec_set_def Let_def inv_intros)

lemma maxEntries_at [simp]: "maxEntries (snd (Get_at now k c)) = maxEntries c" "maxEntries (Set_at k v ex c) = maxEntries c"
  by (auto simp: Get_at_def Set_at_def move_to_front_def push_front_def evict_back_def Let_def split: option.splits)

subsection \<open>Calls for other binds\<close>

lemma Resolve_held:
  assumes h: "held k e n (caches w a)" "int (Suc n) < maxEntries (caches w a)" and k: "MakeCacheKey (flops w) bnd \<noteq> k"
    and run: "Resolve (cachedLookup (sqlLookup sql timeout) a ttl) bnd w = (r, w')"
  shows "held k e (Suc n) (caches w' a) \<and> maxEntries (caches w' a) = maxEntries (caches w a)"
  using run
proof (cases rule: Resolve_cached_cases)
  case (hit rows c1 w1)
  with held_Get(2) [OF h(1) k] show ?thesis by (auto simp: Get_eq set_cache_def)
next
  case (fails e' c1 w1)
  with held_mono [OF held_Get(1) [OF h(1) k]] sql_caches [OF fails(3)] show ?thesis
    by (auto simp: Get_eq set_cache_def)
next
  case (uncached rows c1 w1)
  with held_mono [OF held_Get(1) [OF h(1) k]] sql_caches [OF uncached(4)] show ?thesis
    by (auto simp: Get_eq set_cache_def)
next
  case (fresh rows c1 w1 w2 c3 w3)
  from fresh(3) have get: "fst (Get_at (ticks w (tick_n w)) (MakeCacheKey (flops w) bnd) (caches w a)) = None"
    "c1 = snd (Get_at (ticks w (tick_n w)) (MakeCacheKey (flops w) bnd) (caches w a))" by (auto simp: Get_eq)
  have c2: "caches w2 a = c1" using sql_caches [OF fresh(4)] by (simp add: set_cache_def)
  have h1: "held k e n c1" "maxEntries c1 = maxEntries (caches w a)" using held_Get(1) [OF h(1) k get(1)] get(2) by simp_all
  show ?thesis
  proof (cases "0 < ttl")
    case True
    with fresh(5,6) c2 have "caches w' a = Set_at (MakeCacheKey (flops w) bnd) rows
        (ticks w2 (tick_n w2) + effectiveTTL ttl (rands w2 (rand_n w2))) c1" by (auto simp: Set_eq set_cache_def)
    with held_Set [OF h1(1) k] h(2) h1(2) show ?thesis by simp
  next
    case False
    with fresh(5,6) c2 have "caches w' a = c1" by (auto simp: Set_eq set_cache_def)
    with held_mono [OF h1(1)] h1(2) show ?thesis by simp
  qed
qed

text \<open>
  \<open>n\<close> calls of the lookup for binds with other keys, and between them anything that leaves this cache alone,
  the time that passes included.
\<close>

inductive calls_between :: "Lookup \<Rightarrow> nat \<Rightarrow> string \<Rightarrow> 's world \<Rightarrow> nat \<Rightarrow> 's world \<Rightarrow> bool" for l a key w where
  no_call: "calls_between l a key w 0 w"
| elsewhere: "calls_between l a key w n w1 \<Longrightarrow> caches w2 a = caches w1 a \<Longrightarrow> flops w2 = flops w1 \<Longrightarrow>
    calls_between l a key w n w2"
| other_bind: "calls_between l a key w n w1 \<Longrightarrow> MakeCacheKey (flops w1) bnd \<noteq> key \<Longrightarrow> Resolve l bnd w1 = (res, w2) \<Longrightarrow>
    calls_between l a key w (Suc n) w2"

lemma calls_held:
  assumes "calls_between (cachedLookup (sqlLookup sql timeout) a ttl) a k w n w'"
    and "held k e 0 (caches w a)" "int n < maxEntries (caches w a)"
  shows "held k e n (caches w' a) \<and> maxEntries (caches w' a) = maxEntries (caches w a) \<and> flops w' = flops w"
  using assms
proof (induction rule: calls_between.induct)
  case (other_bind n w1 bnd res w2)
  then have "held k e n (caches w1 a)" "maxEntries (caches w1 a) = maxEntries (caches w a)" "flops w1 = flops w"
    by simp_all
  with Resolve_held [OF this(1) _ other_bind.hyps(2,3)] other_bind.prems Resolve_frame [OF other_bind.hyps(3)]
  show ?case by (simp add: lookup_frame_def)
qed simp_all

text \<open>
  C35. Within the lifetime of a cached row the database is not asked again: after a miss that was answered with one
  row, a call for the same bind returns this row and adds no query, at any moment up to the one it was stored
  plus the jittered time to live, provided that fewer calls for other keys came in between than the cache has
  entries: so many calls cannot evict it, whatever they find or store.
\<close>

theorem cached_row_reused:
  assumes "cache_inv (caches w a)" "0 < ttl" "content (caches w a) (MakeCacheKey (flops w) bnd) = None"
    and "Resolve (cachedLookup (sqlLookup sql timeout) a ttl) bnd w = (Inr [row], w1)"
    and "calls_between (cachedLookup (sqlLookup sql timeout) a ttl) a (MakeCacheKey (flops w) bnd) w1 n w2"
    and "int n < maxEntries (caches w a)"
    and "ticks w2 (tick_n w2) \<le> ticks w (tick_n w) + effectiveTTL ttl (rands w (rand_n w))"
  shows "\<exists>w3. Resolve (cachedLookup (sqlLookup sql timeout) a ttl) bnd w2 = (Inr [row], w3)
    \<and> db_log w3 = db_log w2"
proof -
  let ?k = "MakeCacheKey (flops w) bnd" and ?ex = "ticks w (tick_n w) + effectiveTTL ttl (rands w (rand_n w))"
  have w1: "caches w1 a = Set_at ?k [row] ?ex (caches w a)" using Resolve_stores [OF assms(1-4)] .
  then have "held ?k \<lparr>ce_key = ?k, ce_value = [row], ce_expiresAt = ?ex\<rparr> 0 (caches w1 a)"
    "maxEntries (caches w1 a) = maxEntries (caches w a)" using held_fresh [OF assms(1)] by simp_all
  from calls_held [OF assms(5) this(1)] this(2) assms(6) have
    h: "held ?k \<lparr>ce_key = ?k, ce_value = [row], ce_expiresAt = ?ex\<rparr> n (caches w2 a)" "flops w2 = flops w1" by simp_all
  have f: "flops w1 = flops w" using Resolve_frame [OF assms(4)] by (simp add: lookup_frame_def)
  have "cache_inv (caches w2 a)" using h(1) by (simp add: held_def)
  from Resolve_hit [OF this] held_content [OF h(1)] h(2) f assms(7) show ?thesis by simp
qed

text \<open>
  A cache of two entries: the row of a bind is stored, a call for another bind comes in between, and the row is
  still found.
\<close>

definition pair_world :: "unit world" where
  "pair_world = row_world\<lparr>caches := (\<lambda>_. NewCache 2)\<rparr>"

definition cached_Q :: Lookup where
  "cached_Q = cachedLookup (sqlLookup ''Q'' 5) 0 1000000000000"

lemma first_calls:
  "case Resolve cached_Q user_bind pair_world of (r, w1) \<Rightarrow>
     r = Inr [[(''n'', VInt 0)]] \<and>
     (case Resolve cached_Q [(''id'', VInt 8)] w1 of (r', w2) \<Rightarrow> r' = Inr [[(''n'', VInt 1)]] \<and> tick_n w2 = 2)"
  by code_simp

theorem cached_row_reused_witness:
  "\<exists>w1 w2 w3. Resolve cached_Q user_bind pair_world = (Inr [[(''n'', VInt 0)]], w1)
     \<and> Resolve cached_Q [(''id'', VInt 8)] w1 = (Inr [[(''n'', VInt 1)]], w2)
     \<and> Resolve cached_Q user_bind w2 = (Inr [[(''n'', VInt 0)]], w3) \<and> db_log w3 = db_log w2"
proof -
  obtain w1 w2 where run: "Resolve cached_Q user_bind pair_world = (Inr [[(''n'', VInt 0)]], w1)"
    and run2: "Resolve cached_Q [(''id'', VInt 8)] w1 = (Inr [[(''n'', VInt 1)]], w2)" and n: "tick_n w2 = 2"
    using first_calls by (cases "Resolve cached_Q user_bind pair_world") (auto split: prod.splits)
  let ?k = "MakeCacheKey (flops pair_world) user_bind"
  have f: "flops w1 = flops pair_world" "ticks w2 = ticks pair_world"
    using Resolve_frame [OF run] Resolve_frame [OF run2] by (simp_all add: lookup_frame_def)
  have "MakeCacheKey (flops pair_world) [(''id'', VInt 8)] \<noteq> ?k" by code_simp
  with f have between: "calls_between cached_Q 0 ?k w1 (Suc 0) w2"
    by (intro calls_between.other_bind [OF calls_between.no_call _ run2]) simp
  have start: "caches pair_world 0 = NewCache 2" by (simp add: pair_world_def)
  then have c: "content (caches pair_world 0) ?k = None" "cache_inv (caches pair_world 0)"
      "int (Suc 0) < maxEntries (caches pair_world 0)"
    by (simp_all add: content_def inv_intros) (simp_all add: NewCache_def)
  have "ticks pair_world 2 \<le> ticks pair_world (tick_n pair_world)
      + effectiveTTL 1000000000000 (rands pair_world (rand_n pair_world))"
    by code_simp
  with cached_row_reused [OF c(2) _ c(1) run [unfolded cached_Q_def] between [unfolded cached_Q_def] c(3)] n f(2)
  have "\<exists>w3. Resolve cached_Q user_bind w2 = (Inr [[(''n'', VInt 0)]], w3) \<and> db_log w3 = db_log w2"
    by (simp only: cached_Q_def)
  with run run2 show ?thesis by blast
qed

subsection \<open>Whose row a bind gets\<close>

text \<open>The text of the key from the value of the first of two string parameters on; \<open>q\<close> is the second.\<close>

definition joined :: "string \<Rightarrow> string \<Rightarrow> string \<Rightarrow> string" where
  "joined q x y = x @ ''|'' @ q @ ''=string:'' @ y"

lemma joined_assoc: "joined q (joined q x y) z = joined q x (joined q y z)"
  by (simp add: joined_def)

lemma key_of_two:
  assumes "p < q"
  shows "MakeCacheKey fl [(p, VStr x), (q, VStr y)] = ''|'' @ p @ ''=string:'' @ joined q x y"
proof -
  have "sort_key fst [(p, VStr x), (q, VStr y)] = [(p, VStr x), (q, VStr y)]"
    using assms by (intro sort_key_id_if_sorted) (simp add: less_imp_le)
  then show ?thesis by (simp add: MakeCacheKey_parts key_parts_def typed_text_def joined_def)
qed

text \<open>
  C38. A bind with a separator in a value gets the row of another: of two string parameters, two binds have the same
  key exactly when their values joined by the separator of the key are the same text. So when a cached lookup has
  stored the one row of a bind, it answers every bind that differs from it in where the text is
  split with this row, without a query.
\<close>

theorem cache_key_collision:
  assumes "p < q" "cache_inv (caches w a)" "0 < ttl"
    and "content (caches w a) (MakeCacheKey (flops w) [(p, VStr (joined q x y)), (q, VStr z)]) = None"
    and "Resolve (cachedLookup (sqlLookup sql timeout) a ttl) [(p, VStr (joined q x y)), (q, VStr z)] w = (Inr [row], w1)"
    and "ticks w1 (tick_n w1) \<le> ticks w (tick_n w) + effectiveTTL ttl (rands w (rand_n w))"
  shows "(\<exists>w2. Resolve (cachedLookup (sqlLookup sql timeout) a ttl) [(p, VStr x), (q, VStr (joined q y z))] w1
        = (Inr [row], w2) \<and> db_log w2 = db_log w1)
    \<and> (\<forall>x y x' y'. MakeCacheKey fl [(p, VStr x), (q, VStr y)] = MakeCacheKey fl [(p, VStr x'), (q, VStr y')]
          \<longleftrightarrow> joined q x y = joined q x' y')"
proof -
  let ?b = "[(p, VStr (joined q x y)), (q, VStr z)]" and ?b' = "[(p, VStr x), (q, VStr (joined q y z))]"
  have same: "MakeCacheKey fl ?b' = MakeCacheKey fl ?b" for fl by (simp add: key_of_two [OF assms(1)] joined_assoc)
  note stored = Resolve_stores [OF assms(2-5)]
  have inv1: "cache_inv (caches w1 a)" unfolding stored using assms(2) by (simp add: inv_intros)
  have "flops w1 = flops w" using Resolve_frame [OF assms(5)] by (simp add: lookup_frame_def)
  with Resolve_hit [OF inv1] lru_cache.put_same [OF assms(2)] assms(6)
  have "\<exists>w2. Resolve (cachedLookup (sqlLookup sql timeout) a ttl) ?b' w1 = (Inr [row], w2) \<and> db_log w2 = db_log w1"
    by (simp add: same stored del: Resolve.simps)
  then show ?thesis by (simp add: key_of_two [OF assms(1)] del: Resolve.simps)
qed

definition bind_a :: "(string \<times> val) list" where
  "bind_a = [(''a'', VStr ''x|b=string:y''), (''b'', VStr ''z'')]"

definition bind_b :: "(string \<times> val) list" where
  "bind_b = [(''a'', VStr ''x''), (''b'', VStr ''y|b=string:z'')]"

theorem cache_key_collision_witness:
  "bind_a \<noteq> bind_b
   \<and> (\<exists>w1 w2. Resolve cached_Q bind_a row_world = (Inr [[(''n'', VInt 0)]], w1)
        \<and> Resolve cached_Q bind_b w1 = (Inr [[(''n'', VInt 0)]], w2) \<and> db_log w2 = db_log w1)"
proof
  show "bind_a \<noteq> bind_b" by (simp add: bind_a_def bind_b_def)
  have a: "bind_a = [(''a'', VStr (joined ''b'' ''x'' ''y'')), (''b'', VStr ''z'')]"
    and b: "bind_b = [(''a'', VStr ''x''), (''b'', VStr (joined ''b'' ''y'' ''z''))]"
    by (simp_all add: bind_a_def bind_b_def joined_def)
  have "fst (Resolve cached_Q bind_a row_world) = Inr [[(''n'', VInt 0)]]" "tick_n (snd (Resolve cached_Q bind_a row_world)) = 1"
    by code_simp+
  then obtain w1 where run: "Resolve cached_Q bind_a row_world = (Inr [[(''n'', VInt 0)]], w1)" and n: "tick_n w1 = 1"
    by (cases "Resolve cached_Q bind_a row_world") simp
  have start: "caches row_world 0 = NewCache 0" by (simp add: row_world_def world0_def)
  then have c: "cache_inv (caches row_world 0)" "content (caches row_world 0) k = None" for k
    by (simp_all add: content_def inv_intros) (simp_all add: NewCache_def)
  have t: "ticks w1 (tick_n w1) \<le> ticks row_world (tick_n row_world)
      + effectiveTTL 1000000000000 (rands row_world (rand_n row_world))"
  proof -
    have "ticks w1 = ticks row_world" using Resolve_frame [OF run] by (simp add: lookup_frame_def)
    moreover have "ticks row_world 1 \<le> ticks row_world (tick_n row_world)
      + effectiveTTL 1000000000000 (rands row_world (rand_n row_world))" by code_simp
    ultimately show ?thesis using n by simp
  qed
  have lt: "''a'' < ''b''" and ttl: "0 < (1000000000000 :: int)" by code_simp+
  from conjunct1 [OF cache_key_collision [OF lt c(1) ttl c(2) run [unfolded cached_Q_def a] t]]
  have "\<exists>w2. Resolve cached_Q bind_b w1 = (Inr [[(''n'', VInt 0)]], w2) \<and> db_log w2 = db_log w1"
    unfolding cached_Q_def b .
  with run show "\<exists>w1 w2. Resolve cached_Q bind_a row_world = (Inr [[(''n'', VInt 0)]], w1)
      \<and> Resolve cached_Q bind_b w1 = (Inr [[(''n'', VInt 0)]], w2) \<and> db_log w2 = db_log w1" by blast
qed

end
