(* ===== verification/Redis.thy ===== *)
theory Redis
  imports World
begin

section \<open>The Redis client\<close>

text \<open>
  The commands the program sends, as a parameter: each is a function of its arguments and of the
  state of the server and the connection, \<open>srv\<close>. An error is its text, as \<^verbatim>\<open>err.Error()\<close> gives it.
  Replies and arguments are the ones of go-redis the sources use.
\<close>

record XMessage =
  msg_ID :: string
  msg_Values :: gomap

record XPending =
  xp_ID :: string
  xp_Consumer :: string
  xp_Idle :: int

record XInfoConsumer =
  xi_Name :: string
  xi_Pending :: int
  xi_Idle :: int

text \<open>\<^verbatim>\<open>XREADGROUP\<close> answers \<^verbatim>\<open>redis.Nil\<close> when the time to block has passed.\<close>

datatype read_reply = ReadNil | ReadErr string | ReadOk "(string \<times> XMessage list) list"

record 's redis =
  XAdd :: "string \<Rightarrow> gomap \<Rightarrow> 's \<Rightarrow> string option \<times> 's"
  XGroupCreateMkStream :: "string \<Rightarrow> string \<Rightarrow> string \<Rightarrow> 's \<Rightarrow> string option \<times> 's"
  XReadGroup :: "string \<Rightarrow> string \<Rightarrow> string \<Rightarrow> int \<Rightarrow> int \<Rightarrow> 's \<Rightarrow> read_reply \<times> 's"
  XPendingExt :: "string \<Rightarrow> string \<Rightarrow> int \<Rightarrow> string \<Rightarrow> string \<Rightarrow> int \<Rightarrow> string option \<Rightarrow> 's \<Rightarrow>
    (string + XPending list) \<times> 's"
  XClaim :: "string \<Rightarrow> string \<Rightarrow> string \<Rightarrow> int \<Rightarrow> string list \<Rightarrow> 's \<Rightarrow> (string + XMessage list) \<times> 's"
  XClaimJustID :: "string \<Rightarrow> string \<Rightarrow> string \<Rightarrow> int \<Rightarrow> string list \<Rightarrow> 's \<Rightarrow> (string + string list) \<times> 's"
  XAck :: "string \<Rightarrow> string \<Rightarrow> string \<Rightarrow> 's \<Rightarrow> string option \<times> 's"
  XInfoConsumers :: "string \<Rightarrow> string \<Rightarrow> 's \<Rightarrow> (string + XInfoConsumer list) \<times> 's"
  XGroupDelConsumer :: "string \<Rightarrow> string \<Rightarrow> string \<Rightarrow> 's \<Rightarrow> string option \<times> 's"

definition on_server :: "('s \<Rightarrow> 'r \<times> 's) \<Rightarrow> 's world \<Rightarrow> 'r \<times> 's world" where
  "on_server cmd w = (case cmd (srv w) of (r, s') \<Rightarrow> (r, w\<lparr>srv := s'\<rparr>))"

lemma on_server_eq: "on_server cmd w = (fst (cmd (srv w)), w\<lparr>srv := snd (cmd (srv w))\<rparr>)"
  by (simp add: on_server_def split: prod.splits)

end
