(* ===== verification/Envelope.thy ===== *)
theory Envelope
  imports Dasher
begin

section \<open>internal/event: the envelope of a stream entry\<close>

text \<open>
  An entry's fields are a map from names to values; go-redis delivers strings, \<^verbatim>\<open>Parse\<close> checks it.
  The fields are read in the order of the source, the first failure is the error returned.
  An error of \<^verbatim>\<open>time.Parse\<close> or \<^verbatim>\<open>encoding/json\<close> is opaque.
\<close>

definition reqStr :: "gomap \<Rightarrow> string \<Rightarrow> string result" where
  "reqStr v k =
     (case map_of v k of
        None \<Rightarrow> Inl (Errorf [Lit ''field '', Q k, Lit '': '', W (Sentinel ErrMissingField)])
      | Some (VStr s) \<Rightarrow> Inr s
      | Some _ \<Rightarrow> Inl (Errorf [Lit ''field '', Q k, Lit '' is not a string: '', W (Sentinel ErrMissingField)]))"

definition decodeJSON :: "string \<Rightarrow> gomap option result" where
  "decodeJSON s =
     (case Option.bind (parse_prefix s) to_map of
        None \<Rightarrow> Inl (Errorf [W (Sentinel ErrMalformedJSON), Lit '': '', V (External ''json'')])
      | Some m \<Rightarrow> Inr m)"

definition in_field :: "string \<Rightarrow> 'a result \<Rightarrow> 'a result" where
  "in_field k m = (case m of Inl e \<Rightarrow> Inl (Errorf [Lit k, Lit '': '', W e]) | Inr x \<Rightarrow> Inr x)"

text \<open>The optional maps \<open>old\<close> and \<open>enrichment\<close>: absent, not a string or empty leaves nil.\<close>

definition optMap :: "gomap \<Rightarrow> string \<Rightarrow> gomap option result" where
  "optMap v k =
     (case map_of v k of
        Some (VStr s) \<Rightarrow> if s \<noteq> [] then in_field k (decodeJSON s) else Inr None
      | _ \<Rightarrow> Inr None)"

definition optStr :: "gomap \<Rightarrow> string \<Rightarrow> string" where
  "optStr v k = (case map_of v k of Some (VStr s) \<Rightarrow> s | _ \<Rightarrow> [])"

definition Parse :: "string \<Rightarrow> gomap \<Rightarrow> Event result" where
  "Parse eid v =
     and_then (reqStr v ''op'') (\<lambda>op.
     and_then (reqStr v ''table'') (\<lambda>table.
     and_then (reqStr v ''schema'') (\<lambda>schema.
     and_then (reqStr v ''lsn'') (\<lambda>lsn.
     and_then (reqStr v ''streamed_at'') (\<lambda>sa.
     (case parse_rfc3339 sa of
        None \<Rightarrow> Inl (Errorf [Lit ''streamed_at '', Q sa, Lit '': '', W (External ''time'')])
      | Some t \<Rightarrow>
     and_then (reqStr v ''data'') (\<lambda>dataStr.
     and_then (in_field ''data'' (decodeJSON dataStr)) (\<lambda>data.
     and_then (optMap v ''old'') (\<lambda>old.
     and_then (optMap v ''enrichment'') (\<lambda>enrichment.
       Inr \<lparr>ID = eid, Op = op, Table = table, Schema = schema, LSN = lsn, StreamedAt = t,
            Data = data, Old = old, Enrichment = enrichment, Source = optStr v ''source''\<rparr>))))))))))"

subsection \<open>Which envelopes are well formed\<close>

definition str_field :: "gomap \<Rightarrow> string \<Rightarrow> string option" where
  "str_field v k = (case map_of v k of Some (VStr s) \<Rightarrow> Some s | _ \<Rightarrow> None)"

definition json_map :: "string \<Rightarrow> gomap option option" where
  "json_map s = Option.bind (parse_prefix s) to_map"

definition opt_field_ok :: "gomap \<Rightarrow> string \<Rightarrow> bool" where
  "opt_field_ok v k = (case str_field v k of None \<Rightarrow> True | Some s \<Rightarrow> s = [] \<or> json_map s \<noteq> None)"

lemma reqStr_Inr [simp]: "reqStr v k = Inr s \<longleftrightarrow> str_field v k = Some s"
  by (auto simp: reqStr_def str_field_def split: option.splits val.splits)

lemma reqStr_Inl: "reqStr v k = Inl e \<Longrightarrow> str_field v k = None \<and> errors_is e ErrMissingField"
  by (auto simp: reqStr_def str_field_def err_simps split: option.splits val.splits)

lemma decodeJSON_Inr [simp]: "decodeJSON s = Inr m \<longleftrightarrow> json_map s = Some m"
  by (auto simp: decodeJSON_def json_map_def split: option.splits)

lemma decodeJSON_Inl: "decodeJSON s = Inl e \<Longrightarrow> json_map s = None \<and> errors_is e ErrMalformedJSON"
  by (auto simp: decodeJSON_def json_map_def err_simps split: option.splits)

lemma option_Inr: "(case x of None \<Rightarrow> Inl e | Some t \<Rightarrow> f t) = Inr y \<longleftrightarrow> (\<exists>t. x = Some t \<and> f t = Inr y)"
  by (cases x) auto

lemma in_field_Inr [simp]: "in_field k m = Inr x \<longleftrightarrow> m = Inr x"
  by (auto simp: in_field_def split: sum.splits)

lemma in_field_Inl: "in_field k m = Inl e \<Longrightarrow> \<exists>e'. m = Inl e' \<and> e = Errorf [Lit k, Lit '': '', W e']"
  by (auto simp: in_field_def split: sum.splits)

lemma optMap_Inr: "(\<exists>m. optMap v k = Inr m) \<longleftrightarrow> opt_field_ok v k"
  by (auto simp: optMap_def opt_field_ok_def str_field_def split: option.splits val.splits)

lemma optMap_Inl: "optMap v k = Inl e \<Longrightarrow> \<not> opt_field_ok v k \<and> errors_is e ErrMalformedJSON"
  by (auto simp: optMap_def opt_field_ok_def str_field_def errors_is_def
      dest!: in_field_Inl decodeJSON_Inl split: option.splits val.splits if_splits)

definition required_fields :: "string list" where
  "required_fields = [''op'', ''table'', ''schema'', ''lsn'', ''streamed_at'', ''data'']"

definition well_formed_envelope :: "gomap \<Rightarrow> bool" where
  "well_formed_envelope v \<longleftrightarrow>
     (\<forall>k \<in> set required_fields. str_field v k \<noteq> None)
     \<and> Option.bind (str_field v ''streamed_at'') parse_rfc3339 \<noteq> None
     \<and> Option.bind (str_field v ''data'') json_map \<noteq> None
     \<and> opt_field_ok v ''old'' \<and> opt_field_ok v ''enrichment''"

definition opt_map :: "gomap \<Rightarrow> string \<Rightarrow> gomap option" where
  "opt_map v k = (case str_field v k of None \<Rightarrow> None | Some s \<Rightarrow> if s = [] then None else the (json_map s))"

lemma optMap_value: "optMap v k = Inr m \<longleftrightarrow> opt_field_ok v k \<and> m = opt_map v k"
  by (auto simp: optMap_def opt_field_ok_def opt_map_def str_field_def split: option.splits val.splits)

lemma optStr_value: "optStr v k = (case str_field v k of None \<Rightarrow> [] | Some s \<Rightarrow> s)"
  by (auto simp: optStr_def str_field_def split: option.splits val.splits)

definition envelope_event :: "string \<Rightarrow> gomap \<Rightarrow> Event" where
  "envelope_event eid v =
     \<lparr>ID = eid, Op = the (str_field v ''op''), Table = the (str_field v ''table''),
      Schema = the (str_field v ''schema''), LSN = the (str_field v ''lsn''),
      StreamedAt = the (parse_rfc3339 (the (str_field v ''streamed_at''))),
      Data = the (json_map (the (str_field v ''data''))),
      Old = opt_map v ''old'', Enrichment = opt_map v ''enrichment'',
      Source = (case str_field v ''source'' of None \<Rightarrow> [] | Some s \<Rightarrow> s)\<rparr>"

lemma Parse_well_formed:
  "Parse eid v = Inr e \<longleftrightarrow> well_formed_envelope v \<and> e = envelope_event eid v"
proof -
  have "Parse eid v = Inr e \<longleftrightarrow>
      (\<exists>op table schema lsn sa t ds m. str_field v ''op'' = Some op \<and> str_field v ''table'' = Some table
        \<and> str_field v ''schema'' = Some schema \<and> str_field v ''lsn'' = Some lsn
        \<and> str_field v ''streamed_at'' = Some sa \<and> parse_rfc3339 sa = Some t
        \<and> str_field v ''data'' = Some ds \<and> json_map ds = Some m
        \<and> opt_field_ok v ''old'' \<and> opt_field_ok v ''enrichment''
        \<and> e = \<lparr>ID = eid, Op = op, Table = table, Schema = schema, LSN = lsn, StreamedAt = t, Data = m,
               Old = opt_map v ''old'', Enrichment = opt_map v ''enrichment'', Source = optStr v ''source''\<rparr>)"
    unfolding Parse_def and_then_Inr reqStr_Inr in_field_Inr decodeJSON_Inr option_Inr optMap_value
    by auto
  also have "\<dots> \<longleftrightarrow> well_formed_envelope v \<and> e = envelope_event eid v"
    by (auto simp: well_formed_envelope_def required_fields_def envelope_event_def optStr_value)
  finally show ?thesis .
qed

text \<open>
  C13. \<open>Parse\<close> accepts an entry exactly when its six required fields are strings, \<open>streamed_at\<close> is
  an RFC 3339 time, \<open>data\<close> starts with a JSON object or is null, and \<open>old\<close> and \<open>enrichment\<close>, where
  they are non-empty strings, do so too; the event then consists of these decoded fields and the entry's
  id, with nil for an absent optional map. Field \<open>source\<close> is never required.
\<close>

theorem parse_iff:
  "Parse eid v = Inr e \<longleftrightarrow> well_formed_envelope v \<and> e = envelope_event eid v"
  by (rule Parse_well_formed)

lemma and_then_Inl: "and_then m f = Inl e \<longleftrightarrow> m = Inl e \<or> (\<exists>x. m = Inr x \<and> f x = Inl e)"
  by (cases m) auto

lemma field_errors:
  "reqStr v k = Inl e \<Longrightarrow> \<not> IsPoison e"
  "in_field k (decodeJSON s) = Inl e \<Longrightarrow> \<not> IsPoison e"
  "optMap v k = Inl e \<Longrightarrow> \<not> IsPoison e"
  by (auto simp: reqStr_def optMap_def in_field_def decodeJSON_def err_simps
      split: option.splits sum.splits val.splits if_splits)

lemma Parse_not_poison: "Parse eid v = Inl e \<Longrightarrow> \<not> IsPoison e"
  unfolding Parse_def and_then_Inl
  by (elim disjE exE conjE) (auto simp: and_then_Inl err_simps split: option.splits dest: field_errors)

text \<open>An entry as WALker writes it.\<close>

text \<open>The decoder reads one value and does not look at what follows it.\<close>

lemma decode_stops: "decodeJSON ''nullx'' = Inr None" "decodeJSON ''{} junk'' = Inr (Some [])"
  by code_simp+

definition demo_entry :: gomap where
  "demo_entry = [(''data'', VStr ''{\"id\":9007199254740993,\"name\":\"Ada\"}''), (''lsn'', VStr ''0/16B6''),
     (''op'', VStr ''insert''), (''schema'', VStr ''public''),
     (''streamed_at'', VStr ''2026-06-12T10:00:00Z''), (''table'', VStr ''users'')]"

lemma demo_entry_event:
  "Parse ''1-0'' demo_entry = Inr \<lparr>ID = ''1-0'', Op = ''insert'', Table = ''users'', Schema = ''public'',
     LSN = ''0/16B6'', StreamedAt = \<lparr>unix = 1781258400, nsec = 0, zone = 0\<rparr>,
     Data = Some [(''id'', VNum ''9007199254740993''), (''name'', VStr ''Ada'')],
     Old = None, Enrichment = None, Source = []\<rparr>"
  by code_simp

end
