(* ===== verification/Produce.thy ===== *)
theory Produce
  imports Redis Envelope
begin

section \<open>internal/produce: emitting an event\<close>

text \<open>
  The producer of an instance. Its \<^verbatim>\<open>closed\<close> flag is the field of that name of the world, its
  client is the parameter \<open>r\<close>. The fields of an entry are a map, like the values of a message.
\<close>

record Producer =
  prod_instanceID :: string

definition New_Producer :: "string \<Rightarrow> Producer" where
  "New_Producer iid = \<lparr>prod_instanceID = iid\<rparr>"

definition Close :: "'s world \<Rightarrow> 's world" where
  "Close w = w\<lparr>closed := True\<rparr>"

text \<open>A map is added to the fields as JSON; \<^verbatim>\<open>old\<close> and \<^verbatim>\<open>enrichment\<close> only when not empty.\<close>

definition put_map :: "float_ops \<Rightarrow> string \<Rightarrow> gomap option \<Rightarrow> gomap \<Rightarrow> gomap result" where
  "put_map fl k m fs =
     (case marshal_map fl m of
        None \<Rightarrow> Inl (Errorf [Lit ''produce: marshal '', Lit k, Lit '': '', W (External ''json'')])
      | Some s \<Rightarrow> Inr (map_put k (VStr s) fs))"

definition put_opt_map :: "float_ops \<Rightarrow> string \<Rightarrow> gomap option \<Rightarrow> gomap \<Rightarrow> gomap result" where
  "put_opt_map fl k m fs =
     (if (case m of None \<Rightarrow> False | Some kv \<Rightarrow> kv \<noteq> []) then put_map fl k m fs else Inr fs)"

definition base_fields :: "string \<Rightarrow> Event \<Rightarrow> gomap" where
  "base_fields iid evt =
     map_of_pairs [(''op'', VStr (Op evt)), (''table'', VStr (Table evt)), (''schema'', VStr (Schema evt)),
       (''lsn'', VStr (LSN evt)), (''streamed_at'', VStr (format_rfc3339 (StreamedAt evt))),
       (''source'', VStr iid)]"

definition envelope_fields :: "float_ops \<Rightarrow> string \<Rightarrow> Event \<Rightarrow> gomap result" where
  "envelope_fields fl iid evt =
     and_then (put_map fl ''data'' (Data evt) (base_fields iid evt)) (\<lambda>fs.
     and_then (put_opt_map fl ''old'' (Old evt) fs)
              (put_opt_map fl ''enrichment'' (Enrichment evt)))"

definition Emit :: "'s redis \<Rightarrow> Producer \<Rightarrow> string \<Rightarrow> Event \<Rightarrow> 's world \<Rightarrow> error option \<times> 's world" where
  "Emit r p stream evt w =
     (if closed w then (Some (Errorf [Lit ''produce: emit after close'']), w)
      else (case envelope_fields (flops w) (prod_instanceID p) evt of
              Inl e \<Rightarrow> (Some e, w)
            | Inr fs \<Rightarrow>
                (case on_server (XAdd r stream fs) w of
                   (err, w') \<Rightarrow> (map_option External err, w'))))"

subsection \<open>The contract of a producer\<close>

text \<open>A failed emit is transient: the entry is handled again, never given up as poison.\<close>

locale producer =
  fixes emit :: "string \<Rightarrow> Event \<Rightarrow> 'w \<Rightarrow> error option \<times> 'w"
  assumes emit_transient: "emit stream evt w = (Some e, w') \<Longrightarrow> \<not> IsPoison e"

lemma put_map_error: "put_map fl k m fs = Inl e \<Longrightarrow> \<not> IsPoison e"
  by (auto simp: put_map_def err_simps split: option.splits)

lemma envelope_fields_error: "envelope_fields fl iid evt = Inl e \<Longrightarrow> \<not> IsPoison e"
  by (auto simp: envelope_fields_def and_then_Inl put_opt_map_def dest: put_map_error split: if_splits)

interpretation xadd: producer "Emit r p"
  by unfold_locales
    (auto simp: Emit_def err_simps dest: envelope_fields_error split: if_splits sum.splits prod.splits)

end
