(* ===== verification/Middleware.thy ===== *)
theory Middleware
  imports Produce Lookup_Contract
begin

section \<open>internal/middleware: Enrich and EmitAfter\<close>

text \<open>
  Two handlers that wrap a handler. What they promise rests on the contracts of the runner
  (its lookups) and of the producer.
\<close>

definition Enrich :: "EnrichRule list \<Rightarrow> 's world handler \<Rightarrow> 's world handler" where
  "Enrich rules inner inst evt w =
     (case Run rules (Data evt) (Old evt) w of
        (Inl e, w') \<Rightarrow>
          if Lookup_IsPoison e then (Returned (Poison (Some (Errorf [Lit ''enrich: '', W e]))), w')
          else (Returned (Some e), w')
      | (Inr enr, w') \<Rightarrow> inner inst (evt\<lparr>Enrichment := Some enr\<rparr>) w')"

definition EmitAfter ::
  "(string \<Rightarrow> Event \<Rightarrow> 's world \<Rightarrow> error option \<times> 's world) \<Rightarrow> string \<Rightarrow> 's world handler \<Rightarrow> 's world handler" where
  "EmitAfter emit stream inner inst evt w =
     (case inner inst evt w of
        (Panicked p, w') \<Rightarrow> (Panicked p, w')
      | (Returned (Some e), w') \<Rightarrow> (Returned (Some e), w')
      | (Returned None, w') \<Rightarrow> (case emit stream evt w' of (err, w'') \<Rightarrow> (Returned err, w'')))"

text \<open>No error of a run carries the mark of the package dasher, so only \<open>Enrich\<close> decides on poison.\<close>

lemma Resolve_not_dasher_poison: "Resolve l bnd w = (Inl e, w') \<Longrightarrow> \<not> IsPoison e"
proof (induction l arbitrary: w w')
  case (sqlLookup sql timeout)
  then show ?case by (auto simp: db_query_def err_simps split: prod.splits sum.splits)
next
  case (cachedLookup inner a ttl)
  from cachedLookup.prems show ?case
    by (cases rule: Resolve_cached_cases) (auto dest: cachedLookup.IH)
qed

lemma Run_not_dasher_poison: "Run rules data old w = (Inl e, w') \<Longrightarrow> \<not> IsPoison e"
proof -
  have "run_rules rules data old m w = (Inl e, w') \<Longrightarrow> \<not> IsPoison e" for m
    by (induction rules arbitrary: m w)
      (auto simp: run_rule_def applyRows_def err_simps dest: Resolve_not_dasher_poison
        split: option.splits prod.splits sum.splits list.splits)
  then show "Run rules data old w = (Inl e, w') \<Longrightarrow> ?thesis" by (simp add: Run_def)
qed

text \<open>
  \<open>Enrich\<close> calls the inner handler exactly when every lookup found its one row, with an event that
  differs from its own in the enrichment alone, which is replaced; otherwise the inner handler is not
  called and the error is poison exactly when the failing rule is (a nil bind column, or a number
  of rows other than one), so that a database failure is retried.
\<close>

lemma enrich_outcome:
  "case Run rules (Data evt) (Old evt) w of
     (Inr enr, w') \<Rightarrow> Enrich rules inner inst evt w = inner inst (evt\<lparr>Enrichment := Some enr\<rparr>) w'
   | (Inl e, w') \<Rightarrow> (\<exists>e'. Enrich rules inner inst evt w = (Returned (Some e'), w')
        \<and> (IsPoison e' \<longleftrightarrow> Lookup_IsPoison e))"
  by (auto simp: Enrich_def Poison_def err_simps dest: Run_not_dasher_poison split: sum.splits prod.splits)

context producer
begin

text \<open>Emitting adds no poison: a failed emit is an error of its own, and always transient.\<close>

lemma emit_after_poison:
  fixes inner :: "InstanceContext \<Rightarrow> Event \<Rightarrow> 'w \<Rightarrow> hresult \<times> 'w"
  assumes "inner inst evt w = (Returned None, w1)" "emit stream evt w1 = (Some e, w2)"
  shows "\<not> IsPoison e"
  using emit_transient assms(2) .

end

text \<open>
  \<open>EmitAfter\<close> emits the event once, after the inner handler returned nil and in the state it left,
  and not at all when the inner handler failed or panicked: its outcome is passed on unchanged.
  The binding succeeds only when the emit does, and an emit that fails is retried, never poison.
\<close>

lemma emit_after_outcome:
  "case inner inst evt w of
     (Returned None, w1) \<Rightarrow>
       (case Emit r p stream evt w1 of
          (None, w2) \<Rightarrow> EmitAfter (Emit r p) stream inner inst evt w = (Returned None, w2)
        | (Some e, w2) \<Rightarrow> EmitAfter (Emit r p) stream inner inst evt w = (Returned (Some e), w2) \<and> \<not> IsPoison e)
   | res \<Rightarrow> EmitAfter (Emit r p) stream inner inst evt w = res"
  by (auto simp: EmitAfter_def dest: xadd.emit_after_poison split: prod.splits option.splits hresult.splits)

end
