(* ===== verification/Handlers.thy ===== *)
theory Handlers
  imports World Envelope
begin

section \<open>internal/handlers and internal/registry\<close>

text \<open>
  The one handler of the program forwards the event to a service as JSON. The interface
  \<^verbatim>\<open>httpDoer\<close> has the two clients as its implementations; its contract is a locale.
\<close>

subsection \<open>Clients\<close>

datatype Service = ServiceInternal | ServiceGateway

datatype httpDoer = DoInternal InternalClient | DoGateway GatewayClient

fun client_Do ::
  "httpDoer \<Rightarrow> string \<Rightarrow> string \<Rightarrow> string \<Rightarrow> 's world \<Rightarrow> (int \<times> string) result \<times> 's world" where
  "client_Do (DoInternal c) method path body w = internal_Do c method path body w"
| "client_Do (DoGateway c) method path body w = gateway_Do c method path body w"

fun selectClient :: "InstanceContext \<Rightarrow> Service \<Rightarrow> httpDoer option" where
  "selectClient inst ServiceInternal = map_option DoInternal (Internal (inst_Services inst))"
| "selectClient inst ServiceGateway = map_option DoGateway (Gateway (inst_Services inst))"

subsection \<open>The handler\<close>

text \<open>\<^verbatim>\<open>json.Marshal(evt)\<close>: the fields of the struct in order, under their Go names.\<close>

definition event_json :: "float_ops \<Rightarrow> Event \<Rightarrow> string option" where
  "event_json fl evt =
     (case (marshal_time (StreamedAt evt),
            marshal fl (case Data evt of None \<Rightarrow> VNil | Some m \<Rightarrow> VMap m),
            marshal fl (case Old evt of None \<Rightarrow> VNil | Some m \<Rightarrow> VMap m),
            marshal fl (case Enrichment evt of None \<Rightarrow> VNil | Some m \<Rightarrow> VMap m)) of
        (Some t, Some d, Some old, Some enr) \<Rightarrow>
          Some (render (JObj [(''ID'', JStr (ID evt)), (''Op'', JStr (Op evt)), (''Table'', JStr (Table evt)),
            (''Schema'', JStr (Schema evt)), (''LSN'', JStr (LSN evt)), (''StreamedAt'', JStr t),
            (''Data'', d), (''Old'', old), (''Enrichment'', enr), (''Source'', JStr (Source evt))]))
      | _ \<Rightarrow> None)"

text \<open>What the handler makes of the answer to its request.\<close>

definition status_result :: "int \<Rightarrow> error option" where
  "status_result code =
     (if code \<ge> 500 then Some (Errorf [Lit ''service '', D code])
      else if code \<ge> 400 then Poison (Some (Errorf [Lit ''service rejected event: '', D code]))
      else None)"

definition forward_to ::
  "(string \<Rightarrow> string \<Rightarrow> string \<Rightarrow> 's world \<Rightarrow> (int \<times> string) result \<times> 's world) \<Rightarrow>
     Event \<Rightarrow> 's world \<Rightarrow> error option \<times> 's world" where
  "forward_to Do evt w =
     (case event_json (flops w) evt of
        None \<Rightarrow> (Poison (Some (Errorf [Lit ''marshal event: '', W (External ''json'')])), w)
      | Some body \<Rightarrow>
          (case Do ''POST'' ''/events'' body w of
             (Inl e, w') \<Rightarrow> (Some e, w')
           | (Inr (code, _), w') \<Rightarrow> (status_result code, w')))"

definition Forward :: "Service \<Rightarrow> 's world handler" where
  "Forward svc inst evt w =
     (case selectClient inst svc of
        None \<Rightarrow> (Returned None, w)
      | Some client \<Rightarrow> (case forward_to (client_Do client) evt w of (err, w') \<Rightarrow> (Returned err, w')))"

subsection \<open>The contract of a client\<close>

locale http_doer =
  fixes Do :: "string \<Rightarrow> string \<Rightarrow> string \<Rightarrow> 's world \<Rightarrow> (int \<times> string) result \<times> 's world"
  assumes do_transient: "Do method path body w = (Inl e, w') \<Longrightarrow> \<not> IsPoison e"
begin

lemma forward_poison_iff:
  assumes "forward_to Do evt w = (Some e, w')"
  shows "IsPoison e \<longleftrightarrow>
    (case event_json (flops w) evt of
       None \<Rightarrow> True
     | Some body \<Rightarrow> (case fst (Do ''POST'' ''/events'' body w) of
           Inl _ \<Rightarrow> False | Inr (code, _) \<Rightarrow> 400 \<le> code \<and> code < 500))"
  using assms
  by (auto simp: forward_to_def status_result_def Poison_def err_simps dest: do_transient
      split: option.splits prod.splits sum.splits if_splits)

lemma forward_nil_iff:
  "forward_to Do evt w = (None, w') \<longleftrightarrow>
     (\<exists>body code b. event_json (flops w) evt = Some body
        \<and> Do ''POST'' ''/events'' body w = (Inr (code, b), w') \<and> code < 400)"
  by (auto simp: forward_to_def status_result_def Poison_def
      split: option.splits prod.splits sum.splits if_splits)

end

subsection \<open>The errors of the two clients\<close>

lemma do_request_error: "do_request method url headers body w = (Inl e, w') \<Longrightarrow> \<not> IsPoison e"
  by (auto simp: do_request_def err_simps split: option.splits prod.splits http_result.splits)

lemma jwtExpiry_error: "jwtExpiry t = Inl e \<Longrightarrow> \<not> IsPoison e"
  by (auto simp: jwtExpiry_def Let_def err_simps split: option.splits if_splits)

lemma authenticate_error: "authenticate c st w = (Some e, st', w') \<Longrightarrow> \<not> IsPoison e"
  by (auto simp: authenticate_def err_simps dest: jwtExpiry_error
      split: option.splits prod.splits http_result.splits if_splits sum.splits)

lemma getToken_error: "getToken c st w = (Inl e, st', w') \<Longrightarrow> \<not> IsPoison e"
  by (auto simp: getToken_def Let_def dest: authenticate_error split: option.splits prod.splits if_splits)

lemma client_Do_error: "client_Do client method path body w = (Inl e, w') \<Longrightarrow> \<not> IsPoison e"
  by (cases client)
    (auto simp: internal_Do_def internal_do_def gateway_Do_def gateway_do_def err_simps
      dest: do_request_error getToken_error split: prod.splits sum.splits)

interpretation client: http_doer "client_Do c" for c
  by unfold_locales (rule client_Do_error)

subsection \<open>The registry\<close>

type_synonym 's handlers = "string \<Rightarrow> 's world handler option"

definition Registry_Lookup :: "'s handlers \<Rightarrow> string \<Rightarrow> 's world handler option" where
  "Registry_Lookup r name = r name"

definition Default :: "'s handlers" where
  "Default = map_of
     [(''order-sync@v1'', Forward ServiceInternal), (''order-sync@v2'', Forward ServiceInternal),
      (''product-sync'', Forward ServiceInternal), (''billing-sync'', Forward ServiceInternal),
      (''gateway-sync'', Forward ServiceGateway)]"

end
