(* ===== verification/Wiring.thy ===== *)
theory Wiring
  imports Middleware Handlers
begin

section \<open>cmd/dasher/main.go: building the lookups and the handlers of the bindings\<close>

text \<open>
  The catalog of lookups is built once; each binding gets a chain of handlers. A Go map is the
  list of its entries in the order \<^verbatim>\<open>range\<close> visits them.
\<close>

definition lookup_spec :: "LookupSpecRaw \<Rightarrow> int \<Rightarrow> Spec" where
  "lookup_spec raw ttl =
     \<lparr>spec_Type = raw_Type raw, spec_TTL = ttl, spec_Raw = [(''sql'', VStr (raw_SQL raw))]\<rparr>"

text \<open>One entry of the catalog: the factory, the time to live, the lookup.\<close>

definition build_lookup ::
  "'s Registry \<Rightarrow> Services \<Rightarrow> string \<Rightarrow> LookupSpecRaw \<Rightarrow> 's world \<Rightarrow> Lookup result \<times> 's world" where
  "build_lookup reg svc name raw w =
     (case reg (raw_Type raw) of
        None \<Rightarrow> (Inl (Errorf [Lit ''lookup '', Q name, Lit '': unknown type '', Q (raw_Type raw)]), w)
      | Some factory \<Rightarrow>
          (case (if raw_TTL raw = [] then Some 0 else parse_duration (raw_TTL raw)) of
             None \<Rightarrow> (Inl (Errorf [Lit ''lookup '', Q name, Lit '': invalid ttl '', Q (raw_TTL raw), Lit '': '',
                            W (External ''time'')]), w)
           | Some ttl \<Rightarrow>
               (case factory (lookup_spec raw ttl) \<lparr>dep_Pool = DB svc\<rparr> w of
                  (Inl e, w') \<Rightarrow> (Inl (Errorf [Lit ''lookup '', Q name, Lit '': '', W e]), w')
                | (Inr l, w') \<Rightarrow> (Inr l, w'))))"

fun build_catalog ::
  "'s Registry \<Rightarrow> Services \<Rightarrow> (string \<times> LookupSpecRaw) list \<Rightarrow> (string \<times> Lookup) list \<Rightarrow> 's world \<Rightarrow>
     (string \<times> Lookup) list result \<times> 's world" where
  "build_catalog reg svc [] out w = (Inr out, w)"
| "build_catalog reg svc ((name, raw) # rest) out w =
     (case build_lookup reg svc name raw w of
        (Inl e, w') \<Rightarrow> (Inl e, w')
      | (Inr l, w') \<Rightarrow> build_catalog reg svc rest (map_put name l out) w')"

definition buildLookupCatalog ::
  "'s Registry \<Rightarrow> InstanceConfig \<Rightarrow> Services \<Rightarrow> 's world \<Rightarrow> (string \<times> Lookup) list result \<times> 's world" where
  "buildLookupCatalog reg inst svc w = build_catalog reg svc (ic_Lookups inst) [] w"

fun build_rules ::
  "(string \<times> Lookup) list \<Rightarrow> EnrichRuleConfig list \<Rightarrow> EnrichRule list result" where
  "build_rules catalog [] = Inr []"
| "build_rules catalog (rule # rules) =
     (case map_of catalog (er_Lookup rule) of
        None \<Rightarrow> Inl (Errorf [Lit ''enrich references unknown lookup '', Q (er_Lookup rule)])
      | Some l \<Rightarrow> and_then (build_rules catalog rules) (\<lambda>rs.
          Inr (\<lparr>LookupName = er_Lookup rule, rule_Lookup = l, Bind = er_Bind rule, Into = er_Into rule\<rparr> # rs)))"

definition buildHandler ::
  "StreamBinding \<Rightarrow> 's handlers \<Rightarrow> 's redis \<Rightarrow> Producer \<Rightarrow> (string \<times> Lookup) list \<Rightarrow> 's world handler result" where
  "buildHandler b reg r p catalog =
     (case (if sb_Handler b = [] then Some Noop else Registry_Lookup reg (sb_Handler b)) of
        None \<Rightarrow> Inl (Errorf [Lit ''unknown handler '', Q (sb_Handler b)])
      | Some base \<Rightarrow>
          let h = (if sb_Emit b \<noteq> [] then EmitAfter (Emit r p) (sb_Emit b) base else base)
          in if sb_Enrich b \<noteq> [] then
               (case build_rules catalog (sb_Enrich b) of
                  Inl e \<Rightarrow> Inl e
                | Inr rules \<Rightarrow> Inr (Enrich rules h))
             else Inr h)"

end
