(* ===== verification/Consume.thy ===== *)
theory Consume
  imports Redis Envelope
begin

section \<open>internal/consume: the consumer of one stream\<close>

text \<open>
  The consumer-group loop of \<^verbatim>\<open>consume.go\<close>. A loop that may run for ever is a partial function to
  an option: \<^term>\<open>None\<close> is a run that does not return. The commands are those of the parameter \<open>r\<close>.
  Waiting in a \<^verbatim>\<open>select\<close> for a timer or the end of the context is a look at the context.
\<close>

subsection \<open>The consumer\<close>

record 's Consumer =
  c_stream :: string
  c_group :: string
  c_name :: string
  c_handler :: "'s world handler"
  c_inst :: InstanceContext
  c_policy :: policy
  c_escalateAfter :: int
  c_block :: int
  c_count :: int
  c_reclaimMinIdle :: int
  c_reclaimInterval :: int
  c_consumerGCInterval :: int
  c_consumerGCTimeout :: int
  c_heartbeatInterval :: int

type_synonym 's Option = "'s Consumer \<Rightarrow> 's Consumer"

definition WithReclaimMinIdle :: "int \<Rightarrow> 's Option" where
  "WithReclaimMinIdle d c = c\<lparr>c_reclaimMinIdle := d\<rparr>"

definition WithReclaimInterval :: "int \<Rightarrow> 's Option" where
  "WithReclaimInterval d c = c\<lparr>c_reclaimInterval := d\<rparr>"

definition WithBlockDuration :: "int \<Rightarrow> 's Option" where
  "WithBlockDuration d c = c\<lparr>c_block := d\<rparr>"

definition WithConsumerGCInterval :: "int \<Rightarrow> 's Option" where
  "WithConsumerGCInterval d c = c\<lparr>c_consumerGCInterval := d\<rparr>"

definition WithConsumerGCTimeout :: "int \<Rightarrow> 's Option" where
  "WithConsumerGCTimeout d c = c\<lparr>c_consumerGCTimeout := d\<rparr>"

definition WithHeartbeatInterval :: "int \<Rightarrow> 's Option" where
  "WithHeartbeatInterval d c = c\<lparr>c_heartbeatInterval := d\<rparr>"

lemmas option_defs = WithReclaimMinIdle_def WithReclaimInterval_def WithBlockDuration_def
  WithConsumerGCInterval_def WithConsumerGCTimeout_def WithHeartbeatInterval_def

definition New_Consumer ::
  "string \<Rightarrow> string \<Rightarrow> string \<Rightarrow> 's world handler \<Rightarrow> InstanceContext \<Rightarrow> policy \<Rightarrow> int \<Rightarrow> 's Option list \<Rightarrow> 's Consumer" where
  "New_Consumer stream grp name h inst policy escalateAfter opts =
     (let c = \<lparr>c_stream = stream, c_group = grp, c_name = name, c_handler = h, c_inst = inst,
               c_policy = policy, c_escalateAfter = escalateAfter,
               c_block = 2 * second, c_count = 10,
               c_reclaimMinIdle = 30 * second, c_reclaimInterval = 5 * second,
               c_consumerGCInterval = 5 * minute, c_consumerGCTimeout = 10 * minute,
               c_heartbeatInterval = 0\<rparr>;
          c = fold (\<lambda>opt. opt) opts c
      in if c_heartbeatInterval c \<le> 0
         then c\<lparr>c_heartbeatInterval := quot2 (c_reclaimMinIdle c)\<rparr> else c)"

definition canceled :: error where
  "canceled = Sentinel ContextCanceled"

subsection \<open>process: one entry\<close>

partial_function (option) ack_loop ::
  "'s redis \<Rightarrow> 's Consumer \<Rightarrow> string \<Rightarrow> 's world \<Rightarrow> (error option \<times> 's world) option" where
  "ack_loop r c mid w =
     (case on_server (XAck r (c_stream c) (c_group c) mid) w of
        (err, w1) \<Rightarrow>
          if err = None then Some (None, w1)
          else (case ctx_done w1 of
            (over, w2) \<Rightarrow>
              if over then Some (Some canceled, w2)
              else (case ctx_done w2 of
                (over', w3) \<Rightarrow> if over' then Some (Some canceled, w3) else ack_loop r c mid w3)))"

definition initial_backoff :: int where
  "initial_backoff = 100 * millisecond"

definition next_backoff :: "int \<Rightarrow> int" where
  "next_backoff b = (if b < 30 * second then b * 2 else b)"

definition retry_level :: "'s Consumer \<Rightarrow> int \<Rightarrow> level" where
  "retry_level c retries = (if retries \<ge> c_escalateAfter c then LevelError else LevelWarn)"

definition poison_error :: "string \<Rightarrow> error \<Rightarrow> error" where
  "poison_error mid herr = Errorf [Lit ''poison '', Lit mid, Lit '': '', W herr]"

partial_function (option) handle_loop ::
  "'s redis \<Rightarrow> 's Consumer \<Rightarrow> string \<Rightarrow> Event \<Rightarrow> int \<Rightarrow> int \<Rightarrow> 's world \<Rightarrow> (hresult \<times> 's world) option" where
  "handle_loop r c mid evt backoff retries w =
     (case c_handler c (c_inst c) evt w of
        (res, w1) \<Rightarrow>
          (case res of
             Panicked p \<Rightarrow> Some (Panicked p, w1)
           | Returned herr \<Rightarrow>
               (case herr of
                  None \<Rightarrow> map_option (\<lambda>(err, w2). (Returned err, w2)) (ack_loop r c mid w1)
                | Some e \<Rightarrow>
                    if IsPoison e then Some (Returned (c_policy c (c_stream c) (poison_error mid e)), w1)
                    else (case ctx_done w1 of
                      (over, w2) \<Rightarrow>
                        if over then Some (Returned (Some canceled), w2)
                        else (case ctx_done (w2\<lparr>retry_log := retry_log w2 @ [(retry_level c (retries + 1), backoff)]\<rparr>) of
                          (over', w3) \<Rightarrow>
                            if over' then Some (Returned (Some canceled), w3)
                            else handle_loop r c mid evt (next_backoff backoff) (retries + 1) w3)))))"

definition malformed_error :: "string \<Rightarrow> error \<Rightarrow> error" where
  "malformed_error mid e = Errorf [Lit ''malformed envelope '', Lit mid, Lit '': '', W e]"

definition panic_error :: "string \<Rightarrow> string \<Rightarrow> error" where
  "panic_error mid p = Errorf [Lit ''panic in handler '', Lit mid, Lit '': '', V (External p)]"

definition process :: "'s redis \<Rightarrow> 's Consumer \<Rightarrow> XMessage \<Rightarrow> 's world \<Rightarrow> (error option \<times> 's world) option" where
  "process r c m w =
     (case Parse (msg_ID m) (msg_Values m) of
        Inl e \<Rightarrow> Some (c_policy c (c_stream c) (malformed_error (msg_ID m) e), w)
      | Inr evt \<Rightarrow>
          (case handle_loop r c (msg_ID m) evt initial_backoff 0 (w\<lparr>inFlight := Some (msg_ID m)\<rparr>) of
             None \<Rightarrow> None
           | Some (Returned err, w') \<Rightarrow> Some (err, w'\<lparr>inFlight := None\<rparr>)
           | Some (Panicked p, w') \<Rightarrow>
               Some (c_policy c (c_stream c) (panic_error (msg_ID m) p), w'\<lparr>inFlight := None\<rparr>)))"

fun process_all ::
  "'s redis \<Rightarrow> 's Consumer \<Rightarrow> XMessage list \<Rightarrow> 's world \<Rightarrow> (error option \<times> 's world) option" where
  "process_all r c [] w = Some (None, w)"
| "process_all r c (m # ms) w =
     (case process r c m w of
        None \<Rightarrow> None
      | Some (Some e, w') \<Rightarrow> Some (Some e, w')
      | Some (None, w') \<Rightarrow> process_all r c ms w')"

subsection \<open>The group and its pending entries\<close>

definition ensureGroup :: "'s redis \<Rightarrow> 's Consumer \<Rightarrow> 's world \<Rightarrow> error option \<times> 's world" where
  "ensureGroup r c w =
     (case on_server (XGroupCreateMkStream r (c_stream c) (c_group c) ''$'') w of
        (None, w') \<Rightarrow> (None, w')
      | (Some msg, w') \<Rightarrow>
          if has_prefix msg ''BUSYGROUP'' then (None, w')
          else (Some (Errorf [Lit ''XGROUP CREATE '', Lit (c_stream c), Lit '': '', W (External msg)]), w'))"

definition xpending_error :: "'s Consumer \<Rightarrow> string \<Rightarrow> error" where
  "xpending_error c msg = Errorf [Lit ''XPENDING '', Lit (c_stream c), Lit '': '', W (External msg)]"

partial_function (option) selfReclaim ::
  "'s redis \<Rightarrow> 's Consumer \<Rightarrow> 's world \<Rightarrow> (error option \<times> 's world) option" where
  "selfReclaim r c w =
     (case on_server (XPendingExt r (c_stream c) (c_group c) 0 ''-'' ''+'' (c_count c) (Some (c_name c))) w of
        (reply, w1) \<Rightarrow>
     (case reply of
        Inl msg \<Rightarrow> Some (Some (xpending_error c msg), w1)
      | Inr xps \<Rightarrow>
          if xps = [] then Some (None, w1)
          else
     (case on_server (XClaim r (c_stream c) (c_group c) (c_name c) 0 (map xp_ID xps)) w1 of
        (claimed, w2) \<Rightarrow>
     (case claimed of
        Inl msg \<Rightarrow> Some (Some (Errorf [Lit ''XCLAIM '', Lit (c_stream c), Lit '': '', W (External msg)]), w2)
      | Inr msgs \<Rightarrow>
          Option.bind (process_all r c msgs w2) (\<lambda>(err, w3).
            if err \<noteq> None then Some (err, w3)
            else if int (length xps) < c_count c then Some (None, w3)
            else selfReclaim r c w3)))))"

text \<open>The entries of others in a page of pending entries.\<close>

definition toClaimIDs :: "'s Consumer \<Rightarrow> XPending list \<Rightarrow> string list" where
  "toClaimIDs c xps = map xp_ID (filter (\<lambda>xp. xp_Consumer xp \<noteq> c_name c) xps)"

definition claim_from_peers ::
  "'s redis \<Rightarrow> 's Consumer \<Rightarrow> string list \<Rightarrow> 's world \<Rightarrow> error option \<times> 's world" where
  "claim_from_peers r c ids w =
     (if ids = [] then (None, w)
      else (case on_server (XClaim r (c_stream c) (c_group c) (c_name c) (c_reclaimMinIdle c) ids) w of
              (Inl msg, w') \<Rightarrow>
                (Some (Errorf [Lit ''XCLAIM peer '', Lit (c_stream c), Lit '': '', W (External msg)]), w')
            | (Inr _, w') \<Rightarrow> (None, w')))"

partial_function (option) peer_loop ::
  "'s redis \<Rightarrow> 's Consumer \<Rightarrow> string \<Rightarrow> 's world \<Rightarrow> (error option \<times> 's world) option" where
  "peer_loop r c start w =
     (case on_server (XPendingExt r (c_stream c) (c_group c) (c_reclaimMinIdle c) start ''+'' (c_count c) None) w of
        (reply, w1) \<Rightarrow>
     (case reply of
        Inl msg \<Rightarrow> Some (Some (xpending_error c msg), w1)
      | Inr xps \<Rightarrow>
          if xps = [] then Some (None, w1)
          else
     (case claim_from_peers r c (toClaimIDs c xps) w1 of
        (err, w2) \<Rightarrow>
          if err \<noteq> None then Some (err, w2)
          else if int (length xps) < c_count c then Some (None, w2)
          else peer_loop r c (''('' @ xp_ID (last xps)) w2)))"

definition peerReclaim :: "'s redis \<Rightarrow> 's Consumer \<Rightarrow> 's world \<Rightarrow> (error option \<times> 's world) option" where
  "peerReclaim r c w = peer_loop r c ''-'' w"

subsection \<open>Dead consumers\<close>

definition is_dead :: "'s Consumer \<Rightarrow> XInfoConsumer \<Rightarrow> bool" where
  "is_dead c xic \<longleftrightarrow> xi_Name xic \<noteq> c_name c \<and> xi_Idle xic \<ge> c_consumerGCTimeout c \<and> xi_Pending xic = 0"

fun gc_all :: "'s redis \<Rightarrow> 's Consumer \<Rightarrow> XInfoConsumer list \<Rightarrow> 's world \<Rightarrow> 's world" where
  "gc_all r c [] w = w"
| "gc_all r c (xic # xics) w =
     (if xi_Name xic = c_name c then gc_all r c xics w
      else if xi_Idle xic \<ge> c_consumerGCTimeout c \<and> xi_Pending xic = 0 then
        (case on_server (XGroupDelConsumer r (c_stream c) (c_group c) (xi_Name xic)) w of
           (_, w') \<Rightarrow> gc_all r c xics w')
      else gc_all r c xics w)"

definition gcConsumers :: "'s redis \<Rightarrow> 's Consumer \<Rightarrow> 's world \<Rightarrow> error option \<times> 's world" where
  "gcConsumers r c w =
     (case on_server (XInfoConsumers r (c_stream c) (c_group c)) w of
        (Inl msg, w') \<Rightarrow>
          (Some (Errorf [Lit ''XINFO CONSUMERS '', Lit (c_stream c), Lit '': '', W (External msg)]), w')
      | (Inr xics, w') \<Rightarrow> (None, gc_all r c xics w'))"

subsection \<open>The background loops, one tick each\<close>

text \<open>
  Each loop waits for its ticker or the end of the context, does its work and goes on; an error is
  logged only. A tick is the work; the loops start with \<^verbatim>\<open>time.NewTicker\<close>, which panics unless its
  interval is positive: \<open>new_ticker\<close>.
\<close>

definition new_ticker :: "int \<Rightarrow> bool" where
  "new_ticker interval \<longleftrightarrow> 0 < interval"

definition tickers_start :: "'s Consumer \<Rightarrow> bool" where
  "tickers_start c \<longleftrightarrow> new_ticker (c_reclaimInterval c) \<and> new_ticker (c_consumerGCInterval c)
     \<and> new_ticker (c_heartbeatInterval c)"

definition reclaim_tick :: "'s redis \<Rightarrow> 's Consumer \<Rightarrow> 's world \<Rightarrow> 's world option" where
  "reclaim_tick r c w = map_option snd (peerReclaim r c w)"

definition gc_tick :: "'s redis \<Rightarrow> 's Consumer \<Rightarrow> 's world \<Rightarrow> 's world" where
  "gc_tick r c w = snd (gcConsumers r c w)"

definition claimFn :: "'s redis \<Rightarrow> 's Consumer \<Rightarrow> string \<Rightarrow> 's world \<Rightarrow> error option \<times> 's world" where
  "claimFn r c mid w =
     (case on_server (XClaimJustID r (c_stream c) (c_group c) (c_name c) 0 [mid]) w of
        (Inl msg, w') \<Rightarrow> (Some (External msg), w')
      | (Inr ids, w') \<Rightarrow> (None, w'))"

definition heartbeat_tick :: "'s redis \<Rightarrow> 's Consumer \<Rightarrow> 's world \<Rightarrow> 's world" where
  "heartbeat_tick r c w =
     (case inFlight w of None \<Rightarrow> w | Some mid \<Rightarrow> snd (claimFn r c mid w))"

subsection \<open>Run\<close>

fun process_streams ::
  "'s redis \<Rightarrow> 's Consumer \<Rightarrow> (string \<times> XMessage list) list \<Rightarrow> 's world \<Rightarrow> (error option \<times> 's world) option" where
  "process_streams r c [] w = Some (None, w)"
| "process_streams r c ((key, ms) # rest) w =
     Option.bind (process_all r c ms w) (\<lambda>(err, w').
       if err \<noteq> None then Some (err, w') else process_streams r c rest w')"

partial_function (option) main_loop ::
  "'s redis \<Rightarrow> 's Consumer \<Rightarrow> 's world \<Rightarrow> (error option \<times> 's world) option" where
  "main_loop r c w =
     (case ctx_done w of
        (over, w1) \<Rightarrow>
          if over then Some (Some canceled, w1)
          else
     Option.bind (selfReclaim r c w1) (\<lambda>(err, w2).
       if err \<noteq> None then Some (err, w2)
       else
     (case on_server (XReadGroup r (c_group c) (c_name c) (c_stream c) (c_count c) (c_block c)) w2 of
        (reply, w3) \<Rightarrow>
     (case reply of
        ReadNil \<Rightarrow> main_loop r c w3
      | ReadErr msg \<Rightarrow>
          (case ctx_done w3 of
             (over', w4) \<Rightarrow>
               if over' then Some (Some canceled, w4)
               else Some (Some (Errorf [Lit ''XREADGROUP '', Lit (c_stream c), Lit '': '', W (External msg)]), w4))
      | ReadOk res \<Rightarrow>
          Option.bind (process_streams r c res w3) (\<lambda>(err', w4).
            if err' \<noteq> None then Some (err', w4) else main_loop r c w4)))))"

text \<open>The loop of one consumer; the background loops run beside it.\<close>

definition Run_Consumer :: "'s redis \<Rightarrow> 's Consumer \<Rightarrow> 's world \<Rightarrow> (error option \<times> 's world) option" where
  "Run_Consumer r c w =
     (case ensureGroup r c w of
        (Some e, w') \<Rightarrow> Some (Some e, w')
      | (None, w') \<Rightarrow> main_loop r c w')"

text \<open>The equations of the loops, by which a concrete run is evaluated.\<close>

declare ack_loop.simps [code] handle_loop.simps [code] selfReclaim.simps [code] peer_loop.simps [code]
  main_loop.simps [code]

end
