(* ===== verification/Consume_Process.thy ===== *)
theory Consume_Process
  imports Consume
begin

section \<open>What processing an entry guarantees\<close>

text \<open>
  The loop of \<open>process\<close> as a relation: a run of transient failures, then one of five ends. The
  loop returns exactly where the relation does, so every guarantee below is read off the relation,
  by rule induction on the run of failures and cases on its end.
\<close>

subsection \<open>The loop as a relation\<close>

definition note_retry :: "'s Consumer \<Rightarrow> int \<Rightarrow> int \<Rightarrow> 's world \<Rightarrow> 's world" where
  "note_retry c n b w = w\<lparr>retry_log := retry_log w @ [(retry_level c n, b)]\<rparr>"

text \<open>\<open>failures c evt k w b n w'\<close>: \<open>k\<close> transient failures in a row, pauses included, lead to \<open>w'\<close>.\<close>

inductive failures ::
  "'s Consumer \<Rightarrow> Event \<Rightarrow> nat \<Rightarrow> int \<Rightarrow> int \<Rightarrow> 's world \<Rightarrow> int \<Rightarrow> int \<Rightarrow> 's world \<Rightarrow> bool"
  for c evt where
  no_failure: "failures c evt 0 b n w b n w"
| one_failure: "c_handler c (c_inst c) evt w = (Returned (Some e), w1) \<Longrightarrow> \<not> IsPoison e \<Longrightarrow>
    ctx_done w1 = (False, w2) \<Longrightarrow> ctx_done (note_retry c (n + 1) b w2) = (False, w3) \<Longrightarrow>
    failures c evt k (next_backoff b) (n + 1) w3 b' n' w' \<Longrightarrow>
    failures c evt (Suc k) b n w b' n' w'"

text \<open>How an attempt ends the loop.\<close>

inductive attempt_ends ::
  "'s redis \<Rightarrow> 's Consumer \<Rightarrow> string \<Rightarrow> Event \<Rightarrow> int \<Rightarrow> int \<Rightarrow> 's world \<Rightarrow> hresult \<Rightarrow> 's world \<Rightarrow> bool"
  for r c mid evt where
  panics: "c_handler c (c_inst c) evt w = (Panicked p, w') \<Longrightarrow>
    attempt_ends r c mid evt b n w (Panicked p) w'"
| handled: "c_handler c (c_inst c) evt w = (Returned None, w1) \<Longrightarrow>
    ack_loop r c mid w1 = Some (err, w') \<Longrightarrow> attempt_ends r c mid evt b n w (Returned err) w'"
| poison: "c_handler c (c_inst c) evt w = (Returned (Some e), w') \<Longrightarrow> IsPoison e \<Longrightarrow>
    attempt_ends r c mid evt b n w (Returned (c_policy c (c_stream c) (poison_error mid e))) w'"
| canceled_at_once: "c_handler c (c_inst c) evt w = (Returned (Some e), w1) \<Longrightarrow> \<not> IsPoison e \<Longrightarrow>
    ctx_done w1 = (True, w') \<Longrightarrow> attempt_ends r c mid evt b n w (Returned (Some canceled)) w'"
| canceled_in_pause: "c_handler c (c_inst c) evt w = (Returned (Some e), w1) \<Longrightarrow> \<not> IsPoison e \<Longrightarrow>
    ctx_done w1 = (False, w2) \<Longrightarrow> ctx_done (note_retry c (n + 1) b w2) = (True, w') \<Longrightarrow>
    attempt_ends r c mid evt b n w (Returned (Some canceled)) w'"

inductive_cases attempt_ends_ReturnedE: "attempt_ends r c mid evt b n w (Returned err) w'"
inductive_cases attempt_ends_PanickedE: "attempt_ends r c mid evt b n w (Panicked p) w'"

inductive_simps failures_0 [simp]: "failures c evt 0 b n w b' n' w'"
inductive_simps failures_Suc: "failures c evt (Suc k) b n w b' n' w'"

lemma handle_loop_sound:
  assumes "handle_loop r c mid evt b n w = Some x"
  shows "\<exists>k b' n' w1. failures c evt k b n w b' n' w1 \<and> attempt_ends r c mid evt b' n' w1 (fst x) (snd x)"
proof (induction rule: handle_loop.raw_induct [OF _ assms,
    where P = "\<lambda>r c mid evt b n w x. \<exists>k b' n' w1. failures c evt k b n w b' n' w1
      \<and> attempt_ends r c mid evt b' n' w1 (fst x) (snd x)"])
    case (1 rec r c mid evt b n w x)
    obtain res w1 where h: "c_handler c (c_inst c) evt w = (res, w1)" by fastforce
    have stop: ?case if "attempt_ends r c mid evt b n w (fst x) (snd x)"
      using that failures.no_failure by blast
    show ?case
    proof (cases res)
      case (Panicked p)
      with h 1(2) have "x = (Panicked p, w1)" by simp
      with h Panicked show ?thesis by (intro stop) (simp add: attempt_ends.panics)
    next
      case (Returned herr)
      show ?thesis
      proof (cases herr)
        case None
        with h Returned 1(2) show ?thesis by (intro stop) (auto intro: attempt_ends.handled)
      next
        case (Some e)
        show ?thesis
        proof (cases "IsPoison e")
          case True
          with h Returned Some 1(2) show ?thesis by (intro stop) (auto intro: attempt_ends.poison)
        next
          case False
          note h = h [unfolded Returned Some]
          obtain over w2 where d1: "ctx_done w1 = (over, w2)" by fastforce
          obtain over' w3 where d2: "ctx_done (note_retry c (n + 1) b w2) = (over', w3)" by fastforce
          note body = 1(2) [unfolded h split_conv prod.case hresult.case option.case d1 note_retry_def [symmetric] d2]
          show ?thesis
          proof (cases over)
            case True
            with body False d1 h show ?thesis
              by (intro stop) (auto simp: d2 intro: attempt_ends.canceled_at_once)
          next
            case nover: False
            show ?thesis
            proof (cases over')
              case True
              with body nover False d1 d2 h show ?thesis
                by (intro stop) (auto intro: attempt_ends.canceled_in_pause)
            next
              case nover': False
              with body nover False d2 have "rec r c mid evt (next_backoff b) (n + 1) w3 = Some x" by simp
              from 1(1) [OF this] obtain k b' n' w4
                where "failures c evt k (next_backoff b) (n + 1) w3 b' n' w4"
                  "attempt_ends r c mid evt b' n' w4 (fst x) (snd x)" by blast
              with d1 d2 nover nover' failures.one_failure [OF h False, of w2 n b w3 k b' n' w4]
              have "failures c evt (Suc k) b n w b' n' w4" by simp
              with \<open>attempt_ends r c mid evt b' n' w4 (fst x) (snd x)\<close> show ?thesis by blast
            qed
          qed
        qed
      qed
    qed
  qed

lemma attempt_ends_complete:
  "attempt_ends r c mid evt b n w res w' \<Longrightarrow> handle_loop r c mid evt b n w = Some (res, w')"
  by (induction rule: attempt_ends.induct) (simp_all add: handle_loop.simps note_retry_def)

lemma handle_loop_complete:
  "failures c evt k b n w b' n' w1 \<Longrightarrow> attempt_ends r c mid evt b' n' w1 res w' \<Longrightarrow>
     handle_loop r c mid evt b n w = Some (res, w')"
proof (induction rule: failures.induct)
  case (one_failure w e w1 w2 n b w3 k b' n' w')
  then show ?case by (subst handle_loop.simps) (simp add: note_retry_def)
qed (rule attempt_ends_complete)

lemma handle_loop_iff:
  "handle_loop r c mid evt b n w = Some (res, w') \<longleftrightarrow>
     (\<exists>k b' n' w1. failures c evt k b n w b' n' w1 \<and> attempt_ends r c mid evt b' n' w1 res w')"
proof
  assume "handle_loop r c mid evt b n w = Some (res, w')"
  from handle_loop_sound [OF this]
  show "\<exists>k b' n' w1. failures c evt k b n w b' n' w1 \<and> attempt_ends r c mid evt b' n' w1 res w'" by simp
qed (blast intro: handle_loop_complete)

subsection \<open>Acknowledging\<close>

lemma ack_loop_result:
  assumes "ack_loop r c mid w = Some x"
  shows "if fst x = None then \<exists>s. XAck r (c_stream c) (c_group c) mid s = (None, srv (snd x))
    else fst x = Some canceled"
proof (induction rule: ack_loop.raw_induct [OF _ assms,
    where P = "\<lambda>r c mid w x. if fst x = None
      then \<exists>s. XAck r (c_stream c) (c_group c) mid s = (None, srv (snd x)) else fst x = Some canceled"])
  case (1 rec r c mid w x)
  obtain err s' where x: "XAck r (c_stream c) (c_group c) mid (srv w) = (err, s')" by fastforce
  show ?case
  proof (cases err)
    case None
    with x 1(2) have "x = (None, w\<lparr>srv := s'\<rparr>)" by (simp add: on_server_eq)
    with x None show ?thesis by auto
  next
    case (Some e)
    obtain over w2 where d1: "ctx_done (w\<lparr>srv := s'\<rparr>) = (over, w2)" by fastforce
    obtain over' w3 where d2: "ctx_done w2 = (over', w3)" by fastforce
    from 1(2) x Some d1 d2 have "x = (Some canceled, w2) \<or> x = (Some canceled, w3) \<or> rec r c mid w3 = Some x"
      by (auto simp: on_server_eq split: if_splits)
    then show ?thesis using 1(1) [of r c mid w3 x] by auto
  qed
qed

lemma ack_loop_first: 
  "XAck r (c_stream c) (c_group c) mid (srv w) = (None, s') \<Longrightarrow> ack_loop r c mid w = Some (None, w\<lparr>srv := s'\<rparr>)"
  by (subst ack_loop.simps) (simp add: on_server_eq)

text \<open>The handler succeeded on the event and the entry was acknowledged after it.\<close>

definition handled_and_acked :: "'s redis \<Rightarrow> 's Consumer \<Rightarrow> XMessage \<Rightarrow> 's world \<Rightarrow> bool" where
  "handled_and_acked r c m w' \<longleftrightarrow>
     (\<exists>evt w0 w1 w2. Parse (msg_ID m) (msg_Values m) = Inr evt
        \<and> c_handler c (c_inst c) evt w0 = (Returned None, w1)
        \<and> ack_loop r c (msg_ID m) w1 = Some (None, w2)
        \<and> (\<exists>s. XAck r (c_stream c) (c_group c) (msg_ID m) s = (None, srv w'))
        \<and> w' = w2\<lparr>inFlight := None\<rparr>)"

lemma process_cases:
  assumes "process r c m w = Some (err, w')"
  obtains (malformed) e where "Parse (msg_ID m) (msg_Values m) = Inl e"
      "err = c_policy c (c_stream c) (malformed_error (msg_ID m) e)" "w' = w"
  | (ended) evt k b n w1 res w2 where "Parse (msg_ID m) (msg_Values m) = Inr evt"
      "failures c evt k initial_backoff 0 (w\<lparr>inFlight := Some (msg_ID m)\<rparr>) b n w1"
      "attempt_ends r c (msg_ID m) evt b n w1 res w2" "w' = w2\<lparr>inFlight := None\<rparr>"
      "err = (case res of Returned e \<Rightarrow> e | Panicked p \<Rightarrow> c_policy c (c_stream c) (panic_error (msg_ID m) p))"
proof (cases "Parse (msg_ID m) (msg_Values m)")
  case (Inl e)
  with assms malformed show ?thesis by (simp add: process_def)
next
  case (Inr evt)
  from assms obtain res w2 where
    "handle_loop r c (msg_ID m) evt initial_backoff 0 (w\<lparr>inFlight := Some (msg_ID m)\<rparr>) = Some (res, w2)"
    and "w' = w2\<lparr>inFlight := None\<rparr>"
    and "err = (case res of Returned e \<Rightarrow> e | Panicked p \<Rightarrow> c_policy c (c_stream c) (panic_error (msg_ID m) p))"
    by (auto simp: process_def Inr split: option.splits hresult.splits)
  with handle_loop_sound [OF this(1)] ended [OF Inr] show ?thesis by auto
qed

context fail_loud_policy
begin

text \<open>Under a policy that never swallows an error, nil means handled and acknowledged.\<close>

lemma nil_means_acked:
  assumes "c_policy c = on_fatal" and run: "process r c m w = Some (None, w')"
  shows "handled_and_acked r c m w'"
  using run
proof (cases rule: process_cases)
  case (malformed e)
  with assms(1) show ?thesis by (simp add: propagates)
next
  case (ended evt k b n w1 res w2)
  show ?thesis
  proof (cases res)
    case (Panicked p)
    with ended assms(1) show ?thesis by (simp add: propagates)
  next
    case (Returned e)
    with ended have "attempt_ends r c (msg_ID m) evt b n w1 (Returned None) w2" by simp
    then obtain w3 where w3: "c_handler c (c_inst c) evt w1 = (Returned None, w3)"
        "ack_loop r c (msg_ID m) w3 = Some (None, w2)"
      by (rule attempt_ends_ReturnedE) (simp_all add: assms(1) propagates canceled_def)
    with ack_loop_result [OF w3(2)] ended(1,4) show ?thesis
      unfolding handled_and_acked_def by fastforce
  qed
qed

end

end
