(* ===== verification/Handler_Frame.thy ===== *)
theory Handler_Frame
  imports Wiring Consume_Process
begin

section \<open>What the handlers of the program leave alone\<close>

text \<open>
  A consumer relies on its handler not to touch the consumer's own state: the look at the context,
  the record of retries, the pending entries of the group. The two contracts are locales; the
  handlers the program builds satisfy them: the forwarding handler and the empty one directly, the
  wrapped ones because wrapping keeps the contract.
\<close>

subsection \<open>The contracts\<close>

locale quiet_handler =
  fixes h :: "'s world handler"
  assumes quiet: "h inst evt w = (res, w') \<Longrightarrow>
    retry_log w' = retry_log w \<and> polls w' = polls w \<and> poll_n w' = poll_n w"
begin

text \<open>The pauses of a run of failures, and the levels they are logged at.\<close>

lemma failures_schedule:
  "failures c evt k b n w b' n' w' \<Longrightarrow> c_handler c = h \<Longrightarrow>
     retry_log w' = retry_log w @ map (\<lambda>i. (retry_level c (n + int i + 1), (next_backoff ^^ i) b)) [0..<k]
     \<and> b' = (next_backoff ^^ k) b \<and> n' = n + int k"
proof (induction rule: failures.induct)
  case (one_failure w e w1 w2 n b w3 k b' n' w')
  have w3: "retry_log w3 = retry_log w @ [(retry_level c (n + 1), b)]"
    using quiet [of "c_inst c" evt w] one_failure.hyps one_failure.prems
    by (auto simp: ctx_done_def note_retry_def)
  have up: "[0..<Suc k] = 0 # map Suc [0..<k]" by (simp add: map_Suc_upt upt_conv_Cons)
  show ?case
    using one_failure.IH [OF one_failure.prems]
    by (simp add: w3 up comp_def funpow_swap1 algebra_simps del: upt_Suc)
qed simp

text \<open>A context that is done ends the loop after one attempt.\<close>

lemma done_ends:
  assumes "c_handler c = h" and "\<And>i. poll_n w \<le> i \<Longrightarrow> polls w i"
  shows "\<exists>x. handle_loop r c mid evt b n w = Some x"
proof -
  obtain res w1 where hd: "c_handler c (c_inst c) evt w = (res, w1)" by fastforce
  with quiet [of "c_inst c" evt w res w1] assms have polls: "polls w1 (poll_n w1)" by auto
  then have ctx: "ctx_done w1 = (True, w1\<lparr>poll_n := Suc (poll_n w1)\<rparr>)" by (simp add: ctx_done_def)
  show ?thesis
  proof (cases "XAck r (c_stream c) (c_group c) mid (srv w1)")
    case (Pair err s')
    have "\<exists>y. ack_loop r c mid w1 = Some y"
      using polls Pair by (subst ack_loop.simps) (simp add: on_server_eq ctx_done_def)
    then show ?thesis
      by (subst handle_loop.simps) (auto simp: hd ctx split: hresult.splits option.splits)
  qed
qed

end

locale pending_keeper =
  fixes h :: "'s world handler" and P :: "'s \<Rightarrow> bool"
  assumes keeps_pending: "h inst evt w = (res, w') \<Longrightarrow> P (srv w) \<Longrightarrow> P (srv w')"
begin

lemma attempt_keeps:
  "c_handler c = h \<Longrightarrow> c_handler c inst evt w = (res, w') \<Longrightarrow> P (srv w) \<Longrightarrow> P (srv w')"
  using keeps_pending by metis

lemma failures_keep: "failures c evt k b n w b' n' w' \<Longrightarrow> c_handler c = h \<Longrightarrow> P (srv w) \<Longrightarrow> P (srv w')"
proof (induction rule: failures.induct)
  case (one_failure w e w1 w2 n b w3 k b' n' w')
  then have "P (srv w1)" using attempt_keeps by blast
  moreover have "srv w3 = srv w1" using one_failure.hyps by (auto simp: ctx_done_def note_retry_def)
  ultimately show ?case using one_failure by simp
qed simp

lemma end_keeps:
  assumes "attempt_ends r c mid evt b n w res w'" "c_handler c = h" "P (srv w)"
  shows "P (srv w') \<or> (\<exists>w1 err. c_handler c (c_inst c) evt w = (Returned None, w1)
    \<and> ack_loop r c mid w1 = Some (err, w') \<and> res = Returned err)"
  using assms(1)
proof (cases rule: attempt_ends.cases)
  case (canceled_at_once e w1)
  then have "srv w' = srv w1" by (auto simp: ctx_done_def)
  with attempt_keeps [OF assms(2) _ assms(3)] canceled_at_once show ?thesis by metis
next
  case (canceled_in_pause e w1 w2)
  then have "srv w' = srv w1" by (auto simp: ctx_done_def note_retry_def)
  with attempt_keeps [OF assms(2) _ assms(3)] canceled_in_pause show ?thesis by metis
qed (use attempt_keeps [OF assms(2) _ assms(3)] in blast)+

text \<open>Whatever processing an entry does, it stays pending or its handler has succeeded.\<close>

lemma process_keeps:
  assumes "c_handler c = h" "P (srv w)" "process r c m w = Some (err, w')"
  shows "P (srv w') \<or> (\<exists>evt k back n w0 w1 w2. Parse (msg_ID m) (msg_Values m) = Inr evt
    \<and> failures c evt k initial_backoff 0 (w\<lparr>inFlight := Some (msg_ID m)\<rparr>) back n w0
    \<and> c_handler c (c_inst c) evt w0 = (Returned None, w1)
    \<and> ack_loop r c (msg_ID m) w1 = Some (err, w2) \<and> w' = w2\<lparr>inFlight := None\<rparr>)"
  using assms(3)
proof (cases rule: process_cases)
  case (malformed e)
  with assms(2) show ?thesis by simp
next
  case (ended evt k b n w1 res w2)
  from failures_keep [OF ended(2) assms(1)] assms(2) have "P (srv w1)" by simp
  from end_keeps [OF ended(3) assms(1) this] show ?thesis
  proof
    assume "P (srv w2)"
    with ended(4) show ?thesis by simp
  next
    assume "\<exists>w3 e. c_handler c (c_inst c) evt w1 = (Returned None, w3)
      \<and> ack_loop r c (msg_ID m) w3 = Some (e, w2) \<and> res = Returned e"
    then obtain w3 where "c_handler c (c_inst c) evt w1 = (Returned None, w3)" "ack_loop r c (msg_ID m) w3 = Some (err, w2)"
      using ended(5) by auto
    with ended(1,2,4) show ?thesis by blast
  qed
qed

end

subsection \<open>The handlers of the program\<close>

lemma do_request_frame:
  "do_request method url headers body w = (r, w') \<Longrightarrow> w' = w \<or> (\<exists>l. w' = w\<lparr>http_log := l\<rparr>)"
  by (auto simp: do_request_def http_send_def split: option.splits prod.splits http_result.splits)

definition client_frame :: "'s world \<Rightarrow> 's world \<Rightarrow> bool" where
  "client_frame w w' \<longleftrightarrow> srv w' = srv w \<and> retry_log w' = retry_log w \<and> polls w' = polls w
     \<and> poll_n w' = poll_n w \<and> inFlight w' = inFlight w"

lemma client_Do_frame: "client_Do c method path body w = (r, w') \<Longrightarrow> client_frame w w'"
proof (cases c)
  case (DoInternal ic)
  then show "client_Do c method path body w = (r, w') \<Longrightarrow> ?thesis"
    by (auto simp: internal_Do_def internal_do_def client_frame_def dest!: do_request_frame)
next
  case (DoGateway gc)
  have auth: "authenticate gc st v = (e, st', v') \<Longrightarrow> v' = v \<or> (\<exists>l. v' = v\<lparr>http_log := l\<rparr>)" for st v e st' v'
    by (auto simp: authenticate_def http_send_def split: option.splits http_result.splits if_splits sum.splits)
  have tok: "getToken gc st v = (t, st', v') \<Longrightarrow> client_frame v v'" for st v t st' v'
    by (auto simp: getToken_def time_now_def client_frame_def Let_def
        split: prod.splits if_splits option.splits dest!: auth)
  assume "client_Do c method path body w = (r, w')"
  with DoGateway show ?thesis
    by (auto simp: gateway_Do_def gateway_do_def client_frame_def
        split: prod.splits sum.splits dest!: do_request_frame tok)
qed

lemma forward_frame: "Forward svc inst evt w = (res, w') \<Longrightarrow> client_frame w w'"
  by (auto simp: Forward_def forward_to_def split: option.splits prod.splits sum.splits dest: client_Do_frame)
    (simp_all add: client_frame_def)

lemma Run_frame: "Run rules data old w = (r, w') \<Longrightarrow> client_frame w w'"
proof -
  have "run_rules rules data old m w = (r, w') \<Longrightarrow> lookup_frame w w'" for m
    by (induction rules arbitrary: m w)
      (auto split: prod.splits sum.splits dest: rslv.run_rule_frame intro: lookup_frame_trans)
  then show "Run rules data old w = (r, w') \<Longrightarrow> ?thesis"
    by (auto simp: Run_def lookup_frame_def client_frame_def)
qed

lemma client_frame_trans: "client_frame u v \<Longrightarrow> client_frame v w \<Longrightarrow> client_frame u w"
  by (simp add: client_frame_def)

text \<open>Emitting changes the server by one \<^verbatim>\<open>XADD\<close> at most.\<close>

lemma Emit_frame:
  "Emit r p stream evt w = (err, w') \<Longrightarrow>
     client_frame w w' \<or> (\<exists>fs. srv w' = snd (XAdd r stream fs (srv w)) \<and> client_frame (w\<lparr>srv := srv w'\<rparr>) w')"
  by (auto simp: Emit_def client_frame_def on_server_eq split: if_splits sum.splits)

text \<open>One law gives both contracts: a handler is quiet, and moves the server only by \<^verbatim>\<open>XADD\<close>.\<close>

inductive added :: "'s redis \<Rightarrow> 's \<Rightarrow> 's \<Rightarrow> bool" for r where
  added_none: "added r s s"
| added_one: "added r s t \<Longrightarrow> added r s (snd (XAdd r stream fs t))"

lemma added_trans: "added r t u \<Longrightarrow> added r s t \<Longrightarrow> added r s u"
  by (induction rule: added.induct) (auto intro: added.intros)

locale adding_handler =
  fixes h :: "'s world handler" and r :: "'s redis"
  assumes only_adds: "h inst evt w = (res, w') \<Longrightarrow>
    client_frame (w\<lparr>srv := srv w'\<rparr>) w' \<and> added r (srv w) (srv w')"

sublocale adding_handler \<subseteq> quiet_handler h
  by unfold_locales (auto simp: client_frame_def dest: only_adds)

lemma adding_quiet: "adding_handler h r \<Longrightarrow> quiet_handler h"
  by unfold_locales (auto simp: client_frame_def dest: adding_handler.only_adds)

lemma frame_added: "client_frame w w' \<Longrightarrow> client_frame (w\<lparr>srv := srv w'\<rparr>) w' \<and> added r (srv w) (srv w')"
  by (simp add: client_frame_def added.added_none)

interpretation noop: adding_handler Noop r for r
  by unfold_locales (auto simp: Noop_def client_frame_def intro: added.added_none)

interpretation fwd: adding_handler "Forward svc" r for svc r
  by unfold_locales (rule frame_added, rule forward_frame)

lemma adding_EmitAfter:
  assumes "adding_handler inner r"
  shows "adding_handler (EmitAfter (Emit r p) stream inner) r"
proof
  fix inst evt w res w'
  assume run: "EmitAfter (Emit r p) stream inner inst evt w = (res, w')"
  obtain res1 w1 where h: "inner inst evt w = (res1, w1)" by fastforce
  note one = adding_handler.only_adds [OF assms h]
  consider "w' = w1" | err where "Emit r p stream evt w1 = (err, w')"
    using run h by (auto simp: EmitAfter_def split: hresult.splits option.splits prod.splits)
  then show "client_frame (w\<lparr>srv := srv w'\<rparr>) w' \<and> added r (srv w) (srv w')"
  proof cases
    case 2
    from Emit_frame [OF this] one show ?thesis
      by (auto simp: client_frame_def intro: added.intros)
  qed (use one in simp)
qed

lemma adding_Enrich:
  assumes "adding_handler inner r"
  shows "adding_handler (Enrich rules inner) r"
proof
  fix inst evt w res w'
  assume run: "Enrich rules inner inst evt w = (res, w')"
  obtain out w1 where h: "Run rules (Data evt) (Old evt) w = (out, w1)" by fastforce
  note one = Run_frame [OF h]
  consider "w' = w1" | enr where "inner inst (evt\<lparr>Enrichment := Some enr\<rparr>) w1 = (res, w')"
    using run h by (auto simp: Enrich_def split: sum.splits if_splits)
  then show "client_frame (w\<lparr>srv := srv w'\<rparr>) w' \<and> added r (srv w) (srv w')"
  proof cases
    case 2
    from adding_handler.only_adds [OF assms this] one show ?thesis by (simp add: client_frame_def)
  qed (use frame_added [OF one] in simp)
qed

lemma built_handler_adds:
  assumes "buildHandler b Default r p catalog = Inr h"
  shows "adding_handler h r"
proof -
  have base: "adding_handler g r"
    if "(if sb_Handler b = [] then Some Noop else Registry_Lookup Default (sb_Handler b)) = Some g" for g
    using that by (auto simp: Registry_Lookup_def Default_def
        intro: noop.adding_handler_axioms fwd.adding_handler_axioms split: if_splits)
  with assms show ?thesis
    by (auto simp: buildHandler_def Let_def intro!: adding_Enrich adding_EmitAfter
        split: option.splits if_splits sum.splits)
qed

lemma adding_keeps:
  assumes "adding_handler h r" and "\<And>stream fs s. P s \<Longrightarrow> P (snd (XAdd r stream fs s))"
  shows "pending_keeper h P"
proof
  fix inst evt w res w'
  assume "h inst evt w = (res, w')" "P (srv w)"
  with adding_handler.only_adds [OF assms(1)] have "added r (srv w) (srv w')" by blast
  from this \<open>P (srv w)\<close> show "P (srv w')" by (induction rule: added.induct) (auto intro: assms(2))
qed

text \<open>The two handlers that do not emit leave every property of the server alone.\<close>

interpretation noop_keeps: pending_keeper Noop P for P
  by unfold_locales (auto simp: Noop_def)

interpretation forward_keeps: pending_keeper "Forward svc" P for svc P
  by unfold_locales (auto dest: forward_frame simp: client_frame_def)

end
