(* ===== verification/Mini_Redis.thy ===== *)
theory Mini_Redis
  imports Redis
begin

section \<open>A Redis server with one stream and one group\<close>

text \<open>
  A concrete value of the parameter \<open>redis\<close>, for the witnesses: the stream's entries, how many of
  them the group has delivered, and the pending entries with their owners, as the documentation of
  the commands has them: deleting a consumer drops its pending entries. Idle times of entries are not
  kept, every one is idle long enough; those of consumers are part of the state.
\<close>

record mini =
  m_entries :: "XMessage list"
  m_delivered :: nat
  m_pel :: "string list"
  m_owner :: "string \<Rightarrow> string"
  m_consumers :: "XInfoConsumer list"

definition mini_after :: "string \<Rightarrow> string list \<Rightarrow> string list" where
  "mini_after start pel =
     (case start of
        c # mid \<Rightarrow> if c = CHR ''('' then tl (dropWhile (\<lambda>i. i \<noteq> mid) pel) else pel
      | [] \<Rightarrow> pel)"

definition mini_message :: "mini \<Rightarrow> string \<Rightarrow> XMessage" where
  "mini_message s i =
     (case List.find (\<lambda>m. msg_ID m = i) (m_entries s) of
        Some m \<Rightarrow> \<lparr>msg_ID = i, msg_Values = msg_Values m\<rparr>
      | None \<Rightarrow> \<lparr>msg_ID = i, msg_Values = []\<rparr>)"

definition mini_claim :: "string \<Rightarrow> string list \<Rightarrow> mini \<Rightarrow> XMessage list \<times> mini" where
  "mini_claim name ids s =
     (let mine = filter (\<lambda>i. i \<in> set (m_pel s)) ids in
      (map (mini_message s) mine,
       s\<lparr>m_owner := (\<lambda>i. if i \<in> set mine then name else m_owner s i)\<rparr>))"

definition mini_own :: "string \<Rightarrow> mini \<Rightarrow> string list" where
  "mini_own name s = filter (\<lambda>i. m_owner s i = name) (m_pel s)"

definition mini_redis :: "mini redis" where
  "mini_redis = \<lparr>
     XAdd = (\<lambda>stream fs s.
       (None, s\<lparr>m_entries := m_entries s @ [\<lparr>msg_ID = dec_nat (int (length (m_entries s)) + 1) @ ''-0'',
                  msg_Values = fs\<rparr>]\<rparr>)),
     XGroupCreateMkStream = (\<lambda>stream grp start s. (Some ''BUSYGROUP Consumer Group name already exists'', s)),
     XReadGroup = (\<lambda>grp name stream count block s.
       (let new = take (nat count) (drop (m_delivered s) (m_entries s)) in
        if new = [] then (ReadNil, s)
        else (ReadOk [(stream, new)],
              s\<lparr>m_delivered := m_delivered s + length new,
                m_pel := m_pel s @ map msg_ID new,
                m_owner := (\<lambda>i. if i \<in> msg_ID ` set new then name else m_owner s i)\<rparr>))),
     XPendingExt = (\<lambda>stream grp idle start stop count who s.
       (Inr (map (\<lambda>i. \<lparr>xp_ID = i, xp_Consumer = m_owner s i, xp_Idle = idle\<rparr>)
          (take (nat count) (filter (\<lambda>i. case who of None \<Rightarrow> True | Some me \<Rightarrow> m_owner s i = me)
             (mini_after start (m_pel s))))), s)),
     XClaim = (\<lambda>stream grp name idle ids s. (case mini_claim name ids s of (ms, s') \<Rightarrow> (Inr ms, s'))),
     XClaimJustID = (\<lambda>stream grp name idle ids s.
       (case mini_claim name ids s of (ms, s') \<Rightarrow> (Inr (map msg_ID ms), s'))),
     XAck = (\<lambda>stream grp i s. (None, s\<lparr>m_pel := removeAll i (m_pel s)\<rparr>)),
     XInfoConsumers = (\<lambda>stream grp s.
       (Inr (map (\<lambda>x. x\<lparr>xi_Pending := int (length (mini_own (xi_Name x) s))\<rparr>) (m_consumers s)), s)),
     XGroupDelConsumer = (\<lambda>stream grp name s.
       (None, s\<lparr>m_consumers := filter (\<lambda>x. xi_Name x \<noteq> name) (m_consumers s),
                m_pel := filter (\<lambda>i. m_owner s i \<noteq> name) (m_pel s)\<rparr>)) \<rparr>"

definition mini0 :: mini where
  "mini0 = \<lparr>m_entries = [], m_delivered = 0, m_pel = [], m_owner = (\<lambda>_. []), m_consumers = []\<rparr>"

text \<open>The pending entries with their owners.\<close>

definition mini_pending :: "mini \<Rightarrow> (string \<times> string) list" where
  "mini_pending s = map (\<lambda>i. (i, m_owner s i)) (m_pel s)"

end
