(* ===== verification/Consume_Safety.thy ===== *)
theory Consume_Safety
  imports Handler_Frame Mini_Redis
begin

section \<open>At-least-once delivery, back-pressure and shutdown\<close>

text \<open>
  The guarantees of the consumer for the handlers the program builds and the policy it uses. They
  rest on the interpretations of the policy's contract and of the handlers' contracts.
\<close>

subsection \<open>A consumer for the witnesses\<close>

definition no_services :: Services where
  "no_services = \<lparr>Internal = None, Gateway = None, DB = None\<rparr>"

definition one_service :: Services where
  "one_service = \<lparr>Internal = Some \<lparr>ic_baseURL = ''http://svc/'', ic_token = ''t''\<rparr>, Gateway = None, DB = None\<rparr>"

definition demo_config0 :: InstanceConfig where
  "demo_config0 = \<lparr>ic_ID = ''i'',
     ic_Services = \<lparr>svc_Internal = \<lparr>isc_URLEnv = [], isc_TokenEnv = []\<rparr>,
       svc_Gateway = \<lparr>gwc_URLEnv = [], gwc_AppInstanceCodeEnv = [], gwc_APIKeyEnv = []\<rparr>,
       svc_DB = \<lparr>DSNEnv = [], MaxConns = 0\<rparr>\<rparr>, ic_Lookups = [], ic_Streams = []\<rparr>"

definition sync_binding :: StreamBinding where
  "sync_binding = \<lparr>sb_Stream = ''cdc.users'', sb_Scope = [], sb_Handler = ''product-sync'',
     sb_Emit = ''out'', sb_Enrich = []\<rparr>"

definition sync_handler :: "mini world handler" where
  "sync_handler = EmitAfter (Emit mini_redis (New_Producer ''i'')) ''out'' (Forward ServiceInternal)"

lemma sync_handler_built:
  "buildHandler sync_binding Default mini_redis (New_Producer ''i'') [] = Inr sync_handler"
  by (simp add: buildHandler_def sync_binding_def sync_handler_def Registry_Lookup_def Default_def)

definition sync_consumer :: "Services \<Rightarrow> mini Consumer" where
  "sync_consumer svc = New_Consumer ''i.cdc.users'' ''i'' ''pod-1'' sync_handler
     \<lparr>inst_ID = ''i'', inst_Config = demo_config0, inst_Services = svc\<rparr> FailLoud_OnFatal 2 []"

definition demo_message :: XMessage where
  "demo_message = \<lparr>msg_ID = ''1-0'', msg_Values = demo_entry\<rparr>"

definition pending_world :: "mini world" where
  "pending_world = world0 (mini0\<lparr>m_entries := [demo_message], m_delivered := 1, m_pel := [''1-0''], m_owner := (\<lambda>_. ''pod-1'')\<rparr>)"

lemma sync_consumer_fields [simp]:
  "c_handler (sync_consumer svc) = sync_handler" "c_policy (sync_consumer svc) = FailLoud_OnFatal"
  "c_stream (sync_consumer svc) = ''i.cdc.users''" "c_escalateAfter (sync_consumer svc) = 2"
  by (simp_all add: sync_consumer_def New_Consumer_def Let_def)

subsection \<open>Acknowledgement\<close>

text \<open>
  C1. Under the program's policy, \<open>process\<close> returns nil only for an entry that parsed, whose handler
  returned nil, and whose \<^verbatim>\<open>XACK\<close>, sent after that, succeeded as the last thing done to the server:
  no malformed, poisonous, failing, panicking or cancelled entry is skipped.
\<close>

theorem nil_means_handled_and_acked:
  assumes "c_policy c = FailLoud_OnFatal" "process r c m w = Some (None, w')"
  shows "\<exists>evt w0 w1 w2. Parse (msg_ID m) (msg_Values m) = Inr evt
    \<and> c_handler c (c_inst c) evt w0 = (Returned None, w1)
    \<and> ack_loop r c (msg_ID m) w1 = Some (None, w2) \<and> w' = w2\<lparr>inFlight := None\<rparr>
    \<and> (\<exists>s. XAck r (c_stream c) (c_group c) (msg_ID m) s = (None, srv w'))"
  using fail_loud.nil_means_acked [OF assms] unfolding handled_and_acked_def by blast

lemma demo_run:
  "case process mini_redis (sync_consumer one_service) demo_message pending_world of
     Some (e, w') \<Rightarrow> e = None \<and> m_pel (srv w') = [] \<and> length (m_entries (srv w')) = 2
   | None \<Rightarrow> False"
  by code_simp

lemma demo_run_ends:
  obtains w' where "process mini_redis (sync_consumer one_service) demo_message pending_world = Some (None, w')"
    "m_pel (srv w') = []"
  using demo_run by (auto split: option.splits)

theorem nil_means_handled_and_acked_witness:
  "\<exists>w' evt w0 w1 w2. process mini_redis (sync_consumer one_service) demo_message pending_world = Some (None, w')
    \<and> Parse ''1-0'' demo_entry = Inr evt
    \<and> sync_handler (c_inst (sync_consumer one_service)) evt w0 = (Returned None, w1)
    \<and> ack_loop mini_redis (sync_consumer one_service) ''1-0'' w1 = Some (None, w2) \<and> w' = w2\<lparr>inFlight := None\<rparr>"
proof -
  obtain w' where run: "process mini_redis (sync_consumer one_service) demo_message pending_world = Some (None, w')"
    by (rule demo_run_ends)
  from nil_means_handled_and_acked [OF _ run]
  have "\<exists>evt w0 w1 w2. Parse ''1-0'' demo_entry = Inr evt
    \<and> sync_handler (c_inst (sync_consumer one_service)) evt w0 = (Returned None, w1)
    \<and> ack_loop mini_redis (sync_consumer one_service) ''1-0'' w1 = Some (None, w2) \<and> w' = w2\<lparr>inFlight := None\<rparr>"
    by (simp add: demo_message_def) blast
  with run show ?thesis by blast
qed

text \<open>
  C5. At-least-once: for a handler the program builds, and any property \<open>P\<close> of the server that \<^verbatim>\<open>XADD\<close>
  keeps, such as that this entry is pending in the group, \<open>process\<close> either leaves \<open>P\<close> true or its handler
  returned nil on the event in this very run: in the state \<open>w0\<close> in which this run calls it after \<open>k\<close>
  transient failures and the looks at the context between them, and what follows, up to the end of the run,
  is the acknowledgement. So an entry that is malformed, poisonous,
  failing or interrupted stays in the pending list, whatever the policy.
\<close>

theorem pending_until_handled:
  assumes "buildHandler b Default r p catalog = Inr (c_handler c)"
    and "\<And>stream fs s. P s \<Longrightarrow> P (snd (XAdd r stream fs s))"
    and "P (srv w)" "process r c m w = Some (err, w')"
  shows "P (srv w') \<or> (\<exists>evt k back n w0 w1 w2. Parse (msg_ID m) (msg_Values m) = Inr evt
    \<and> failures c evt k initial_backoff 0 (w\<lparr>inFlight := Some (msg_ID m)\<rparr>) back n w0
    \<and> c_handler c (c_inst c) evt w0 = (Returned None, w1)
    \<and> ack_loop r c (msg_ID m) w1 = Some (err, w2) \<and> w' = w2\<lparr>inFlight := None\<rparr>)"
proof -
  have "pending_keeper (c_handler c) P"
    using built_handler_adds [OF assms(1)] by (rule adding_keeps) (rule assms(2))
  from pending_keeper.process_keeps [OF this refl assms(3,4)] show ?thesis .
qed

text \<open>A malformed entry: it is refused, and still pending.\<close>

definition bad_message :: XMessage where
  "bad_message = \<lparr>msg_ID = ''1-0'', msg_Values = [(''op'', VStr ''insert'')]\<rparr>"

theorem pending_until_handled_witness:
  "\<exists>w'. process mini_redis (sync_consumer one_service) bad_message pending_world
        = Some (Some (malformed_error ''1-0'' (Errorf [Lit ''field '', Q ''table'', Lit '': '', W (Sentinel ErrMissingField)])), w')
     \<and> (''1-0'', ''pod-1'') \<in> set (mini_pending (srv w'))"
proof -
  let ?P = "\<lambda>s. (''1-0'', ''pod-1'') \<in> set (mini_pending s)"
  have bad: "Parse ''1-0'' (msg_Values bad_message)
    = Inl (Errorf [Lit ''field '', Q ''table'', Lit '': '', W (Sentinel ErrMissingField)])"
    by (simp add: Parse_def bad_message_def reqStr_def)
  then have run: "process mini_redis (sync_consumer one_service) bad_message pending_world
    = Some (Some (malformed_error ''1-0'' (Errorf [Lit ''field '', Q ''table'', Lit '': '', W (Sentinel ErrMissingField)])), pending_world)"
    by (simp add: process_def bad_message_def FailLoud_OnFatal_def)
  have "?P (srv pending_world)" by (simp add: pending_world_def world0_def mini0_def mini_pending_def)
  from pending_until_handled [where P = ?P and c = "sync_consumer one_service", OF _ _ this run]
  have "?P (srv pending_world)" using sync_handler_built bad by (simp add: mini_redis_def bad_message_def mini_pending_def)
  with run show ?thesis by blast
qed

subsection \<open>Back-pressure\<close>

lemma next_backoff_schedule: "(next_backoff ^^ i) initial_backoff = initial_backoff * 2 ^ min i 9"
proof (induction i)
  case (Suc i)
  have "i < 9 \<Longrightarrow> i = 0 \<or> i = 1 \<or> i = 2 \<or> i = 3 \<or> i = 4 \<or> i = 5 \<or> i = 6 \<or> i = 7 \<or> i = 8" by arith
  then have small: "i < 9 \<Longrightarrow> initial_backoff * 2 ^ i < 30 * second"
    by (auto simp: initial_backoff_def second_def millisecond_def)
  show ?case
  proof (cases "i < 9")
    case True
    with Suc have "(next_backoff ^^ i) initial_backoff = initial_backoff * 2 ^ i" by (simp add: min_def)
    with True small have "(next_backoff ^^ Suc i) initial_backoff = initial_backoff * 2 ^ Suc i"
      by (simp add: next_backoff_def)
    with True show ?thesis by (simp add: min_def)
  next
    case False
    then have m: "min i 9 = 9" "min (Suc i) 9 = 9" by (auto simp: min_def)
    with Suc have "(next_backoff ^^ i) initial_backoff = initial_backoff * 2 ^ 9" by simp
    moreover have "next_backoff (initial_backoff * 2 ^ 9) = initial_backoff * 2 ^ 9"
      by (simp add: next_backoff_def initial_backoff_def second_def millisecond_def)
    ultimately show ?thesis by (simp only: m funpow.simps comp_apply)
  qed
qed simp

definition schedule :: "int \<Rightarrow> nat \<Rightarrow> level \<times> int" where
  "schedule escalateAfter i =
     (if int i + 1 \<ge> escalateAfter then LevelError else LevelWarn, 100000000 * 2 ^ min i 9)"

lemma ack_loop_quiet: "ack_loop r c mid w = Some x \<Longrightarrow> retry_log (snd x) = retry_log w"
proof -
  assume run: "ack_loop r c mid w = Some x"
  show ?thesis
  proof (induction rule: ack_loop.raw_induct [OF _ run,
      where P = "\<lambda>r c mid w x. retry_log (snd x) = retry_log w"])
    case (1 rec r c mid w x)
    let ?w1 = "w\<lparr>srv := snd (XAck r (c_stream c) (c_group c) mid (srv w))\<rparr>"
    obtain over w2 where d1: "ctx_done ?w1 = (over, w2)" by fastforce
    obtain over' w3 where d2: "ctx_done w2 = (over', w3)" by fastforce
    have "retry_log ?w1 = retry_log w" "retry_log w2 = retry_log w" "retry_log w3 = retry_log w"
      using d1 d2 by (auto simp: ctx_done_def)
    moreover have "x = (None, ?w1) \<or> x = (Some canceled, w2) \<or> x = (Some canceled, w3) \<or> rec r c mid w3 = Some x"
      using 1(2) d1 d2 by (auto simp: on_server_eq split: if_splits)
    ultimately show ?case using 1(1) [of r c mid w3 x] by auto
  qed
qed

lemma end_schedule:
  assumes "adding_handler (c_handler c) r" "attempt_ends r c mid evt b n w res w'"
  shows "retry_log w' = retry_log w \<or> retry_log w' = retry_log w @ [(retry_level c (n + 1), b)]"
proof -
  have q: "c_handler c (c_inst c) evt w = (res1, w1) \<Longrightarrow> retry_log w1 = retry_log w" for res1 w1
    using adding_handler.only_adds [OF assms(1), of "c_inst c" evt w res1 w1] by (simp add: client_frame_def)
  from assms(2) show ?thesis
    by (cases rule: attempt_ends.cases)
      (auto simp: ctx_done_def note_retry_def dest!: q ack_loop_quiet)
qed

lemma schedule_step:
  "(retry_level c (int i + 1), (next_backoff ^^ i) initial_backoff) = schedule (c_escalateAfter c) i"
  unfolding next_backoff_schedule by (simp add: retry_level_def schedule_def initial_backoff_def millisecond_def)

text \<open>The level of the retries of one entry never goes back.\<close>

lemma retry_level_mono: "n \<le> m \<Longrightarrow> retry_level c n \<le> retry_level c m"
  by (simp add: retry_level_def less_eq_level_def)

lemma levels_escalate: "sorted (map (\<lambda>i. fst (schedule e i)) [0..<k])"
  by (auto simp: sorted_iff_nth_mono schedule_def less_eq_level_def)

text \<open>
  C27. Back-pressure: processing an entry with a handler the program builds makes some number of
  retries, the \<open>i\<close>-th (from zero) after a pause of 100 ms doubled \<open>min i 9\<close> times, so never more than
  51.2 s, and logged at error level exactly from the configured number of retries on.
\<close>

theorem backoff_schedule:
  assumes "buildHandler b Default r p catalog = Inr (c_handler c)"
    and "process r c m w = Some (err, w')"
  shows "\<exists>k. retry_log w' = retry_log w @ map (schedule (c_escalateAfter c)) [0..<k]"
  using assms(2)
proof (cases rule: process_cases)
  case (malformed e)
  then have "retry_log w' = retry_log w @ map (schedule (c_escalateAfter c)) [0..<0]" by simp
  then show ?thesis by blast
next
  case (ended evt k b n w1 res w2)
  note adds = built_handler_adds [OF assms(1)]
  then have "quiet_handler (c_handler c)" by (rule adding_quiet)
  from quiet_handler.failures_schedule [OF this ended(2) refl]
  have run: "retry_log w1 = retry_log w @ map (schedule (c_escalateAfter c)) [0..<k]"
    "n = int k" "b = (next_backoff ^^ k) initial_backoff"
    by (auto simp: schedule_step)
  from end_schedule [OF adds ended(3)] run(2,3)
  have "retry_log w2 = retry_log w1 \<or> retry_log w2 = retry_log w1 @ map (schedule (c_escalateAfter c)) [k..<Suc k]"
    by (auto simp: schedule_step)
  then have "retry_log w' = retry_log w @ map (schedule (c_escalateAfter c)) [0..<k]
      \<or> retry_log w' = retry_log w @ map (schedule (c_escalateAfter c)) [0..<Suc k]"
    using run(1) ended(4) by auto
  then show ?thesis by blast
qed

text \<open>The service fails twice, then accepts.\<close>

definition flaky_world :: "mini world" where
  "flaky_world = pending_world\<lparr>http_ans := (\<lambda>n. if n < 2 then Response 503 [] else Response 204 [])\<rparr>"

lemma flaky_run:
  "case process mini_redis (sync_consumer one_service) demo_message flaky_world of
     Some (e, w') \<Rightarrow> e = None \<and> retry_log w' = [(LevelWarn, 100000000), (LevelError, 200000000)]
   | None \<Rightarrow> False"
  by code_simp

theorem backoff_schedule_witness:
  "\<exists>w' k. process mini_redis (sync_consumer one_service) demo_message flaky_world = Some (None, w')
     \<and> retry_log w' = map (schedule 2) [0..<k] \<and> k = 2"
proof -
  obtain w' where run: "process mini_redis (sync_consumer one_service) demo_message flaky_world = Some (None, w')"
    and l: "retry_log w' = [(LevelWarn, 100000000), (LevelError, 200000000)]"
    using flaky_run by (auto split: option.splits)
  have start: "retry_log flaky_world = []" by (simp add: flaky_world_def pending_world_def world0_def)
  from backoff_schedule [of sync_binding mini_redis "New_Producer ''i''" "[]", OF _ run]
  obtain k where "retry_log w' = map (schedule 2) [0..<k]" by (auto simp: sync_handler_built start)
  moreover from this have "length (retry_log w') = k" by simp
  with l have "k = 2" by simp
  ultimately show ?thesis using run by blast
qed

subsection \<open>Shutdown\<close>

text \<open>
  Once the context is done, processing an entry returns: with a handler the program builds, at
  most one more attempt is made and at most one more \<^verbatim>\<open>XACK\<close>, so the loops that retry for ever
  cannot keep the process from stopping.
\<close>

lemma done_context_stops:
  assumes "buildHandler b Default r p catalog = Inr (c_handler c)"
    and "\<And>i. poll_n w \<le> i \<Longrightarrow> polls w i"
  shows "\<exists>err w'. process r c m w = Some (err, w')"
proof -
  have "quiet_handler (c_handler c)" using built_handler_adds [OF assms(1)] by (rule adding_quiet)
  from quiet_handler.done_ends [OF this refl, of "w\<lparr>inFlight := Some (msg_ID m)\<rparr>"] assms(2)
  have "\<exists>x. handle_loop r c (msg_ID m) evt initial_backoff 0 (w\<lparr>inFlight := Some (msg_ID m)\<rparr>) = Some x" for evt
    by simp
  then obtain f where "handle_loop r c (msg_ID m) evt initial_backoff 0 (w\<lparr>inFlight := Some (msg_ID m)\<rparr>)
      = Some (f evt)" for evt by metis
  then show ?thesis by (auto simp: process_def split: sum.split prod.split hresult.split)
qed

definition stopped_world :: "mini world" where
  "stopped_world = pending_world\<lparr>http_ans := (\<lambda>n. NoResponse ''refused''), polls := (\<lambda>_. True)\<rparr>"

subsection \<open>The order of the entries\<close>

text \<open>Every entry of the list was processed, in order, each with the result nil.\<close>

inductive all_processed :: "'s redis \<Rightarrow> 's Consumer \<Rightarrow> XMessage list \<Rightarrow> 's world \<Rightarrow> 's world \<Rightarrow> bool"
  for r c where
  no_entry: "all_processed r c [] w w"
| next_entry: "process r c m w = Some (None, w1) \<Longrightarrow> all_processed r c ms w1 w2 \<Longrightarrow>
    all_processed r c (m # ms) w w2"

inductive_simps all_processed_Nil [simp]: "all_processed r c [] w w'"
inductive_simps all_processed_Cons: "all_processed r c (m # ms) w w'"

lemma process_all_nil: "process_all r c ms w = Some (None, w') \<longleftrightarrow> all_processed r c ms w w'"
  by (induction ms arbitrary: w) (auto simp: all_processed_Cons split: option.splits)

lemma process_all_append:
  "all_processed r c ms w w1 \<Longrightarrow> process_all r c (ms @ rest) w = process_all r c rest w1"
  by (induction rule: all_processed.induct) simp_all

lemma process_all_failure:
  "process_all r c ms w = Some (Some e, w') \<Longrightarrow>
     \<exists>before m rest w1. ms = before @ m # rest \<and> all_processed r c before w w1
       \<and> process r c m w1 = Some (Some e, w')"
proof (induction ms arbitrary: w)
  case (Cons m ms)
  then obtain err w1 where m: "process r c m w = Some (err, w1)"
    by (cases "process r c m w") auto
  show ?case
  proof (cases err)
    case None
    with m Cons.prems have "process_all r c ms w1 = Some (Some e, w')" by simp
    from Cons.IH [OF this] obtain before m' rest w2 where
      "ms = before @ m' # rest" "all_processed r c before w1 w2" "process r c m' w2 = Some (Some e, w')"
      by blast
    with m None have "m # ms = (m # before) @ m' # rest \<and> all_processed r c (m # before) w w2
        \<and> process r c m' w2 = Some (Some e, w')"
      by (simp add: all_processed_Cons)
    then show ?thesis by blast
  next
    case (Some e')
    with m Cons.prems have "m # ms = [] @ m # ms \<and> all_processed r c [] w w \<and> process r c m w = Some (Some e, w')"
      by simp
    then show ?thesis by blast
  qed
qed simp

text \<open>
  C28. The entries of a batch are processed strictly in order, and the first that fails ends the batch:
  those before it were all handled, and those after it have not been looked at.
\<close>

theorem batch_stops_at_failure:
  "process_all r c ms w = Some (Some e, w') \<longleftrightarrow>
     (\<exists>before m rest w1. ms = before @ m # rest \<and> all_processed r c before w w1
        \<and> process r c m w1 = Some (Some e, w'))"
proof
  assume "\<exists>before m rest w1. ms = before @ m # rest \<and> all_processed r c before w w1
    \<and> process r c m w1 = Some (Some e, w')"
  then show "process_all r c ms w = Some (Some e, w')" by (auto simp: process_all_append)
qed (rule process_all_failure)

subsection \<open>Run\<close>

lemma main_loop_error: "main_loop r c w = Some x \<Longrightarrow> fst x \<noteq> None"
proof -
  assume run: "main_loop r c w = Some x"
  show ?thesis
  proof (induction rule: main_loop.raw_induct [OF _ run, where P = "\<lambda>r c w x. fst x \<noteq> None"])
    case (1 rec r c w x)
    obtain over w1 where d: "ctx_done w = (over, w1)" by fastforce
    show ?case
    proof (cases over)
      case True
      with 1(2) d show ?thesis by auto
    next
      case False
      with 1(2) d obtain err w2 where self: "selfReclaim r c w1 = Some (err, w2)"
        by (cases "selfReclaim r c w1") auto
      let ?read = "XReadGroup r (c_group c) (c_name c) (c_stream c) (c_count c) (c_block c) (srv w2)"
      let ?w3 = "w2\<lparr>srv := snd ?read\<rparr>"
      show ?thesis
      proof (cases "err = None")
        case nil: True
        have body: "(case fst ?read of ReadNil \<Rightarrow> rec r c ?w3
            | ReadErr msg \<Rightarrow> (case ctx_done ?w3 of (over', w4) \<Rightarrow>
                if over' then Some (Some canceled, w4)
                else Some (Some (Errorf [Lit ''XREADGROUP '', Lit (c_stream c), Lit '': '', W (External msg)]), w4))
            | ReadOk res \<Rightarrow> Option.bind (process_streams r c res ?w3) (\<lambda>(err', w4).
                if err' \<noteq> None then Some (err', w4) else rec r c w4)) = Some x"
          using 1(2) d self nil False by (simp add: on_server_eq)
        show ?thesis
        proof (cases "fst ?read")
          case ReadNil
          with body 1(1) show ?thesis by simp
        next
          case (ReadErr msg)
          with body show ?thesis by (auto split: prod.splits if_splits)
        next
          case (ReadOk res)
          with body obtain err' w4 where ps: "process_streams r c res ?w3 = Some (err', w4)"
            by (cases "process_streams r c res ?w3") auto
          with body ReadOk have "if err' \<noteq> None then x = (err', w4) else rec r c w4 = Some x"
            by (cases err') simp_all
          then show ?thesis using 1(1) by (auto split: if_splits)
        qed
      qed (use 1(2) d self False in auto)
    qed
  qed
qed

text \<open>The loop of a consumer never ends with nil.\<close>

lemma Run_Consumer_not_nil: "Run_Consumer r c w = Some (err, w') \<Longrightarrow> err \<noteq> None"
  using main_loop_error [of r c _ "(err, w')"]
  by (auto simp: Run_Consumer_def split: prod.splits option.splits)

end
