(* ===== verification/Consume_Group.thy ===== *)
theory Consume_Group
  imports Consume_Safety
begin

section \<open>Sharing the group: reclaiming, heartbeat, dead consumers\<close>

text \<open>
  What the background loops do to the server, whatever the server answers, and, for a server that
  treats pending entries as documented, that a consumer drains its own.
\<close>

subsection \<open>Dead consumers\<close>

lemma gc_all_eq:
  "gc_all r c xics w = w\<lparr>srv := foldl (\<lambda>s name. snd (XGroupDelConsumer r (c_stream c) (c_group c) name s))
     (srv w) (map xi_Name (filter (is_dead c) xics))\<rparr>"
  by (induction xics arbitrary: w) (auto simp: is_dead_def on_server_eq)

text \<open>
  C26. The collection of dead consumers asks once for the consumers of the group and then deletes, in
  the order of the answer and whether or not a deletion fails, exactly those that are not this
  consumer, have been idle for the configured time and have no pending entry; it does nothing else.
\<close>

theorem gc_deletes_dead:
  "gcConsumers r c w =
     (case XInfoConsumers r (c_stream c) (c_group c) (srv w) of
        (Inl msg, s) \<Rightarrow>
          (Some (Errorf [Lit ''XINFO CONSUMERS '', Lit (c_stream c), Lit '': '', W (External msg)]), w\<lparr>srv := s\<rparr>)
      | (Inr xics, s) \<Rightarrow>
          (None, w\<lparr>srv := foldl (\<lambda>s name. snd (XGroupDelConsumer r (c_stream c) (c_group c) name s)) s
             (map xi_Name (filter (\<lambda>x. xi_Name x \<noteq> c_name c \<and> xi_Idle x \<ge> c_consumerGCTimeout c
                                       \<and> xi_Pending x = 0) xics))\<rparr>))"
proof -
  have "filter (is_dead c) xics = filter (\<lambda>x. xi_Name x \<noteq> c_name c \<and> xi_Idle x \<ge> c_consumerGCTimeout c
      \<and> xi_Pending x = 0) xics" for xics
    by (simp add: is_dead_def cong: filter_cong)
  then show ?thesis
    by (auto simp: gcConsumers_def on_server_def gc_all_eq split: prod.splits sum.splits)
qed

subsection \<open>Reclaiming from peers\<close>

text \<open>The commands of a reclaim: it reads pages, and claims what a page shows as owned by others.\<close>

inductive peer_step :: "'s redis \<Rightarrow> 's Consumer \<Rightarrow> 's \<Rightarrow> 's \<Rightarrow> bool" for r c where
  reads: "peer_step r c s
    (snd (XPendingExt r (c_stream c) (c_group c) (c_reclaimMinIdle c) start ''+'' (c_count c) None s))"
| claims: "XPendingExt r (c_stream c) (c_group c) (c_reclaimMinIdle c) start ''+'' (c_count c) None s0 = (Inr xps, s) \<Longrightarrow>
    ids = map xp_ID (filter (\<lambda>xp. xp_Consumer xp \<noteq> c_name c) xps) \<Longrightarrow> ids \<noteq> [] \<Longrightarrow>
    peer_step r c s (snd (XClaim r (c_stream c) (c_group c) (c_name c) (c_reclaimMinIdle c) ids s))"

inductive_cases peer_stepE: "peer_step r c s t"

lemma srv_frame: "v = w\<lparr>srv := a\<rparr> \<Longrightarrow> x = v\<lparr>srv := b\<rparr> \<Longrightarrow> x = w\<lparr>srv := (b :: 's)\<rparr>"
  for w :: "'s world"
  by simp

lemma peer_loop_steps:
  assumes "peer_loop r c start w = Some x"
  shows "(peer_step r c)\<^sup>*\<^sup>* (srv w) (srv (snd x)) \<and> snd x = w\<lparr>srv := srv (snd x)\<rparr>"
proof (induction rule: peer_loop.raw_induct [OF _ assms,
    where P = "\<lambda>r c start w x. (peer_step r c)\<^sup>*\<^sup>* (srv w) (srv (snd x)) \<and> snd x = w\<lparr>srv := srv (snd x)\<rparr>"])
  case (1 rec r c start w x)
  obtain reply s1 where page: "XPendingExt r (c_stream c) (c_group c) (c_reclaimMinIdle c) start ''+'' (c_count c) None
      (srv w) = (reply, s1)" by fastforce
  let ?w1 = "w\<lparr>srv := s1\<rparr>"
  have first: "peer_step r c (srv w) s1"
    using peer_step.reads [of r c "srv w" start] page by simp
  show ?case
  proof (cases reply)
    case (Inl msg)
    with 1(2) page have "x = (Some (xpending_error c msg), ?w1)" by (simp add: on_server_eq)
    with first show ?thesis by auto
  next
    case (Inr xps)
    show ?thesis
    proof (cases "xps = []")
      case True
      with 1(2) page Inr have "x = (None, ?w1)" by (simp add: on_server_eq)
      with first show ?thesis by auto
    next
      case False
      obtain err w2 where cl: "claim_from_peers r c (toClaimIDs c xps) ?w1 = (err, w2)" by fastforce
      have second: "(peer_step r c)\<^sup>*\<^sup>* s1 (srv w2) \<and> w2 = ?w1\<lparr>srv := srv w2\<rparr>"
      proof (cases "toClaimIDs c xps = []")
        case True
        with cl show ?thesis by (auto simp: claim_from_peers_def)
      next
        case ids: False
        with page Inr have "peer_step r c s1 (snd (XClaim r (c_stream c) (c_group c) (c_name c)
            (c_reclaimMinIdle c) (toClaimIDs c xps) s1))"
          by (intro peer_step.claims [of r c start "srv w" xps]) (auto simp: toClaimIDs_def)
        moreover have "w2 = ?w1\<lparr>srv := snd (XClaim r (c_stream c) (c_group c) (c_name c)
            (c_reclaimMinIdle c) (toClaimIDs c xps) s1)\<rparr>"
          using ids cl by (cases "fst (XClaim r (c_stream c) (c_group c) (c_name c)
              (c_reclaimMinIdle c) (toClaimIDs c xps) s1)") (simp_all add: claim_from_peers_def on_server_eq)
        ultimately show ?thesis by simp
      qed
      with first have both: "(peer_step r c)\<^sup>*\<^sup>* (srv w) (srv w2)" by (meson converse_rtranclp_into_rtranclp)
      from 1(2) page Inr False cl consider "x = (err, w2)" | "x = (None, w2)"
        | "rec r c (''('' @ xp_ID (last xps)) w2 = Some x"
        by (cases "err = None"; cases "int (length xps) < c_count c") (simp_all add: on_server_eq)
      then show ?thesis
      proof cases
        case 3
        note rest = 1(1) [OF this]
        have "snd x = w\<lparr>srv := srv (snd x)\<rparr>"
          by (rule srv_frame [OF srv_frame [OF refl conjunct2 [OF second]] conjunct2 [OF rest]])
        with rtranclp_trans [OF both conjunct1 [OF rest]] show ?thesis ..
      next
        case 1
        from both srv_frame [OF refl conjunct2 [OF second]] show ?thesis unfolding 1 snd_conv by (rule conjI)
      next
        case 2
        from both srv_frame [OF refl conjunct2 [OF second]] show ?thesis unfolding 2 snd_conv by (rule conjI)
      qed
    qed
  qed
qed

text \<open>
  C24. The background reclaim never disturbs an entry of its own consumer, such as the one being
  processed: if \<open>own\<close> says that \<open>mid\<close> belongs to this consumer, so that reading pages and claiming other
  entries keep it and a page shows \<open>mid\<close> under this consumer's name, then \<open>own\<close> holds after the reclaim,
  and nothing but the server has changed.
\<close>

theorem reclaim_spares_own:
  assumes pages: "\<And>start s. own s \<Longrightarrow>
      own (snd (XPendingExt r (c_stream c) (c_group c) (c_reclaimMinIdle c) start ''+'' (c_count c) None s))"
    and others: "\<And>ids s. own s \<Longrightarrow> mid \<notin> set ids \<Longrightarrow>
      own (snd (XClaim r (c_stream c) (c_group c) (c_name c) (c_reclaimMinIdle c) ids s))"
    and shown: "\<And>start s xps s' xp.
      XPendingExt r (c_stream c) (c_group c) (c_reclaimMinIdle c) start ''+'' (c_count c) None s = (Inr xps, s') \<Longrightarrow>
      own s' \<Longrightarrow> xp \<in> set xps \<Longrightarrow> xp_ID xp = mid \<Longrightarrow> xp_Consumer xp = c_name c"
    and run: "peerReclaim r c w = Some (err, w')" "own (srv w)"
  shows "own (srv w') \<and> w' = w\<lparr>srv := srv w'\<rparr>"
proof -
  have step: "own t" if "peer_step r c s t" "own s" for s t
    using that(1)
  proof (cases rule: peer_step.cases)
    case (reads start)
    with pages that(2) show ?thesis by simp
  next
    case (claims start s0 xps ids)
    from shown [OF claims(2) that(2)] claims(3) have "mid \<notin> set ids" by auto
    with others that(2) claims(1) show ?thesis by simp
  qed
  have steps: "(peer_step r c)\<^sup>*\<^sup>* (srv w) (srv w') \<and> w' = w\<lparr>srv := srv w'\<rparr>"
    using peer_loop_steps [of r c "''-''" w "(err, w')"] run(1) by (simp add: peerReclaim_def)
  then have "(peer_step r c)\<^sup>*\<^sup>* (srv w) (srv w')" by blast
  then have "own (srv w')" using run(2) by (induction rule: rtranclp_induct) (auto intro: step)
  with steps show ?thesis by blast
qed

text \<open>Two entries, one of this consumer and one of a dead peer.\<close>

definition shared_world :: "mini world" where
  "shared_world = world0 (mini0\<lparr>m_entries := [demo_message, demo_message\<lparr>msg_ID := ''2-0''\<rparr>], m_delivered := 2,
     m_pel := [''1-0'', ''2-0''],
     m_owner := (\<lambda>i. if i = ''1-0'' then ''pod-1'' else ''pod-2'')\<rparr>)"

lemma reclaim_demo:
  "case peerReclaim mini_redis (sync_consumer no_services) shared_world of
     Some (err, w') \<Rightarrow> err = None \<and> mini_pending (srv w') = [(''1-0'', ''pod-1''), (''2-0'', ''pod-1'')]
   | None \<Rightarrow> False"
  by code_simp

theorem reclaim_spares_own_witness:
  "\<exists>w'. peerReclaim mini_redis (sync_consumer no_services) shared_world = Some (None, w')
     \<and> mini_pending (srv w') = [(''1-0'', ''pod-1''), (''2-0'', ''pod-1'')] \<and> m_owner (srv w') ''1-0'' = ''pod-1''
     \<and> w' = shared_world\<lparr>srv := srv w'\<rparr>"
proof -
  let ?own = "\<lambda>s. m_owner s ''1-0'' = ''pod-1''"
  obtain w' where run: "peerReclaim mini_redis (sync_consumer no_services) shared_world = Some (None, w')"
    and pel: "mini_pending (srv w') = [(''1-0'', ''pod-1''), (''2-0'', ''pod-1'')]"
    using reclaim_demo by (auto split: option.splits)
  have name: "c_name (sync_consumer no_services) = ''pod-1''" by (simp add: sync_consumer_def New_Consumer_def Let_def)
  have "?own (srv w') \<and> w' = shared_world\<lparr>srv := srv w'\<rparr>"
    by (rule reclaim_spares_own [OF _ _ _ run, where mid = "''1-0''"])
      (auto simp: mini_redis_def mini_claim_def name shared_world_def world0_def)
  with run pel show ?thesis by blast
qed

subsection \<open>Draining the own pending entries\<close>

text \<open>
  The documented behaviour of the commands \<open>selfReclaim\<close> uses, as far as it needs it: \<open>own s\<close> are the
  ids pending for this consumer, in the order of the list. \<^verbatim>\<open>XPENDING\<close> pages through them, an
  \<^verbatim>\<open>XCLAIM\<close> of own entries without an idle filter returns them and keeps them pending, \<^verbatim>\<open>XACK\<close>
  removes its entry when it succeeds and at most that when its reply is an error, and \<^verbatim>\<open>XADD\<close> adds
  no pending entry.
\<close>

definition pel_laws :: "'s redis \<Rightarrow> 's Consumer \<Rightarrow> ('s \<Rightarrow> string list) \<Rightarrow> bool" where
  "pel_laws r c own \<longleftrightarrow>
     (\<forall>s xps s'. XPendingExt r (c_stream c) (c_group c) 0 ''-'' ''+'' (c_count c) (Some (c_name c)) s = (Inr xps, s') \<longrightarrow>
        map xp_ID xps = take (nat (c_count c)) (own s) \<and> own s' = own s)
   \<and> (\<forall>s ids msgs s'. XClaim r (c_stream c) (c_group c) (c_name c) 0 ids s = (Inr msgs, s') \<longrightarrow>
        set ids \<subseteq> set (own s) \<longrightarrow> map msg_ID msgs = ids \<and> own s' = own s)
   \<and> (\<forall>s mid. own (snd (XAck r (c_stream c) (c_group c) mid s)) \<in>
        (if fst (XAck r (c_stream c) (c_group c) mid s) = None then {removeAll mid (own s)}
         else {own s, removeAll mid (own s)}))
   \<and> (\<forall>stream fs s. own (snd (XAdd r stream fs s)) = own s)"

lemma ack_loop_removes:
  assumes laws: "pel_laws r c own" and run: "ack_loop r c mid w = Some x"
  shows "fst x = None \<Longrightarrow> own (srv (snd x)) = removeAll mid (own (srv w))"
proof -
  have ack: "own (snd (XAck r (c_stream c) (c_group c) mid s)) \<in>
      (if fst (XAck r (c_stream c) (c_group c) mid s) = None then {removeAll mid (own s)}
       else {own s, removeAll mid (own s)})" for s
    using laws by (simp add: pel_laws_def)
  have "c = c0 \<longrightarrow> mid = mid0 \<longrightarrow> r = r0 \<longrightarrow> fst x = None \<longrightarrow> own (srv (snd x)) = removeAll mid (own (srv w))"
    if "c0 = c" "mid0 = mid" "r0 = r" for c0 mid0 r0
  proof (induction rule: ack_loop.raw_induct [OF _ run, where
      P = "\<lambda>r c mid w x. c = c0 \<longrightarrow> mid = mid0 \<longrightarrow> r = r0 \<longrightarrow> fst x = None \<longrightarrow>
        own (srv (snd x)) = removeAll mid (own (srv w))"])
    case (1 rec r' c' mid' w x)
    show ?case
    proof (intro impI)
      assume same: "c' = c0" "mid' = mid0" "r' = r0" and nil: "fst x = None"
      let ?ack = "XAck r (c_stream c) (c_group c) mid (srv w)"
      let ?w1 = "w\<lparr>srv := snd ?ack\<rparr>"
      obtain over w2 where d1: "ctx_done ?w1 = (over, w2)" by fastforce
      obtain over' w3 where d2: "ctx_done w2 = (over', w3)" by fastforce
      have s3: "srv w3 = snd ?ack" using d1 d2 by (auto simp: ctx_done_def)
      show "own (srv (snd x)) = removeAll mid' (own (srv w))"
      proof (cases "fst ?ack = None")
        case True
        with 1(2) same that have "x = (None, ?w1)" by (simp add: on_server_eq)
        with True ack [of "srv w"] same that show ?thesis by simp
      next
        case False
        with 1(2) same that d1 d2 nil have "rec r' c' mid' w3 = Some x"
          by (auto simp: on_server_eq split: if_splits)
        from 1(1) [OF this] same nil have "own (srv (snd x)) = removeAll mid' (own (srv w3))" by simp
        with s3 False ack [of "srv w"] same that show ?thesis by auto
      qed
    qed
  qed
  then show "fst x = None \<Longrightarrow> ?thesis" by simp
qed

text \<open>A consumer as the program starts it.\<close>

definition wired :: "'s redis \<Rightarrow> 's Consumer \<Rightarrow> bool" where
  "wired r c \<longleftrightarrow> adding_handler (c_handler c) r \<and> c_policy c = FailLoud_OnFatal"

lemma process_removes:
  assumes laws: "pel_laws r c own" and w: "wired r c" and run: "process r c m w = Some (None, w')"
  shows "own (srv w') = removeAll (msg_ID m) (own (srv w))"
  using run
proof (cases rule: process_cases)
  case (malformed e)
  with w show ?thesis by (simp add: wired_def FailLoud_OnFatal_def)
next
  case (ended evt k b n w1 res w2)
  from w have "adding_handler (c_handler c) r" by (simp add: wired_def)
  then have keeper: "pending_keeper (c_handler c) (\<lambda>s. own s = own (srv w))"
    by (rule adding_keeps) (use laws in \<open>simp add: pel_laws_def\<close>)
  from pending_keeper.failures_keep [OF keeper ended(2) refl] have w1: "own (srv w1) = own (srv w)" by simp
  obtain e where "res = Returned e" "e = None"
    using ended(5) w by (cases res) (simp_all add: wired_def FailLoud_OnFatal_def)
  with ended(3) obtain w3 where h: "c_handler c (c_inst c) evt w1 = (Returned None, w3)"
      "ack_loop r c (msg_ID m) w3 = Some (None, w2)"
    using w by (auto simp: wired_def FailLoud_OnFatal_def canceled_def elim!: attempt_ends_ReturnedE)
  from pending_keeper.keeps_pending [OF keeper h(1)] w1 have "own (srv w3) = own (srv w)" by simp
  with ack_loop_removes [OF laws h(2)] ended(4) show ?thesis by simp
qed

lemma all_processed_removes:
  assumes "pel_laws r c own" "wired r c"
  shows "all_processed r c ms w w' \<Longrightarrow> own (srv w') = filter (\<lambda>i. i \<notin> msg_ID ` set ms) (own (srv w))"
proof (induction rule: all_processed.induct)
  case (next_entry m w w1 ms w2)
  from process_removes [OF assms next_entry.hyps(1)] next_entry.IH show ?case
    by (simp add: removeAll_filter_not_eq) (rule filter_cong, auto)
qed simp

lemma selfReclaim_drains:
  assumes laws: "pel_laws r c own" and w: "wired r c" and count: "0 < c_count c"
    and run: "selfReclaim r c w = Some x"
  shows "fst x = None \<Longrightarrow> own (srv (snd x)) = []"
proof -
  have "c = c0 \<longrightarrow> r = r0 \<longrightarrow> fst x = None \<longrightarrow> own (srv (snd x)) = []" if "c0 = c" "r0 = r" for c0 r0
  proof (induction rule: selfReclaim.raw_induct [OF _ run, where
      P = "\<lambda>r c w x. c = c0 \<longrightarrow> r = r0 \<longrightarrow> fst x = None \<longrightarrow> own (srv (snd x)) = []"])
    case (1 rec r' c' w x)
    show ?case
    proof (intro impI)
      assume "c' = c0" "r' = r0" and nil: "fst x = None"
      with that have same: "c' = c" "r' = r" by simp_all
      let ?pend = "XPendingExt r (c_stream c) (c_group c) 0 ''-'' ''+'' (c_count c) (Some (c_name c)) (srv w)"
      let ?w1 = "w\<lparr>srv := snd ?pend\<rparr>"
      have body: "(case fst ?pend of Inl msg \<Rightarrow> Some (Some (xpending_error c msg), ?w1)
          | Inr xps \<Rightarrow> if xps = [] then Some (None, ?w1) else
             (case on_server (XClaim r (c_stream c) (c_group c) (c_name c) 0 (map xp_ID xps)) ?w1 of (claimed, w2) \<Rightarrow>
             (case claimed of
                Inl msg \<Rightarrow> Some (Some (Errorf [Lit ''XCLAIM '', Lit (c_stream c), Lit '': '', W (External msg)]), w2)
              | Inr msgs \<Rightarrow> Option.bind (process_all r c msgs w2) (\<lambda>(err, w3).
                  if err \<noteq> None then Some (err, w3)
                  else if int (length xps) < c_count c then Some (None, w3) else rec r c w3)))) = Some x"
        using 1(2) unfolding same by (simp add: on_server_eq)
      from body nil obtain xps where xps: "fst ?pend = Inr xps" by (cases "fst ?pend") auto
      from laws xps have page: "map xp_ID xps = take (nat (c_count c)) (own (srv w))"
        and own1: "own (snd ?pend) = own (srv w)"
        unfolding pel_laws_def by (metis prod.collapse)+
      show "own (srv (snd x)) = []"
      proof (cases "xps = []")
        case True
        with body xps page own1 count show ?thesis by (auto simp: take_eq_Nil)
      next
        case False
        let ?claim = "XClaim r (c_stream c) (c_group c) (c_name c) 0 (map xp_ID xps) (snd ?pend)"
        from body xps False nil obtain msgs where msgs: "fst ?claim = Inr msgs"
          by (cases "fst ?claim") (auto simp: on_server_eq)
        have "set (map xp_ID xps) \<subseteq> set (own (snd ?pend))"
          unfolding page own1 by (rule set_take_subset)
        with laws msgs have ids: "map msg_ID msgs = map xp_ID xps" and own2: "own (snd ?claim) = own (srv w)"
          using own1 unfolding pel_laws_def by (metis prod.collapse)+
        let ?w2 = "?w1\<lparr>srv := snd ?claim\<rparr>"
        from body xps False msgs have "Option.bind (process_all r c msgs ?w2) (\<lambda>(err, w3).
            if err \<noteq> None then Some (err, w3)
            else if int (length xps) < c_count c then Some (None, w3) else rec r c w3) = Some x"
          by (simp add: on_server_eq)
        with nil obtain w3 where all: "process_all r c msgs ?w2 = Some (None, w3)"
          and rest: "if int (length xps) < c_count c then x = (None, w3) else rec r c w3 = Some x"
          by (cases "process_all r c msgs ?w2") (auto split: if_splits)
        have own3: "own (srv w3) = filter (\<lambda>i. i \<notin> set (map xp_ID xps)) (own (srv w))"
          using all_processed_removes [OF laws w all [unfolded process_all_nil]] own2
            arg_cong [OF ids, of set] by simp
        show ?thesis
        proof (cases "int (length xps) < c_count c")
          case True
          have "length xps = min (nat (c_count c)) (length (own (srv w)))"
            using arg_cong [OF page, of length] by simp
          with True have "map xp_ID xps = own (srv w)"
            using page by (simp add: min_def split: if_splits)
          with True rest own3 show ?thesis by simp
        next
          case False
          with rest have "rec r c w3 = Some x" by simp
          from 1(1) [OF this] nil that show ?thesis by simp
        qed
      qed
    qed
  qed
  then show "fst x = None \<Longrightarrow> ?thesis" by simp
qed

text \<open>
  C10. Crash recovery: when \<open>selfReclaim\<close> of a consumer with a handler the program builds returns nil, no
  entry is pending for this consumer any more, on any server that keeps pending entries as documented:
  what a previous incarnation left, or a reclaim moved here, has been handled and acknowledged. A short
  page ends the loop correctly and a full page is followed by another, with nothing skipped.
\<close>

theorem self_reclaim_drains:
  assumes "buildHandler b Default r p catalog = Inr (c_handler c)" "c_policy c = FailLoud_OnFatal"
    and "0 < c_count c" "pel_laws r c own" "selfReclaim r c w = Some (None, w')"
  shows "own (srv w') = []"
  using selfReclaim_drains [OF assms(4) _ assms(3,5)] built_handler_adds [OF assms(1)] assms(2)
  by (simp add: wired_def)

lemma mini_message_ID: "msg_ID (mini_message s i) = i"
  by (simp add: mini_message_def split: option.splits)

lemma mini_mine: "set ids \<subseteq> {i \<in> set (m_pel s). R i} \<Longrightarrow> filter (\<lambda>i. i \<in> set (m_pel s)) ids = ids"
  by (auto simp: filter_id_conv)

lemma mini_laws: "pel_laws mini_redis c (mini_own (c_name c))"
  by (auto simp: pel_laws_def mini_redis_def mini_after_def mini_claim_def mini_own_def mini_message_ID mini_mine Let_def
      comp_def removeAll_filter_not_eq conj_commute split: option.splits intro!: filter_cong)
    (rule mini_mine)

lemma drain_demo:
  "case selfReclaim mini_redis (sync_consumer no_services) pending_world of
     Some (err, w') \<Rightarrow> err = None | None \<Rightarrow> False"
  by code_simp

theorem self_reclaim_drains_witness:
  "\<exists>w'. selfReclaim mini_redis (sync_consumer no_services) pending_world = Some (None, w')
     \<and> mini_own ''pod-1'' (srv pending_world) = [''1-0''] \<and> mini_own ''pod-1'' (srv w') = []"
proof -
  obtain w' where run: "selfReclaim mini_redis (sync_consumer no_services) pending_world = Some (None, w')"
    using drain_demo by (auto split: option.splits)
  have c: "c_name (sync_consumer no_services) = ''pod-1''" "0 < c_count (sync_consumer no_services)"
    by (simp_all add: sync_consumer_def New_Consumer_def Let_def)
  have "mini_own ''pod-1'' (srv w') = []"
    by (rule self_reclaim_drains [OF _ _ c(2) _ run, of sync_binding "New_Producer ''i''" "[]"])
      (use mini_laws [of "sync_consumer no_services"] c(1) in \<open>simp_all add: sync_handler_built\<close>)
  with run show ?thesis by (auto simp: mini_own_def pending_world_def world0_def mini0_def)
qed

end
