(* ===== verification/Consume_Steps.thy ===== *)
theory Consume_Steps
  imports Consume_Group
begin

section \<open>The single steps of process, and what a collection drops\<close>

text \<open>
  Processing an entry as single steps of the consumer's goroutine, each at most one command of the
  group; the function \<open>process\<close> is the run of these steps without interference. Then the documented laws of
  the commands for one entry, and what the collection of dead consumers does to it when its
  answer is fresh and when it is not.
\<close>

subsection \<open>The steps of process\<close>

datatype activity =
    Fetched
  | Handling Event int int
  | Pausing Event int int
  | Acking
  | AckFailed
  | Finished "error option"

definition finish :: "error option \<Rightarrow> 's world \<Rightarrow> activity \<times> 's world" where
  "finish err w = (Finished err, w\<lparr>inFlight := None\<rparr>)"

fun proc_step :: "'s redis \<Rightarrow> 's Consumer \<Rightarrow> XMessage \<Rightarrow> activity \<times> 's world \<Rightarrow> activity \<times> 's world" where
  "proc_step r c m (Fetched, w) =
     (case Parse (msg_ID m) (msg_Values m) of
        Inl e \<Rightarrow> (Finished (c_policy c (c_stream c) (malformed_error (msg_ID m) e)), w)
      | Inr evt \<Rightarrow> (Handling evt initial_backoff 0, w\<lparr>inFlight := Some (msg_ID m)\<rparr>))"
| "proc_step r c m (Handling evt b n, w) =
     (case c_handler c (c_inst c) evt w of
        (Panicked p, w1) \<Rightarrow> finish (c_policy c (c_stream c) (panic_error (msg_ID m) p)) w1
      | (Returned None, w1) \<Rightarrow> (Acking, w1)
      | (Returned (Some e), w1) \<Rightarrow>
          if IsPoison e then finish (c_policy c (c_stream c) (poison_error (msg_ID m) e)) w1
          else (case ctx_done w1 of
            (over, w2) \<Rightarrow>
              if over then finish (Some canceled) w2
              else (Pausing evt b n, w2\<lparr>retry_log := retry_log w2 @ [(retry_level c (n + 1), b)]\<rparr>)))"
| "proc_step r c m (Pausing evt b n, w) =
     (case ctx_done w of
        (over, w1) \<Rightarrow> if over then finish (Some canceled) w1 else (Handling evt (next_backoff b) (n + 1), w1))"
| "proc_step r c m (Acking, w) =
     (case on_server (XAck r (c_stream c) (c_group c) (msg_ID m)) w of
        (None, w1) \<Rightarrow> finish None w1
      | (Some msg, w1) \<Rightarrow>
          (case ctx_done w1 of
             (over, w2) \<Rightarrow> if over then finish (Some canceled) w2 else (AckFailed, w2)))"
| "proc_step r c m (AckFailed, w) =
     (case ctx_done w of (over, w1) \<Rightarrow> if over then finish (Some canceled) w1 else (Acking, w1))"
| "proc_step r c m (Finished err, w) = (Finished err, w)"

subsection \<open>The steps and the function\<close>

text \<open>What is left of \<open>process\<close> at each point of its run, as the functions have it.\<close>

definition returned :: "'s Consumer \<Rightarrow> XMessage \<Rightarrow> hresult \<times> 's world \<Rightarrow> error option \<times> 's world" where
  "returned c m x =
     (case x of
        (Returned err, w) \<Rightarrow> (err, w\<lparr>inFlight := None\<rparr>)
      | (Panicked p, w) \<Rightarrow> (c_policy c (c_stream c) (panic_error (msg_ID m) p), w\<lparr>inFlight := None\<rparr>))"

fun rest_of :: "'s redis \<Rightarrow> 's Consumer \<Rightarrow> XMessage \<Rightarrow> activity \<times> 's world \<Rightarrow> (error option \<times> 's world) option" where
  "rest_of r c m (Fetched, w) = process r c m w"
| "rest_of r c m (Handling evt b n, w) = map_option (returned c m) (handle_loop r c (msg_ID m) evt b n w)"
| "rest_of r c m (Pausing evt b n, w) =
     (case ctx_done w of
        (over, w1) \<Rightarrow>
          if over then Some (returned c m (Returned (Some canceled), w1))
          else map_option (returned c m) (handle_loop r c (msg_ID m) evt (next_backoff b) (n + 1) w1))"
| "rest_of r c m (Acking, w) =
     map_option (\<lambda>(err, w1). returned c m (Returned err, w1)) (ack_loop r c (msg_ID m) w)"
| "rest_of r c m (AckFailed, w) =
     (case ctx_done w of
        (over, w1) \<Rightarrow>
          if over then Some (returned c m (Returned (Some canceled), w1))
          else map_option (\<lambda>(err, w2). returned c m (Returned err, w2)) (ack_loop r c (msg_ID m) w1))"
| "rest_of r c m (Finished err, w) = Some (err, w)"

lemma rest_of_step: "rest_of r c m (proc_step r c m (a, w)) = rest_of r c m (a, w)"
proof (cases a)
  case Fetched
  then show ?thesis
    by (auto simp: process_def returned_def split: sum.splits option.splits hresult.splits prod.splits)
next
  case (Handling evt b n)
  then show ?thesis
    by (simp add: handle_loop.simps [of r c "msg_ID m" evt b n w])
      (auto simp: finish_def returned_def option.map_comp comp_def case_prod_unfold
        split: option.splits hresult.splits prod.splits)
next
  case Acking
  then show ?thesis
    by (simp add: ack_loop.simps [of r c "msg_ID m" w])
      (auto simp: finish_def returned_def split: option.splits prod.splits)
qed (auto simp: finish_def returned_def split: prod.splits)

lemma steps_sound:
  assumes "(proc_step r c m ^^ k) x = (Finished err, w')"
  shows "rest_of r c m x = Some (err, w')"
proof -
  have "rest_of r c m ((proc_step r c m ^^ k) x) = rest_of r c m x"
  proof (induction k)
    case (Suc k)
    then show ?case by (cases "(proc_step r c m ^^ k) x") (simp add: rest_of_step)
  qed simp
  with assms show ?thesis by simp
qed

text \<open>Conversely, each function that returns is a number of steps.\<close>

definition steps_to :: "'s redis \<Rightarrow> 's Consumer \<Rightarrow> XMessage \<Rightarrow> activity \<times> 's world \<Rightarrow> activity \<times> 's world \<Rightarrow> bool" where
  "steps_to r c m x y \<longleftrightarrow> (\<exists>k. (proc_step r c m ^^ k) x = y)"

lemma steps_refl: "steps_to r c m x x"
  unfolding steps_to_def by (rule exI [of _ 0]) simp

lemma steps_step: "proc_step r c m x = y \<Longrightarrow> steps_to r c m y z \<Longrightarrow> steps_to r c m x z"
  unfolding steps_to_def by (metis funpow_Suc_right comp_apply)

lemma steps_one: "proc_step r c m x = y \<Longrightarrow> steps_to r c m x y"
  by (rule steps_step [OF _ steps_refl])

lemma ack_steps:
  assumes "ack_loop r c (msg_ID m) w = Some x"
  shows "steps_to r c m (Acking, w) (finish (fst x) (snd x))"
proof -
  have "msg_ID m = msg_ID m \<longrightarrow> steps_to r c m (Acking, w) (finish (fst x) (snd x))"
  proof (induction rule: ack_loop.raw_induct [OF _ assms, where P = "\<lambda>r c mid w x.
      msg_ID m = mid \<longrightarrow> steps_to r c m (Acking, w) (finish (fst x) (snd x))"])
    case (1 rec r c mid w x)
    show ?case
    proof (intro impI)
      assume same: "msg_ID m = mid"
      obtain err w1 where ack: "on_server (XAck r (c_stream c) (c_group c) mid) w = (err, w1)" by fastforce
      obtain over w2 where d1: "ctx_done w1 = (over, w2)" by fastforce
      obtain over' w3 where d2: "ctx_done w2 = (over', w3)" by fastforce
      consider "err = None" "x = (None, w1)" | msg where "err = Some msg" "over" "x = (Some canceled, w2)"
        | msg where "err = Some msg" "\<not> over" "over'" "x = (Some canceled, w3)"
        | msg where "err = Some msg" "\<not> over" "\<not> over'" "rec r c mid w3 = Some x"
        using 1(2) ack d1 d2 by (cases err) (auto split: if_splits)
      then show "steps_to r c m (Acking, w) (finish (fst x) (snd x))"
      proof cases
        case 3
        show ?thesis
          by (rule steps_step, rule refl, rule steps_one) (use 3 ack d1 d2 same in simp)
      next
        case 4
        from 1(1) [OF 4(4)] same have "steps_to r c m (Acking, w3) (finish (fst x) (snd x))" by simp
        moreover have "proc_step r c m (Acking, w) = (AckFailed, w2)" "proc_step r c m (AckFailed, w2) = (Acking, w3)"
          using 4 ack d1 d2 same by simp_all
        ultimately show ?thesis by (blast intro: steps_step)
      qed (rule steps_one, use ack d1 same in simp)+
    qed
  qed
  then show ?thesis by simp
qed

lemma attempt_steps:
  assumes "attempt_ends r c (msg_ID m) evt b n w res w'"
  shows "steps_to r c m (Handling evt b n, w) (case returned c m (res, w') of (err, v) \<Rightarrow> (Finished err, v))"
  using assms
proof (cases rule: attempt_ends.cases)
  case (handled w1 err)
  have "proc_step r c m (Handling evt b n, w) = (Acking, w1)" using handled by simp
  from steps_step [OF this ack_steps [OF handled(3)]] show ?thesis
    using handled by (simp add: returned_def finish_def)
next
  case (canceled_in_pause e w1 w2)
  have "proc_step r c m (Handling evt b n, w) = (Pausing evt b n, note_retry c (n + 1) b w2)"
    using canceled_in_pause by (simp add: note_retry_def)
  moreover have "proc_step r c m (Pausing evt b n, note_retry c (n + 1) b w2) = finish (Some canceled) w'"
    using canceled_in_pause by simp
  ultimately have "steps_to r c m (Handling evt b n, w) (finish (Some canceled) w')"
    by (intro steps_step [OF _ steps_one])
  then show ?thesis using canceled_in_pause by (simp add: returned_def finish_def)
qed (rule steps_one, simp add: returned_def finish_def)+

lemma failures_steps:
  "failures c evt k b n w b' n' w' \<Longrightarrow> steps_to r c m (Handling evt b' n', w') z \<Longrightarrow>
     steps_to r c m (Handling evt b n, w) z"
proof (induction rule: failures.induct)
  case (one_failure w e w1 w2 n b w3 k b' n' w')
  have "proc_step r c m (Handling evt b n, w) = (Pausing evt b n, note_retry c (n + 1) b w2)"
    using one_failure.hyps by (simp add: note_retry_def)
  moreover have "proc_step r c m (Pausing evt b n, note_retry c (n + 1) b w2) = (Handling evt (next_backoff b) (n + 1), w3)"
    using one_failure.hyps by simp
  ultimately show ?case using one_failure.IH [OF one_failure.prems] by (blast intro: steps_step)
qed

text \<open>
  \<open>process\<close> is the run of its single steps without interference: it returns an error value exactly when
  some number of steps from the fetched entry ends with it, in the same state of the world; it does not
  return exactly when no number of steps ends.
\<close>

lemma process_is_its_steps:
  "process r c m w = Some (err, w') \<longleftrightarrow> (\<exists>k. (proc_step r c m ^^ k) (Fetched, w) = (Finished err, w'))"
proof
  assume "process r c m w = Some (err, w')"
  then show "\<exists>k. (proc_step r c m ^^ k) (Fetched, w) = (Finished err, w')"
    unfolding steps_to_def [symmetric]
  proof (cases rule: process_cases)
    case (malformed e)
    then show "steps_to r c m (Fetched, w) (Finished err, w')" by (intro steps_one) simp
  next
    case (ended evt k b n w1 res w2)
    from attempt_steps [OF ended(3)] ended(4,5)
    have "steps_to r c m (Handling evt b n, w1) (Finished err, w')"
      by (simp add: returned_def split: hresult.splits)
    from failures_steps [OF ended(2) this] show "steps_to r c m (Fetched, w) (Finished err, w')"
      by (rule steps_step [rotated]) (simp add: ended(1))
  qed
qed (use steps_sound in fastforce)

subsection \<open>The laws of the group for one entry\<close>

text \<open>
  The documented behaviour of the commands of the group for one entry: \<open>owner s\<close> is the consumer it
  is pending for. Only \<^verbatim>\<open>XACK\<close> and the deletion of its owner take it off the list, a claim moves
  it, and \<^verbatim>\<open>XINFO CONSUMERS\<close> counts it under its owner.
\<close>

definition group_laws :: "'s redis \<Rightarrow> 's Consumer \<Rightarrow> ('s \<Rightarrow> string option) \<Rightarrow> bool" where
  "group_laws r c owner \<longleftrightarrow>
     (\<forall>stream fs s. owner (snd (XAdd r stream fs s)) = owner s)
   \<and> (\<forall>idle start stop count who s.
        owner (snd (XPendingExt r (c_stream c) (c_group c) idle start stop count who s)) = owner s)
   \<and> (\<forall>idle ids s. owner s \<noteq> None \<longrightarrow>
        owner (snd (XClaim r (c_stream c) (c_group c) (c_name c) idle ids s)) \<noteq> None)
   \<and> (\<forall>idle ids s. owner s \<noteq> None \<longrightarrow>
        owner (snd (XClaimJustID r (c_stream c) (c_group c) (c_name c) idle ids s)) \<noteq> None)
   \<and> (\<forall>s. owner (snd (XInfoConsumers r (c_stream c) (c_group c) s)) = owner s)
   \<and> (\<forall>s xics s'. XInfoConsumers r (c_stream c) (c_group c) s = (Inr xics, s') \<longrightarrow>
        (\<forall>x \<in> set xics. xi_Pending x = 0 \<longrightarrow> owner s' \<noteq> Some (xi_Name x)))
   \<and> (\<forall>name s. owner s \<noteq> Some name \<longrightarrow>
        owner (snd (XGroupDelConsumer r (c_stream c) (c_group c) name s)) = owner s)"

lemma deletions_keep:
  assumes "group_laws r c owner" "\<forall>name \<in> set names. owner s \<noteq> Some name"
  shows "owner (foldl (\<lambda>s name. snd (XGroupDelConsumer r (c_stream c) (c_group c) name s)) s names) = owner s"
  using assms(2)
proof (induction names arbitrary: s)
  case (Cons name names)
  with assms(1) have "owner (snd (XGroupDelConsumer r (c_stream c) (c_group c) name s)) = owner s"
    by (simp add: group_laws_def)
  with Cons show ?case by simp
qed simp

lemma collect_keeps:
  assumes laws: "group_laws r c owner"
  shows "owner (srv (gc_tick r c w)) = owner (srv w)"
proof (cases "fst (XInfoConsumers r (c_stream c) (c_group c) (srv w))")
  case (Inl msg)
  with laws show ?thesis by (simp add: gc_tick_def gcConsumers_def on_server_eq group_laws_def)
next
  case (Inr xics)
  let ?s = "snd (XInfoConsumers r (c_stream c) (c_group c) (srv w))"
  let ?names = "map xi_Name (filter (is_dead c) xics)"
  have "XInfoConsumers r (c_stream c) (c_group c) (srv w) = (Inr xics, ?s)" using Inr by (metis prod.collapse)
  with laws have "\<forall>x \<in> set xics. xi_Pending x = 0 \<longrightarrow> owner ?s \<noteq> Some (xi_Name x)"
    unfolding group_laws_def by blast
  then have "\<forall>name \<in> set ?names. owner ?s \<noteq> Some name" by (auto simp: is_dead_def)
  from deletions_keep [OF laws this] laws Inr show ?thesis
    by (simp add: gc_tick_def gcConsumers_def on_server_eq gc_all_eq group_laws_def)
qed

subsection \<open>The server of the witnesses keeps the laws\<close>

definition mini_owner :: "string \<Rightarrow> mini \<Rightarrow> string option" where
  "mini_owner mid s = (if mid \<in> set (m_pel s) then Some (m_owner s mid) else None)"

lemma mini_group_laws: "group_laws mini_redis c (mini_owner mid)"
proof -
  have own: "mid \<in> set (m_pel s) \<Longrightarrow> mini_own (m_owner s mid) s \<noteq> []" for s
    by (auto simp: mini_own_def filter_empty_conv)
  show ?thesis
    by (auto simp: group_laws_def mini_redis_def mini_claim_def Let_def mini_owner_def dest: own split: if_splits)
qed

subsection \<open>A collection that is interrupted\<close>

lemma deletions_exact:
  assumes laws: "group_laws r c owner"
    and drops: "\<And>name s. owner s = Some name \<Longrightarrow> owner (snd (XGroupDelConsumer r (c_stream c) (c_group c) name s)) = None"
  shows "owner (foldl (\<lambda>s name. snd (XGroupDelConsumer r (c_stream c) (c_group c) name s)) s names)
    = (if \<exists>name \<in> set names. owner s = Some name then None else owner s)"
proof (induction names arbitrary: s)
  case (Cons name names)
  show ?case
  proof (cases "owner s = Some name")
    case True
    with drops [OF True] show ?thesis by (simp add: Cons.IH)
  next
    case False
    with laws have "owner (snd (XGroupDelConsumer r (c_stream c) (c_group c) name s)) = owner s"
      by (simp add: group_laws_def)
    with False show ?thesis by (simp add: Cons.IH)
  qed
qed simp

text \<open>
  C19. What a collection of dead consumers drops, when others act between its question and its deletions: exactly
  the entries that are by then pending for a consumer which the answer shows idle for the configured time and
  with nothing pending, other than this consumer itself. Acting on a fresh answer it drops nothing, because such a consumer
  has no entry; acting on a stale one it drops what these consumers have read or claimed since, although
  nobody has handled it. The guard looks at the answer, and nothing is asked again.
\<close>

theorem collection_loses_entry:
  assumes "group_laws r c owner"
    and "\<And>name s. owner s = Some name \<Longrightarrow> owner (snd (XGroupDelConsumer r (c_stream c) (c_group c) name s)) = None"
  shows "owner (srv (gc_all r c xics w)) =
      (if \<exists>x \<in> set xics. xi_Name x \<noteq> c_name c \<and> c_consumerGCTimeout c \<le> xi_Idle x \<and> xi_Pending x = 0
          \<and> owner (srv w) = Some (xi_Name x)
       then None else owner (srv w))
    \<and> owner (srv (snd (gcConsumers r c w))) = owner (srv w)"
proof
  have "(\<exists>name \<in> set (map xi_Name (filter (is_dead c) xics)). owner (srv w) = Some name) \<longleftrightarrow>
      (\<exists>x \<in> set xics. xi_Name x \<noteq> c_name c \<and> c_consumerGCTimeout c \<le> xi_Idle x \<and> xi_Pending x = 0
          \<and> owner (srv w) = Some (xi_Name x))"
    by (auto simp: is_dead_def)
  with deletions_exact [OF assms, of "srv w" "map xi_Name (filter (is_dead c) xics)"]
  show "owner (srv (gc_all r c xics w)) =
      (if \<exists>x \<in> set xics. xi_Name x \<noteq> c_name c \<and> c_consumerGCTimeout c \<le> xi_Idle x \<and> xi_Pending x = 0
          \<and> owner (srv w) = Some (xi_Name x)
       then None else owner (srv w))"
    by (simp add: gc_all_eq)
  show "owner (srv (snd (gcConsumers r c w))) = owner (srv w)"
    using collect_keeps [OF assms(1), of w] by (simp add: gc_tick_def)
qed

text \<open>
  A live consumer on a quiet stream: the answer has shown \<open>pod-2\<close> idle for eleven minutes with nothing pending, and
  then it has read an entry.
\<close>

definition stale_answer :: "XInfoConsumer list" where
  "stale_answer = [\<lparr>xi_Name = ''pod-2'', xi_Pending = 0, xi_Idle = 11 * minute\<rparr>]"

definition quiet_world :: "mini world" where
  "quiet_world = world0 (mini0\<lparr>m_entries := [demo_message], m_consumers := stale_answer\<rparr>)"

definition read_world :: "mini world" where
  "read_world = snd (on_server (XReadGroup mini_redis ''i'' ''pod-2'' ''i.cdc.users'' 10 (2 * second)) quiet_world)"

lemma quiet_answer: "fst (XInfoConsumers mini_redis ''i.cdc.users'' ''i'' (srv quiet_world)) = Inr stale_answer"
  by (simp add: quiet_world_def stale_answer_def world0_def mini0_def mini_redis_def mini_own_def)

lemma read_pending: "mini_owner ''1-0'' (srv read_world) = Some ''pod-2''"
  by (simp add: read_world_def on_server_eq quiet_world_def world0_def mini0_def mini_redis_def mini_owner_def
      demo_message_def Let_def)

theorem collection_loses_entry_witness:
  "mini_owner ''1-0'' (srv read_world) = Some ''pod-2''
   \<and> mini_owner ''1-0'' (srv (gc_all mini_redis (sync_consumer no_services) stale_answer read_world)) = None"
proof -
  let ?c = "sync_consumer no_services"
  have c: "c_name ?c = ''pod-1''" "c_consumerGCTimeout ?c = 10 * minute"
    by (simp_all add: sync_consumer_def New_Consumer_def Let_def)
  have drops: "mini_owner mid (snd (XGroupDelConsumer mini_redis (c_stream ?c) (c_group ?c) name s)) = None"
    if "mini_owner mid s = Some name" for mid name s
    using that by (auto simp: mini_owner_def mini_redis_def split: if_splits)
  from conjunct1 [OF collection_loses_entry [OF mini_group_laws drops, of "''1-0''" "stale_answer" read_world]] read_pending
  show ?thesis by (simp add: c stale_answer_def minute_def second_def)
qed

end
