(* ===== verification/Consume_Progress.thy ===== *)
theory Consume_Progress
  imports Consume_Group
begin

section \<open>Progress: recovery, termination on shutdown\<close>

text \<open>
  That the loops come to an end, which partial correctness says nothing about: a service that
  recovers gets the entry, after which it is acknowledged; a context that is done ends the draining
  of pending entries. Each proof gives the loop a measure.
\<close>

subsection \<open>The acknowledgement is repeated until it succeeds\<close>

definition ack_state :: "'s redis \<Rightarrow> 's Consumer \<Rightarrow> string \<Rightarrow> 's \<Rightarrow> 's" where
  "ack_state r c mid s = snd (XAck r (c_stream c) (c_group c) mid s)"

definition ack_succeeds :: "'s redis \<Rightarrow> 's Consumer \<Rightarrow> string \<Rightarrow> 's \<Rightarrow> bool" where
  "ack_succeeds r c mid s \<longleftrightarrow> (\<exists>k. fst (XAck r (c_stream c) (c_group c) mid ((ack_state r c mid ^^ k) s)) = None)"

lemma ack_loop_succeeds:
  assumes "\<And>i. \<not> polls w i" and "fst (XAck r (c_stream c) (c_group c) mid ((ack_state r c mid ^^ k) (srv w))) = None"
  shows "\<exists>w'. ack_loop r c mid w = Some (None, w')"
  using assms
proof (induction k arbitrary: w)
  case 0
  then show ?case by (subst ack_loop.simps) (simp add: on_server_eq)
next
  case (Suc k)
  let ?w = "w\<lparr>srv := ack_state r c mid (srv w), poll_n := Suc (Suc (poll_n w))\<rparr>"
  from Suc.prems have "\<exists>w'. ack_loop r c mid ?w = Some (None, w')"
    by (intro Suc.IH) (simp_all add: funpow_swap1)
  with Suc.prems(1) show ?case
    by (subst ack_loop.simps) (simp add: on_server_eq ctx_done_def ack_state_def)
qed

subsection \<open>A handler that recovers\<close>

text \<open>
  \<open>I\<close> holds while the world lets the handler make progress, \<open>left\<close> bounds the failures it has ahead.
\<close>

locale recovering_handler =
  fixes h :: "'s world handler" and inst :: InstanceContext and evt :: Event
    and I :: "'s world \<Rightarrow> bool" and left :: "'s world \<Rightarrow> nat"
  assumes progress: "I w \<Longrightarrow> h inst evt w = (res, w') \<Longrightarrow>
      I w' \<and> (res = Returned None \<or> (\<exists>e. res = Returned (Some e) \<and> \<not> IsPoison e \<and> left w' < left w))"
    and not_done: "I w \<Longrightarrow> \<not> polls w i"
    and ctx_kept: "I w \<Longrightarrow> I (w\<lparr>poll_n := n\<rparr>) \<and> left (w\<lparr>poll_n := n\<rparr>) = left w"
    and log_kept: "I w \<Longrightarrow> I (w\<lparr>retry_log := l\<rparr>) \<and> left (w\<lparr>retry_log := l\<rparr>) = left w"
begin

lemma handled_in_the_end:
  assumes "I w" "c_handler c = h" "c_inst c = inst"
  shows "\<exists>k b' n' w1 w2. failures c evt k b n w b' n' w1 \<and> h inst evt w1 = (Returned None, w2) \<and> I w2"
  using assms
proof (induction "left w" arbitrary: w b n rule: less_induct)
  case less
  obtain res w1 where run: "h inst evt w = (res, w1)" by fastforce
  from progress [OF less.prems(1) run] have I1: "I w1" by blast
  from progress [OF less.prems(1) run] consider "res = Returned None"
    | e where "res = Returned (Some e)" "\<not> IsPoison e" "left w1 < left w" by blast
  then show ?case
  proof cases
    case 1
    with run I1 have "failures c evt 0 b n w b n w \<and> h inst evt w = (Returned None, w1) \<and> I w1" by simp
    then show ?thesis by blast
  next
    case (2 e)
    let ?w2 = "w1\<lparr>poll_n := Suc (poll_n w1)\<rparr>"
    let ?w2' = "note_retry c (n + 1) b ?w2"
    let ?w3 = "?w2'\<lparr>poll_n := Suc (poll_n ?w2')\<rparr>"
    from ctx_kept [OF I1] have I2: "I ?w2" "left ?w2 = left w1" by simp_all
    from log_kept [OF I2(1)] I2(2) have I2': "I ?w2'" "left ?w2' = left w1" by (simp_all add: note_retry_def)
    from ctx_kept [OF I2'(1)] I2'(2) have I3: "I ?w3" "left ?w3 = left w1" by simp_all
    have d: "ctx_done w1 = (False, ?w2)" "ctx_done ?w2' = (False, ?w3)"
      using not_done [OF I1] not_done [OF I2'(1)] by (simp_all add: ctx_done_def)
    from less.hyps [OF _ I3(1) less.prems(2,3)] I3(2) 2(3) obtain k b' n' w4 w5 where
      rest: "failures c evt k (next_backoff b) (n + 1) ?w3 b' n' w4" "h inst evt w4 = (Returned None, w5)" "I w5"
      by metis
    from failures.one_failure [OF _ 2(2) d rest(1)] run less.prems 2(1)
    have "failures c evt (Suc k) b n w b' n' w4" by simp
    with rest show ?thesis by blast
  qed
qed

lemma processed_in_the_end:
  assumes "I (w\<lparr>inFlight := Some (msg_ID m)\<rparr>)" "c_handler c = h" "c_inst c = inst"
    and "Parse (msg_ID m) (msg_Values m) = Inr evt" and "\<And>s. ack_succeeds r c (msg_ID m) s"
  shows "\<exists>w'. process r c m w = Some (None, w')"
proof -
  from handled_in_the_end [OF assms(1-3)] obtain k b n w1 w2 where
    run: "failures c evt k initial_backoff 0 (w\<lparr>inFlight := Some (msg_ID m)\<rparr>) b n w1"
    and ok: "h inst evt w1 = (Returned None, w2)" "I w2" by blast
  from assms(5) [of "srv w2"] ack_loop_succeeds [of w2] not_done [OF ok(2)] obtain w3 where
    "ack_loop r c (msg_ID m) w2 = Some (None, w3)" unfolding ack_succeeds_def by blast
  then have "attempt_ends r c (msg_ID m) evt b n w1 (Returned None) w3"
    using ok(1) assms(2,3) by (intro attempt_ends.handled) simp_all
  from handle_loop_complete [OF run this] assms(4) show ?thesis by (simp add: process_def)
qed

end

text \<open>
  The forwarding handler recovers when the service does: no answer is a rejection, from the \<open>N\<close>-th request
  on every answer is a success, the URL and the event can be encoded and the context is not done.
\<close>

definition service_recovers :: "InternalClient \<Rightarrow> Event \<Rightarrow> nat \<Rightarrow> 's world \<Rightarrow> bool" where
  "service_recovers ic evt N w \<longleftrightarrow>
     (\<forall>i. \<not> polls w i) \<and> url_error w (join_url (ic_baseURL ic) ''/events'') = None
   \<and> event_json (flops w) evt \<noteq> None
   \<and> (\<forall>n code body. http_ans w n = Response code body \<longrightarrow> code < 400 \<or> 500 \<le> code)
   \<and> (\<forall>n \<ge> N. \<exists>code body. http_ans w n = Response code body \<and> code < 400)"

lemma forward_step:
  assumes "event_json (flops w) evt \<noteq> None" "url_error w (join_url (ic_baseURL ic) ''/events'') = None"
  obtains l where "length l = Suc (length (http_log w))"
    and "forward_to (client_Do (DoInternal ic)) evt w =
      (case http_ans w (length (http_log w)) of NoResponse msg \<Rightarrow> Some (External msg) | Response code b \<Rightarrow> status_result code,
       w\<lparr>http_log := l\<rparr>)"
proof -
  from assms(1) obtain body where body: "event_json (flops w) evt = Some body" by blast
  let ?l = "http_log w @ [\<lparr>rq_method = ''POST'', rq_url = join_url (ic_baseURL ic) ''/events'',
      rq_headers = bearer (ic_token ic), rq_body = body\<rparr>]"
  have "forward_to (client_Do (DoInternal ic)) evt w =
      (case http_ans w (length (http_log w)) of NoResponse msg \<Rightarrow> Some (External msg) | Response code b \<Rightarrow> status_result code,
       w\<lparr>http_log := ?l\<rparr>)"
    by (simp add: forward_to_def body internal_Do_def internal_do_def do_request_def assms(2) http_send_def
        split: http_result.splits)
  with that [of ?l] show ?thesis by simp
qed

text \<open>The answers are failures up to the \<open>N\<close>-th request and successes from it on, and none is a rejection.\<close>

definition answers_recover :: "nat \<Rightarrow> 's world \<Rightarrow> bool" where
  "answers_recover N w \<longleftrightarrow>
     (\<forall>n code body. http_ans w n = Response code body \<longrightarrow> code < 400 \<or> 500 \<le> code)
   \<and> (\<forall>n \<ge> N. \<exists>code body. http_ans w n = Response code body \<and> code < 400)"

lemma answer_recovers:
  assumes "answers_recover N w" "length l = Suc (length (http_log w))"
    and "err = (case http_ans w (length (http_log w)) of NoResponse msg \<Rightarrow> Some (External msg) | Response code b \<Rightarrow> status_result code)"
  shows "err = None \<or> (\<exists>e. err = Some e \<and> \<not> IsPoison e \<and> N - length l < N - length (http_log w))"
proof (cases "\<exists>code body. http_ans w (length (http_log w)) = Response code body \<and> code < 400")
  case True
  with assms(3) show ?thesis by (auto simp: status_result_def)
next
  case False
  with assms(1) have "length (http_log w) < N" unfolding answers_recover_def by (meson leI)
  moreover have "err = None \<or> (\<exists>e. err = Some e \<and> \<not> IsPoison e)"
    using assms(1,3) unfolding answers_recover_def
    by (cases "http_ans w (length (http_log w))") (fastforce simp: status_result_def err_simps)+
  ultimately show ?thesis using assms(2) by auto
qed

lemma forward_progress:
  assumes I: "service_recovers ic evt N w" and ic: "Internal (inst_Services inst) = Some ic"
    and run: "Forward ServiceInternal inst evt w = (res, w')"
  shows "service_recovers ic evt N w' \<and> (res = Returned None
    \<or> (\<exists>e. res = Returned (Some e) \<and> \<not> IsPoison e \<and> N - length (http_log w') < N - length (http_log w)))"
proof -
  from I have pre: "event_json (flops w) evt \<noteq> None" "url_error w (join_url (ic_baseURL ic) ''/events'') = None"
    and ans: "answers_recover N w" by (simp_all add: service_recovers_def answers_recover_def)
  from forward_step [OF pre] obtain l where l: "length l = Suc (length (http_log w))"
    and fwd: "forward_to (client_Do (DoInternal ic)) evt w =
      (case http_ans w (length (http_log w)) of NoResponse msg \<Rightarrow> Some (External msg) | Response code b \<Rightarrow> status_result code,
       w\<lparr>http_log := l\<rparr>)" .
  from run fwd have "w' = w\<lparr>http_log := l\<rparr>" "res = Returned (fst (forward_to (client_Do (DoInternal ic)) evt w))"
    by (auto simp: Forward_def ic)
  with answer_recovers [OF ans l refl] fwd I show ?thesis by (auto simp: service_recovers_def)
qed

interpretation forward_recovers: recovering_handler "Forward ServiceInternal" inst evt
    "\<lambda>w. Internal (inst_Services inst) = Some ic \<and> service_recovers ic evt N w" "\<lambda>w. N - length (http_log w)"
    for inst evt ic N
  by unfold_locales (use forward_progress in \<open>blast, simp_all add: service_recovers_def\<close>)

text \<open>
  An entry that parses, of a binding with the forwarding handler, is delivered and acknowledged
  when the service comes back: if its answers are failures (no answer, or a status from 500) for however
  many requests and successes from some request on, and \<^verbatim>\<open>XACK\<close> succeeds after however many errors,
  then \<open>process\<close> returns, with nil.
\<close>

lemma process_recovers:
  assumes "c_handler c = Forward ServiceInternal" "Internal (inst_Services (c_inst c)) = Some ic"
    and "Parse (msg_ID m) (msg_Values m) = Inr evt" "service_recovers ic evt N w"
    and "\<And>s. ack_succeeds r c (msg_ID m) s"
  shows "\<exists>w'. process r c m w = Some (None, w')"
proof -
  from assms(2,4) have "Internal (inst_Services (c_inst c)) = Some ic
      \<and> service_recovers ic evt N (w\<lparr>inFlight := Some (msg_ID m)\<rparr>)"
    by (simp add: service_recovers_def)
  from forward_recovers.processed_in_the_end [OF this assms(1) refl assms(3,5)] show ?thesis .
qed

subsection \<open>A context that is done stays done\<close>

definition later :: "'s world \<Rightarrow> 's world \<Rightarrow> bool" where
  "later w w' \<longleftrightarrow> polls w' = polls w \<and> poll_n w \<le> poll_n w'"

lemma later_refl [simp]: "later w w"
  by (simp add: later_def)

lemma later_trans: "later u v \<Longrightarrow> later v w \<Longrightarrow> later u w"
  by (simp add: later_def)

definition over :: "'s world \<Rightarrow> bool" where
  "over w \<longleftrightarrow> (\<forall>i \<ge> poll_n w. polls w i)"

lemma over_later: "over w \<Longrightarrow> later w w' \<Longrightarrow> over w'"
  by (simp add: over_def later_def)

lemma later_simps [simp]:
  "later w (w'\<lparr>srv := s\<rparr>) = later w w'" "later w (w'\<lparr>inFlight := x\<rparr>) = later w w'"
  "later (w\<lparr>inFlight := x\<rparr>) w' = later w w'" "later w (note_retry c n b w') = later w w'"
  by (simp_all add: later_def note_retry_def)

lemma ctx_done_later: "ctx_done w = (b, w') \<Longrightarrow> later w w'"
  by (auto simp: ctx_done_def later_def)

lemma ack_loop_later:
  assumes "ack_loop r c mid w = Some x"
  shows "later w (snd x)"
proof (induction rule: ack_loop.raw_induct [OF _ assms, where P = "\<lambda>r c mid w x. later w (snd x)"])
  case (1 rec r c mid w x)
  let ?w1 = "w\<lparr>srv := snd (XAck r (c_stream c) (c_group c) mid (srv w))\<rparr>"
  obtain b w2 where d1: "ctx_done ?w1 = (b, w2)" by fastforce
  obtain b' w3 where d2: "ctx_done w2 = (b', w3)" by fastforce
  have "later w ?w1" by simp
  with ctx_done_later [OF d1] ctx_done_later [OF d2] have l: "later w w2" "later w w3"
    by (blast intro: later_trans)+
  have "x = (None, ?w1) \<or> x = (Some canceled, w2) \<or> x = (Some canceled, w3) \<or> rec r c mid w3 = Some x"
    using 1(2) d1 d2 by (auto simp: on_server_eq split: if_splits)
  then show ?case using 1(1) [of r c mid w3 x] l by (auto intro: later_trans)
qed

lemma handler_later: "quiet_handler h \<Longrightarrow> h inst evt w = (res, w') \<Longrightarrow> later w w'"
  by (auto simp: later_def dest: quiet_handler.quiet)

lemma failures_later:
  "failures c evt k b n w b' n' w' \<Longrightarrow> quiet_handler (c_handler c) \<Longrightarrow> later w w'"
proof (induction rule: failures.induct)
  case (one_failure w e w1 w2 n b w3 k b' n' w')
  have "later w w1" using handler_later one_failure by blast
  moreover have "later w1 w2" "later w2 w3"
    using ctx_done_later [OF one_failure.hyps(3)] ctx_done_later [OF one_failure.hyps(4)]
    by (simp_all add: later_def note_retry_def)
  ultimately show ?case using one_failure by (blast intro: later_trans)
qed simp

lemma attempt_later:
  assumes q: "quiet_handler (c_handler c)" and ends: "attempt_ends r c mid evt b n w res w'"
  shows "later w w'"
  using ends
proof (cases rule: attempt_ends.cases)
  case (handled w1 err)
  from handler_later [OF q handled(2)] ack_loop_later [OF handled(3)] show ?thesis
    by (auto intro: later_trans)
next
  case (canceled_at_once e w1)
  from handler_later [OF q canceled_at_once(2)] ctx_done_later [OF canceled_at_once(4)] show ?thesis
    by (rule later_trans)
next
  case (canceled_in_pause e w1 w2)
  have "later w2 w'" using ctx_done_later [OF canceled_in_pause(5)] by (simp add: later_def note_retry_def)
  with handler_later [OF q canceled_in_pause(2)] ctx_done_later [OF canceled_in_pause(4)] show ?thesis
    by (blast intro: later_trans)
qed (use handler_later [OF q] in blast)+

lemma process_later:
  assumes q: "quiet_handler (c_handler c)" and run: "process r c m w = Some (err, w')"
  shows "later w w'"
  using run
proof (cases rule: process_cases)
  case (ended evt k b n w1 res w2)
  from failures_later [OF ended(2) q] have "later w w1" by simp
  moreover from attempt_later [OF q ended(3)] have "later w1 w2" .
  ultimately show ?thesis using ended(4) by (auto intro: later_trans)
qed simp

subsection \<open>Draining the pending entries returns\<close>

lemma process_returns:
  assumes "quiet_handler (c_handler c)" "over w"
  shows "\<exists>x. process r c m w = Some x"
proof (cases "Parse (msg_ID m) (msg_Values m)")
  case (Inr evt)
  have "\<exists>x. handle_loop r c (msg_ID m) evt initial_backoff 0 (w\<lparr>inFlight := Some (msg_ID m)\<rparr>) = Some x"
    by (rule quiet_handler.done_ends [OF assms(1) refl]) (use assms(2) in \<open>simp add: over_def\<close>)
  with Inr show ?thesis by (auto simp: process_def split: hresult.split)
qed (simp add: process_def)

lemma process_all_returns:
  assumes "quiet_handler (c_handler c)"
  shows "over w \<Longrightarrow> \<exists>err w'. process_all r c ms w = Some (err, w') \<and> later w w'"
proof (induction ms arbitrary: w)
  case (Cons m ms)
  obtain err w1 where run: "process r c m w = Some (err, w1)" using process_returns [OF assms Cons.prems] by force
  from process_later [OF assms run] have l: "later w w1" .
  show ?case
  proof (cases err)
    case None
    from Cons.IH [OF over_later [OF Cons.prems l]] obtain err' w2 where
      "process_all r c ms w1 = Some (err', w2)" "later w1 w2" by blast
    with run None l show ?thesis by (auto intro: later_trans)
  next
    case (Some e)
    with run l show ?thesis by simp
  qed
qed simp

lemma selfReclaim_returns:
  assumes laws: "pel_laws r c own" and w: "wired r c" and count: "0 < c_count c"
  shows "over w \<Longrightarrow> \<exists>x. selfReclaim r c w = Some x"
proof (induction "length (own (srv w))" arbitrary: w rule: less_induct)
  case less
  have q: "quiet_handler (c_handler c)" using w adding_quiet by (auto simp: wired_def)
  let ?pend = "XPendingExt r (c_stream c) (c_group c) 0 ''-'' ''+'' (c_count c) (Some (c_name c)) (srv w)"
  let ?w1 = "w\<lparr>srv := snd ?pend\<rparr>"
  show ?case
  proof (cases "fst ?pend")
    case (Inl msg)
    then show ?thesis by (subst selfReclaim.simps) (simp add: on_server_eq)
  next
    case (Inr xps)
    let ?claim = "XClaim r (c_stream c) (c_group c) (c_name c) 0 (map xp_ID xps) (snd ?pend)"
    let ?w2 = "?w1\<lparr>srv := snd ?claim\<rparr>"
    note unfold = selfReclaim.simps [of r c w]
    from laws Inr have page: "map xp_ID xps = take (nat (c_count c)) (own (srv w))"
      and own1: "own (snd ?pend) = own (srv w)"
      unfolding pel_laws_def by (metis prod.collapse)+
    show ?thesis
    proof (cases "xps = [] \<or> (\<exists>msg. fst ?claim = Inl msg)")
      case True
      with Inr show ?thesis by (subst unfold) (auto simp: on_server_eq)
    next
      case False
      then obtain msgs where msgs: "fst ?claim = Inr msgs" and ne: "xps \<noteq> []" by (cases "fst ?claim") auto
      have "set (map xp_ID xps) \<subseteq> set (own (snd ?pend))" unfolding page own1 by (rule set_take_subset)
      with laws msgs have ids: "map msg_ID msgs = map xp_ID xps" and own2: "own (snd ?claim) = own (srv w)"
        using own1 unfolding pel_laws_def by (metis prod.collapse)+
      have "over ?w2" using less.prems by (simp add: over_def)
      from process_all_returns [OF q this] obtain err w3 where
        run: "process_all r c msgs ?w2 = Some (err, w3)" and l: "later ?w2 w3" by blast
      show ?thesis
      proof (cases "err \<noteq> None \<or> int (length xps) < c_count c")
        case True
        with Inr ne msgs run show ?thesis by (subst unfold) (auto simp: on_server_eq)
      next
        case False
        with run have "all_processed r c msgs ?w2 w3" by (simp flip: process_all_nil)
        from all_processed_removes [OF laws w this] own2 arg_cong [OF ids, of set]
        have own3: "own (srv w3) = filter (\<lambda>i. i \<notin> set (map xp_ID xps)) (own (srv w))" by simp
        obtain i where "i \<in> set (map xp_ID xps)" using ne by (cases xps) auto
        moreover from this have "i \<in> set (own (srv w))" unfolding page by (rule in_set_takeD)
        ultimately have "length (own (srv w3)) < length (own (srv w))"
          unfolding own3 by (intro length_filter_less [of i]) simp_all
        from less.hyps [OF this over_later [OF \<open>over ?w2\<close> l]] False Inr ne msgs run show ?thesis
          by (subst unfold) (auto simp: on_server_eq)
      qed
    qed
  qed
qed

text \<open>
  C20. Shutdown: once the context is done, draining the pending entries returns, with nil or an error, however
  many are pending, for a consumer with a handler the program builds and a server that keeps pending
  entries as documented: each round either stops or makes the list of own pending entries shorter. The
  loop over the streams of a read returns as well, so the main loop reaches its look at the context.
\<close>

theorem shutdown_returns:
  assumes "buildHandler b Default r p catalog = Inr (c_handler c)" "c_policy c = FailLoud_OnFatal"
    and "0 < c_count c" "pel_laws r c own" "\<And>i. poll_n w \<le> i \<Longrightarrow> polls w i"
  shows "(\<exists>x. selfReclaim r c w = Some x) \<and> (\<exists>x. process_streams r c res w = Some x)"
proof
  have wired: "wired r c" using built_handler_adds [OF assms(1)] assms(2) by (simp add: wired_def)
  have q: "quiet_handler (c_handler c)" using built_handler_adds [OF assms(1)] by (rule adding_quiet)
  have w: "over w" using assms(5) by (simp add: over_def)
  show "\<exists>x. selfReclaim r c w = Some x" by (rule selfReclaim_returns [OF assms(4) wired assms(3) w])
  show "\<exists>x. process_streams r c res w = Some x"
    using w
  proof (induction res arbitrary: w)
    case (Cons s res)
    obtain key ms where s: "s = (key, ms)" by fastforce
    from process_all_returns [OF q Cons.prems] obtain err w1 where
      "process_all r c ms w = Some (err, w1)" "later w w1" by blast
    with Cons.IH [OF over_later [OF Cons.prems]] show ?case by (auto simp: s)
  qed simp
qed

theorem shutdown_returns_witness:
  "\<exists>x. selfReclaim mini_redis (sync_consumer one_service) stopped_world = Some x"
proof -
  let ?c = "sync_consumer one_service"
  have c: "buildHandler sync_binding Default mini_redis (New_Producer ''i'') [] = Inr (c_handler ?c)"
      "c_policy ?c = FailLoud_OnFatal" "0 < c_count ?c"
    by (simp_all add: sync_handler_built) (simp add: sync_consumer_def New_Consumer_def Let_def)
  have "\<And>i. poll_n stopped_world \<le> i \<Longrightarrow> polls stopped_world i" by (simp add: stopped_world_def)
  from shutdown_returns [OF c mini_laws this] show ?thesis by blast
qed

end
