(* ===== verification/Consume_Reclaim.thy ===== *)
theory Consume_Reclaim
  imports Consume_Group
begin

section \<open>The reclaim from peers ends and leaves nothing idle behind\<close>

text \<open>
  \<open>peer_loop\<close> pages through the idle entries of the group with a cursor while its own claims change
  the list it pages through. For a server with the documented commands the loop ends, because
  the entries behind the cursor become fewer, and every entry that was idle at its start is then
  pending for this consumer.
\<close>

subsection \<open>The documented behaviour of the commands\<close>

text \<open>
  What the two commands see of the group: the ids of its pending entries in the order of the list, which of them
  are idle long enough, and for whom they are pending.
\<close>

record pel_view =
  v_ids :: "string list"
  v_stale :: "string \<Rightarrow> bool"
  v_who :: "string \<Rightarrow> string"

text \<open>The cursor: a start with a parenthesis is exclusive, in the order \<open>before\<close> of the ids; the start \<^verbatim>\<open>-\<close> is the least id.\<close>

definition past_cursor :: "(string \<Rightarrow> string \<Rightarrow> bool) \<Rightarrow> string \<Rightarrow> string \<Rightarrow> bool" where
  "past_cursor before start i =
     (case start of [] \<Rightarrow> True | ch # mid \<Rightarrow> if ch = CHR ''('' then before mid i else True)"

lemma past_cursor_simps [simp]:
  "past_cursor before ''-'' i" "past_cursor before (CHR ''('' # mid) i = before mid i"
  by (simp_all add: past_cursor_def)

text \<open>
  \<^verbatim>\<open>XPENDING\<close> with a minimal idle time returns the idle entries past the cursor, at most \<^verbatim>\<open>COUNT\<close> of them;
  entries only get more idle meanwhile.
\<close>

definition shows_page :: "'s Consumer \<Rightarrow> (string \<Rightarrow> string \<Rightarrow> bool) \<Rightarrow> string \<Rightarrow> XPending list \<Rightarrow> pel_view \<Rightarrow> pel_view \<Rightarrow> bool" where
  "shows_page c before start xps v v' \<longleftrightarrow>
     v_ids v' = v_ids v \<and> v_who v' = v_who v \<and> (\<forall>i. v_stale v i \<longrightarrow> v_stale v' i)
   \<and> map xp_ID xps = take (nat (c_count c)) (filter (\<lambda>i. v_stale v i \<and> past_cursor before start i) (v_ids v))
   \<and> (\<forall>x \<in> set xps. xp_Consumer x = v_who v (xp_ID x))"

text \<open>
  \<^verbatim>\<open>XCLAIM\<close> moves those of its entries that are idle long enough; it resets their idle time, and drops an
  entry that is not in the stream any more.
\<close>

definition moves_claimed :: "'s Consumer \<Rightarrow> string list \<Rightarrow> pel_view \<Rightarrow> pel_view \<Rightarrow> bool" where
  "moves_claimed c ids v v' \<longleftrightarrow>
     (\<exists>gone \<subseteq> set ids. v_ids v' = filter (\<lambda>i. i \<notin> gone) (v_ids v))
   \<and> (\<forall>i \<in> set ids. v_stale v i \<longrightarrow> v_who v' i = c_name c)
   \<and> (\<forall>i. i \<notin> set ids \<longrightarrow> v_stale v i \<longrightarrow> v_stale v' i)
   \<and> (\<forall>i. v_who v' i \<in> {v_who v i, c_name c})"

text \<open>The list is sorted by id. Only the states with \<open>ok\<close> are concerned.\<close>

definition reclaim_laws ::
  "'s redis \<Rightarrow> 's Consumer \<Rightarrow> (string \<Rightarrow> string \<Rightarrow> bool) \<Rightarrow> ('s \<Rightarrow> bool) \<Rightarrow> ('s \<Rightarrow> pel_view) \<Rightarrow> bool" where
  "reclaim_laws r c before ok view \<longleftrightarrow>
     transp before \<and> irreflp before \<and> (\<forall>s. ok s \<longrightarrow> sorted_wrt before (v_ids (view s)))
   \<and> (\<forall>start s xps s'. ok s \<longrightarrow>
        XPendingExt r (c_stream c) (c_group c) (c_reclaimMinIdle c) start ''+'' (c_count c) None s = (Inr xps, s') \<longrightarrow>
        ok s' \<and> shows_page c before start xps (view s) (view s'))
   \<and> (\<forall>s ids msgs s'. ok s \<longrightarrow>
        XClaim r (c_stream c) (c_group c) (c_name c) (c_reclaimMinIdle c) ids s = (Inr msgs, s') \<longrightarrow>
        ok s' \<and> moves_claimed c ids (view s) (view s'))"

subsection \<open>One page\<close>

text \<open>What is left of a sorted list behind a full page lies past the page's last id.\<close>

lemma page_split:
  assumes "sorted_wrt before xs" "ys = take n (filter P xs)" "ys \<noteq> []" "i \<in> set xs" "P i"
  shows "i \<in> set ys \<or> before (last ys) i"
proof -
  have "sorted_wrt before (take n (filter P xs) @ drop n (filter P xs))"
    using assms(1) by (simp add: sorted_wrt_filter)
  then have "\<forall>x \<in> set ys. \<forall>y \<in> set (drop n (filter P xs)). before x y"
    unfolding sorted_wrt_append assms(2) by (elim conjE)
  moreover have "i \<in> set ys \<or> i \<in> set (drop n (filter P xs))"
    using assms(4,5) unfolding assms(2) Un_iff [symmetric] set_append [symmetric] append_take_drop_id by simp
  ultimately show ?thesis using assms(3) by auto
qed

text \<open>The state after a page has been read and the entries of others on it have been claimed.\<close>

definition claimed_view :: "'s Consumer \<Rightarrow> string set \<Rightarrow> pel_view \<Rightarrow> pel_view \<Rightarrow> bool" where
  "claimed_view c page v v' \<longleftrightarrow>
     set (v_ids v') \<subseteq> set (v_ids v)
   \<and> (\<forall>i \<in> page. v_who v' i = c_name c)
   \<and> (\<forall>i. i \<notin> page \<longrightarrow> v_stale v i \<longrightarrow> v_stale v' i)
   \<and> (\<forall>i. v_who v' i \<in> {v_who v i, c_name c})"

lemma one_page:
  assumes laws: "reclaim_laws r c before ok view" and "ok (srv w)"
    and page: "XPendingExt r (c_stream c) (c_group c) (c_reclaimMinIdle c) start ''+'' (c_count c) None (srv w) = (Inr xps, s1)"
    and claims: "claim_from_peers r c (toClaimIDs c xps) (w\<lparr>srv := s1\<rparr>) = (None, w2)"
  shows "ok (srv w2) \<and> claimed_view c (xp_ID ` set xps) (view (srv w)) (view (srv w2))"
proof -
  from laws assms(2) page have "ok s1 \<and> shows_page c before start xps (view (srv w)) (view s1)"
    unfolding reclaim_laws_def by blast
  then have s1: "ok s1" "v_ids (view s1) = v_ids (view (srv w))" "v_who (view s1) = v_who (view (srv w))"
    "\<forall>i. v_stale (view (srv w)) i \<longrightarrow> v_stale (view s1) i"
    and ids: "map xp_ID xps = take (nat (c_count c))
          (filter (\<lambda>i. v_stale (view (srv w)) i \<and> past_cursor before start i) (v_ids (view (srv w))))"
    and whose: "\<forall>x \<in> set xps. xp_Consumer x = v_who (view (srv w)) (xp_ID x)"
    by (simp_all add: shows_page_def)
  have stale: "\<forall>x \<in> set xps. v_stale (view s1) (xp_ID x)"
    using arg_cong [OF ids, of set] s1(4) set_take_subset by fastforce
  have mine: "v_who (view (srv w)) (xp_ID x) = c_name c" if "x \<in> set xps" "xp_ID x \<notin> set (toClaimIDs c xps)" for x
    using that whose by (auto simp: toClaimIDs_def)
  have sub: "set (toClaimIDs c xps) \<subseteq> xp_ID ` set xps" by (auto simp: toClaimIDs_def)
  show ?thesis
  proof (cases "toClaimIDs c xps = []")
    case True
    with claims have "w2 = w\<lparr>srv := s1\<rparr>" by (simp add: claim_from_peers_def)
    with s1 mine True show ?thesis by (simp add: claimed_view_def)
  next
    case False
    with claims obtain msgs s2 where
      claim: "XClaim r (c_stream c) (c_group c) (c_name c) (c_reclaimMinIdle c) (toClaimIDs c xps) s1 = (Inr msgs, s2)"
      and w2: "w2 = w\<lparr>srv := s2\<rparr>"
      by (auto simp: claim_from_peers_def on_server_def split: prod.splits sum.splits)
    from laws s1(1) claim have "ok s2 \<and> moves_claimed c (toClaimIDs c xps) (view s1) (view s2)"
      unfolding reclaim_laws_def by blast
    then have s2: "ok s2" "set (v_ids (view s2)) \<subseteq> set (v_ids (view s1))"
      "\<forall>i \<in> set (toClaimIDs c xps). v_stale (view s1) i \<longrightarrow> v_who (view s2) i = c_name c"
      "\<forall>i. i \<notin> set (toClaimIDs c xps) \<longrightarrow> v_stale (view s1) i \<longrightarrow> v_stale (view s2) i"
      "\<forall>i. v_who (view s2) i \<in> {v_who (view s1) i, c_name c}"
      by (auto simp: moves_claimed_def)
    have "v_who (view s2) (xp_ID x) = c_name c" if "x \<in> set xps" for x
      using that s2(3) spec [OF s2(5), of "xp_ID x"] stale mine [OF that] s1(3) by (cases "xp_ID x \<in> set (toClaimIDs c xps)") auto
    moreover have "v_stale (view s2) i" if "i \<notin> xp_ID ` set xps" "v_stale (view (srv w)) i" for i
      using that s1(4) s2(4) sub by blast
    ultimately show ?thesis using s1 s2 w2 by (simp add: claimed_view_def)
  qed
qed

subsection \<open>The loop\<close>

definition behind :: "(string \<Rightarrow> string \<Rightarrow> bool) \<Rightarrow> string \<Rightarrow> pel_view \<Rightarrow> nat" where
  "behind before start v = card {i \<in> set (v_ids v). past_cursor before start i}"

lemma behind_decreases:
  assumes "transp before" "irreflp before" "set (v_ids v') \<subseteq> set (v_ids v)"
    and "mid \<in> set (v_ids v)" "past_cursor before start mid"
  shows "behind before (CHR ''('' # mid) v' < behind before start v"
  unfolding behind_def
proof (rule psubset_card_mono)
  have "past_cursor before start i" if "before mid i" for i
    using assms(1,5) that by (auto simp: past_cursor_def split: list.splits if_splits dest: transpD)
  then show "{i \<in> set (v_ids v'). past_cursor before (CHR ''('' # mid) i}
      \<subset> {i \<in> set (v_ids v). past_cursor before start i}"
    using assms by (auto simp: psubset_eq dest: irreflpD)
qed simp

lemma peer_loop_ends:
  assumes laws: "reclaim_laws r c before ok view" and count: "0 < c_count c" and "ok (srv w)"
  shows "\<exists>err w'. peer_loop r c start w = Some (err, w') \<and> (err = None \<longrightarrow>
           set (v_ids (view (srv w'))) \<subseteq> set (v_ids (view (srv w)))
         \<and> (\<forall>i. v_who (view (srv w')) i \<in> {v_who (view (srv w)) i, c_name c})
         \<and> (\<forall>i \<in> set (v_ids (view (srv w'))). v_stale (view (srv w)) i \<and> past_cursor before start i \<longrightarrow>
               v_who (view (srv w')) i = c_name c))"
  using assms(3)
proof (induction "behind before start (view (srv w))" arbitrary: start w rule: less_induct)
  case less
  let ?v = "view (srv w)"
  obtain reply s1 where page: "XPendingExt r (c_stream c) (c_group c) (c_reclaimMinIdle c) start ''+'' (c_count c) None
      (srv w) = (reply, s1)" by fastforce
  show ?case
  proof (cases reply)
    case (Inl msg)
    with page show ?thesis by (subst peer_loop.simps) (simp add: on_server_eq)
  next
    case (Inr xps)
    let ?ids = "map xp_ID xps"
    from laws less.prems page Inr have "shows_page c before start xps ?v (view s1)"
      unfolding reclaim_laws_def by blast
    then have ids: "?ids = take (nat (c_count c)) (filter (\<lambda>i. v_stale ?v i \<and> past_cursor before start i) (v_ids ?v))"
      by (simp add: shows_page_def)
    have order: "transp before" "irreflp before" "sorted_wrt before (v_ids ?v)"
      using laws less.prems unfolding reclaim_laws_def by blast+
    obtain err w2 where cl: "claim_from_peers r c (toClaimIDs c xps) (w\<lparr>srv := s1\<rparr>) = (err, w2)" by fastforce
    have body: "peer_loop r c start w =
        (if err \<noteq> None then Some (err, w2) else if int (length xps) < c_count c then Some (None, w2)
         else peer_loop r c (CHR ''('' # xp_ID (last xps)) w2)"
    proof (cases "xps = []")
      case True
      with cl have "err = None \<and> w2 = w\<lparr>srv := s1\<rparr>" by (simp add: claim_from_peers_def toClaimIDs_def)
      with True page Inr count show ?thesis by (subst peer_loop.simps) (simp add: on_server_eq)
    next
      case False
      with page Inr cl show ?thesis by (subst peer_loop.simps) (simp add: on_server_eq)
    qed
    show ?thesis
    proof (cases "err = None")
      case True
      from one_page [OF laws less.prems page [unfolded Inr]] cl True have
        ok2: "ok (srv w2)" and view2: "claimed_view c (set ?ids) ?v (view (srv w2))" by simp_all
      have covered: "i \<in> set ?ids \<or> ?ids \<noteq> [] \<and> \<not> int (length xps) < c_count c \<and> before (last ?ids) i"
        if "i \<in> set (v_ids ?v)" "v_stale ?v i" "past_cursor before start i" for i
      proof (cases "int (length xps) < c_count c")
        case True
        have "length ?ids < nat (c_count c)" using True by simp
        then have "?ids = filter (\<lambda>i. v_stale ?v i \<and> past_cursor before start i) (v_ids ?v)"
          unfolding ids by (simp add: min_def split: if_splits)
        with that show ?thesis by simp
      next
        case False
        with count have "?ids \<noteq> []" by auto
        from page_split [OF order(3) ids this that(1)] that False \<open>?ids \<noteq> []\<close> show ?thesis by blast
      qed
      show ?thesis
      proof (cases "int (length xps) < c_count c")
        case True
        with covered have "\<forall>i \<in> set (v_ids ?v). v_stale ?v i \<and> past_cursor before start i \<longrightarrow> i \<in> set ?ids" by blast
        with view2 have "\<forall>i \<in> set (v_ids (view (srv w2))). v_stale ?v i \<and> past_cursor before start i \<longrightarrow>
            v_who (view (srv w2)) i = c_name c"
          unfolding claimed_view_def by blast
        with body \<open>err = None\<close> True view2 show ?thesis by (simp add: claimed_view_def)
      next
        case False
        with count have ne: "xps \<noteq> []" by auto
        let ?mid = "xp_ID (last xps)"
        have "?mid \<in> set ?ids" using ne by simp
        then have "?mid \<in> set (v_ids ?v) \<and> past_cursor before start ?mid"
          unfolding ids by (auto dest: in_set_takeD)
        with behind_decreases [OF order(1,2), of "view (srv w2)" ?v ?mid start] view2
        have "behind before (CHR ''('' # ?mid) (view (srv w2)) < behind before start ?v"
          by (simp add: claimed_view_def)
        from less.hyps [OF this ok2] obtain err' w' where
          rest: "peer_loop r c (CHR ''('' # ?mid) w2 = Some (err', w')"
          and after: "err' = None \<longrightarrow> set (v_ids (view (srv w'))) \<subseteq> set (v_ids (view (srv w2)))
            \<and> (\<forall>i. v_who (view (srv w')) i \<in> {v_who (view (srv w2)) i, c_name c})
            \<and> (\<forall>i \<in> set (v_ids (view (srv w'))). v_stale (view (srv w2)) i \<and> before ?mid i \<longrightarrow>
                 v_who (view (srv w')) i = c_name c)" by auto
        have last: "last ?ids = ?mid" using ne by (simp add: last_map)
        have "v_who (view (srv w')) i = c_name c"
          if "err' = None" "i \<in> set (v_ids (view (srv w')))" "v_stale ?v i" "past_cursor before start i" for i
        proof (cases "i \<in> set ?ids")
          case True
          with view2 have "v_who (view (srv w2)) i = c_name c" unfolding claimed_view_def by blast
          with after that(1) show ?thesis by force
        next
          case False
          from that after view2 have "i \<in> set (v_ids ?v)" by (auto simp: claimed_view_def)
          from covered [OF this that(3,4)] False last have "before ?mid i" by simp
          moreover from False view2 that(3) have "v_stale (view (srv w2)) i" by (simp add: claimed_view_def)
          ultimately show ?thesis using after that(1,2) by blast
        qed
        moreover have "err' = None \<longrightarrow> set (v_ids (view (srv w'))) \<subseteq> set (v_ids ?v)
            \<and> (\<forall>i. v_who (view (srv w')) i \<in> {v_who ?v i, c_name c})"
        proof (intro impI conjI allI)
          assume "err' = None"
          with after have ends: "set (v_ids (view (srv w'))) \<subseteq> set (v_ids (view (srv w2)))"
            "\<And>i. v_who (view (srv w')) i \<in> {v_who (view (srv w2)) i, c_name c}" by blast+
          from view2 have mid: "set (v_ids (view (srv w2))) \<subseteq> set (v_ids ?v)"
            "\<And>i. v_who (view (srv w2)) i \<in> {v_who ?v i, c_name c}" unfolding claimed_view_def by blast+
          from ends(1) mid(1) show "set (v_ids (view (srv w'))) \<subseteq> set (v_ids ?v)" by (rule subset_trans)
          show "v_who (view (srv w')) i \<in> {v_who ?v i, c_name c}" for i
            using ends(2) [of i] mid(2) [of i] by (elim insertE emptyE) simp_all
        qed
        ultimately show ?thesis using body rest \<open>err = None\<close> False by auto
      qed
    next
      case False
      with body show ?thesis by (cases err) simp_all
    qed
  qed
qed

text \<open>
  C11. The reclaim from peers ends, and when it returns nil every entry of the group that was idle long enough at
  its start, and has not been dropped from the list, is pending for this consumer, so that its next
  \<open>selfReclaim\<close> handles it: on any server whose \<^verbatim>\<open>XPENDING\<close> and \<^verbatim>\<open>XCLAIM\<close> work as documented, although
  each claim takes entries out of the list the cursor runs through. No entry moves to anybody else.
\<close>

theorem peer_reclaim_complete:
  assumes "reclaim_laws r c before ok view" "0 < c_count c" "ok (srv w)"
  shows "\<exists>err w'. peerReclaim r c w = Some (err, w') \<and> (err = None \<longrightarrow>
           (\<forall>i \<in> set (v_ids (view (srv w'))). v_stale (view (srv w)) i \<longrightarrow> v_who (view (srv w')) i = c_name c)
         \<and> (\<forall>i. v_who (view (srv w')) i \<in> {v_who (view (srv w)) i, c_name c}))"
proof -
  from peer_loop_ends [OF assms, of "''-''"] obtain err w' where
    run: "peer_loop r c ''-'' w = Some (err, w')"
    and after: "err = None \<longrightarrow> (\<forall>i. v_who (view (srv w')) i \<in> {v_who (view (srv w)) i, c_name c})
         \<and> (\<forall>i \<in> set (v_ids (view (srv w'))). v_stale (view (srv w)) i \<and> past_cursor before ''-'' i \<longrightarrow>
               v_who (view (srv w')) i = c_name c)" by blast
  from after have "err = None \<longrightarrow> (\<forall>i \<in> set (v_ids (view (srv w'))). v_stale (view (srv w)) i \<longrightarrow> v_who (view (srv w')) i = c_name c)
         \<and> (\<forall>i. v_who (view (srv w')) i \<in> {v_who (view (srv w)) i, c_name c})" by simp
  with run show ?thesis unfolding peerReclaim_def by blast
qed

subsection \<open>The concrete server\<close>

text \<open>The order of the ids is their order in the list of pending entries.\<close>

fun precedes :: "string list \<Rightarrow> string \<Rightarrow> string \<Rightarrow> bool" where
  "precedes [] a b = False"
| "precedes (x # xs) a b = (if a = x then b \<in> set xs else precedes xs a b)"

lemma precedes_set: "precedes xs a b \<Longrightarrow> a \<in> set xs \<and> b \<in> set xs"
  by (induction xs) (auto split: if_splits)

lemma precedes_order:
  assumes "distinct xs"
  shows "transp (precedes xs)" "irreflp (precedes xs)" "sorted_wrt (precedes xs) xs"
proof -
  from assms have "precedes xs a b \<Longrightarrow> precedes xs b d \<Longrightarrow> precedes xs a d" for a b d
    by (induction xs) (auto split: if_splits dest: precedes_set)
  then show "transp (precedes xs)" by (rule transpI)
  from assms have "\<not> precedes xs a a" for a by (induction xs) (auto split: if_splits)
  then show "irreflp (precedes xs)" by (rule irreflpI)
  from assms show "sorted_wrt (precedes xs) xs"
  proof (induction xs)
    case (Cons x xs)
    have "precedes (x # xs) a b" if "a \<in> set xs" "precedes xs a b" for a b
      using that Cons.prems by auto
    then have "sorted_wrt (precedes (x # xs)) xs"
      by (rule sorted_wrt_mono_rel [of xs "precedes xs"]) (use Cons in simp_all)
    then show ?case by (simp del: precedes.simps) (simp add: precedes.simps)
  qed simp
qed

lemma precedes_after: "distinct xs \<Longrightarrow> tl (dropWhile (\<lambda>i. i \<noteq> a) xs) = filter (precedes xs a) xs"
proof (induction xs)
  case (Cons x xs)
  show ?case
  proof (cases "a = x")
    case True
    with Cons show ?thesis by (auto simp: filter_id_conv intro!: sym [of "filter _ _"])
  next
    case False
    with Cons show ?thesis by (auto dest: precedes_set cong: filter_cong)
  qed
qed simp

definition mini_view :: "mini \<Rightarrow> pel_view" where
  "mini_view s = \<lparr>v_ids = m_pel s, v_stale = (\<lambda>i. i \<in> set (m_pel s)), v_who = m_owner s\<rparr>"

lemma mini_reclaim_laws:
  assumes "distinct xs"
  shows "reclaim_laws mini_redis c (precedes xs) (\<lambda>s. m_pel s = xs) mini_view"
proof -
  have cursor: "mini_after start xs = filter (\<lambda>i. i \<in> set xs \<and> past_cursor (precedes xs) start i) xs" for start
    using precedes_after [OF assms] by (auto simp: mini_after_def past_cursor_def split: list.splits intro!: filter_cong)
  show ?thesis
    using precedes_order [OF assms]
    by (simp add: reclaim_laws_def mini_redis_def mini_view_def shows_page_def moves_claimed_def mini_claim_def
        cursor comp_def Let_def exI [of "\<lambda>gone. gone \<subseteq> set _ \<and> xs = filter (\<lambda>i. i \<notin> gone) xs" "{}"])
qed

text \<open>Eleven entries a dead peer left: a full page and another.\<close>

definition orphans :: "string list" where
  "orphans = [''1-0'', ''2-0'', ''3-0'', ''4-0'', ''5-0'', ''6-0'', ''7-0'', ''8-0'', ''9-0'', ''10-0'', ''11-0'']"

definition orphan_world :: "mini world" where
  "orphan_world = world0 (mini0\<lparr>m_entries := map (\<lambda>i. \<lparr>msg_ID = i, msg_Values = []\<rparr>) orphans, m_delivered := 11,
     m_pel := orphans, m_owner := (\<lambda>i. if i = ''3-0'' then ''pod-1'' else ''pod-2'')\<rparr>)"

lemma orphans_distinct: "distinct orphans"
  by code_simp

lemma orphan_demo:
  "case peerReclaim mini_redis (sync_consumer no_services) orphan_world of
     Some (err, w') \<Rightarrow> err = None \<and> m_pel (srv w') = orphans | None \<Rightarrow> False"
  by code_simp

theorem peer_reclaim_complete_witness:
  "\<exists>w'. peerReclaim mini_redis (sync_consumer no_services) orphan_world = Some (None, w')
     \<and> m_pel (srv w') = orphans \<and> (\<forall>i \<in> set orphans. m_owner (srv w') i = ''pod-1'')"
proof -
  have c: "c_name (sync_consumer no_services) = ''pod-1''" "0 < c_count (sync_consumer no_services)"
    by (simp_all add: sync_consumer_def New_Consumer_def Let_def)
  obtain w' where run: "peerReclaim mini_redis (sync_consumer no_services) orphan_world = Some (None, w')"
    and pel: "m_pel (srv w') = orphans"
    using orphan_demo by (auto split: option.splits)
  have start: "m_pel (srv orphan_world) = orphans" by (simp add: orphan_world_def world0_def mini0_def)
  from peer_reclaim_complete [OF mini_reclaim_laws [OF orphans_distinct] c(2) start] run
  have "\<forall>i \<in> set (m_pel (srv w')). m_owner (srv w') i = ''pod-1''"
    using start pel c(1) by (simp add: mini_view_def)
  with run pel show ?thesis by simp
qed

end
