(* ===== verification/Consume_Heartbeat.thy ===== *)
theory Consume_Heartbeat
  imports Consume_Steps
begin

section \<open>The heartbeat against reclaiming peers\<close>

text \<open>
  Why an entry that takes long is not stolen: the heartbeat resets its idle time before any peer with the
  same idle period may claim it. Time is the server's clock, which passes between the commands; the
  heartbeat's ticker bounds how far it may go without a successful beat. The rest of the batch an
  entry was read in has no such protection, which the last section shows.
\<close>

subsection \<open>Time and ownership on the server\<close>

text \<open>What the server keeps of one entry: its owner, when it was last delivered or claimed, and the time.\<close>

record 's idle_clock =
  k_owner :: "'s \<Rightarrow> string option"
  k_since :: "'s \<Rightarrow> int"
  k_now :: "'s \<Rightarrow> int"

definition same_idle :: "'s idle_clock \<Rightarrow> 's \<Rightarrow> 's \<Rightarrow> bool" where
  "same_idle k s s' \<longleftrightarrow> k_owner k s' = k_owner k s \<and> k_since k s' = k_since k s \<and> k_now k s' = k_now k s"

text \<open>
  The documented behaviour: \<^verbatim>\<open>XPENDING\<close> changes nothing, \<^verbatim>\<open>XCLAIM\<close> leaves an entry alone that it does not
  name or that is not idle long enough, and with no idle time it claims a pending entry, which resets its idle
  time. A reply that is lost leaves open whether the claim has happened.
\<close>

definition idle_laws :: "'s redis \<Rightarrow> string \<Rightarrow> string \<Rightarrow> string \<Rightarrow> 's idle_clock \<Rightarrow> bool" where
  "idle_laws r stream grp mid k \<longleftrightarrow>
     (\<forall>idle start stop count who s. same_idle k s (snd (XPendingExt r stream grp idle start stop count who s)))
   \<and> (\<forall>name idle ids s. mid \<notin> set ids \<or> 0 < idle \<and> k_now k s - k_since k s < idle \<longrightarrow>
        same_idle k s (snd (XClaim r stream grp name idle ids s)))
   \<and> (\<forall>name s reply s'. XClaimJustID r stream grp name 0 [mid] s = (reply, s') \<longrightarrow> k_owner k s \<noteq> None \<longrightarrow>
        k_now k s' = k_now k s
      \<and> (k_owner k s' = Some name \<and> k_since k s' = k_now k s \<or> (\<exists>msg. reply = Inl msg) \<and> same_idle k s s'))"

subsection \<open>Runs with a heartbeat\<close>

text \<open>
  The states of the world while the entry is in flight, with the time of the last successful beat; before the
  first one, that of the moment the entry went in flight. A beat may fail or come early, but time does not
  pass for longer than \<open>gap\<close> without a successful one. Meanwhile consumers in \<open>peers\<close> run \<open>peerReclaim\<close>,
  and the server does other work.
\<close>

inductive in_flight_run ::
  "'s redis \<Rightarrow> 's Consumer \<Rightarrow> 's Consumer set \<Rightarrow> 's idle_clock \<Rightarrow> int \<Rightarrow> 's world \<Rightarrow> int \<Rightarrow> 's world \<Rightarrow> bool"
  for r c peers k gap w0 where
  goes_in_flight: "in_flight_run r c peers k gap w0 (k_now k (srv w0)) w0"
| beats: "in_flight_run r c peers k gap w0 beat w \<Longrightarrow> inFlight w = Some mid \<Longrightarrow> claimFn r c mid w = (None, w') \<Longrightarrow>
    in_flight_run r c peers k gap w0 (k_now k (srv w)) (heartbeat_tick r c w)"
| misses: "in_flight_run r c peers k gap w0 beat w \<Longrightarrow> in_flight_run r c peers k gap w0 beat (heartbeat_tick r c w)"
| passes: "in_flight_run r c peers k gap w0 beat w \<Longrightarrow> k_owner k s = k_owner k (srv w) \<Longrightarrow> k_since k s = k_since k (srv w) \<Longrightarrow>
    k_now k (srv w) \<le> k_now k s \<Longrightarrow> k_now k s \<le> beat + gap \<Longrightarrow>
    in_flight_run r c peers k gap w0 beat (w\<lparr>srv := s\<rparr>)"
| reclaims: "in_flight_run r c peers k gap w0 beat w \<Longrightarrow> p \<in> peers \<Longrightarrow> peerReclaim r p w = Some (err, w') \<Longrightarrow>
    in_flight_run r c peers k gap w0 beat w'"
| works: "in_flight_run r c peers k gap w0 beat w \<Longrightarrow> same_idle k (srv w) s \<Longrightarrow>
    in_flight_run r c peers k gap w0 beat (w\<lparr>srv := s\<rparr>)"

definition beating :: "'s Consumer \<Rightarrow> string \<Rightarrow> 's idle_clock \<Rightarrow> int \<Rightarrow> int \<Rightarrow> int \<Rightarrow> 's world \<Rightarrow> bool" where
  "beating c mid k gap waited beat w \<longleftrightarrow>
     inFlight w = Some mid \<and> k_owner k (srv w) = Some (c_name c)
   \<and> k_since k (srv w) \<le> k_now k (srv w) \<and> beat \<le> k_now k (srv w) \<and> k_now k (srv w) \<le> beat + gap
   \<and> beat - k_since k (srv w) \<le> waited"

lemma beating_idle: "beating c mid k gap waited beat w \<Longrightarrow> k_now k (srv w) - k_since k (srv w) \<le> waited + gap"
  by (simp add: beating_def)

lemma beating_same: "same_idle k (srv w) s \<Longrightarrow> beating c mid k gap waited beat w \<Longrightarrow> beating c mid k gap waited beat (w\<lparr>srv := s\<rparr>)"
  by (simp add: beating_def same_idle_def)

lemma heartbeat_in_flight:
  "inFlight w = Some mid \<Longrightarrow>
     heartbeat_tick r c w = w\<lparr>srv := snd (XClaimJustID r (c_stream c) (c_group c) (c_name c) 0 [mid] (srv w))\<rparr>
   \<and> ((\<exists>w'. claimFn r c mid w = (None, w')) \<longleftrightarrow>
       (\<exists>ids. fst (XClaimJustID r (c_stream c) (c_group c) (c_name c) 0 [mid] (srv w)) = Inr ids))"
  by (auto simp: heartbeat_tick_def claimFn_def on_server_eq split: sum.splits)

lemma heartbeat_claims:
  assumes laws: "idle_laws r (c_stream c) (c_group c) mid k" and "inFlight w = Some mid" "k_owner k (srv w) \<noteq> None"
  shows "inFlight (heartbeat_tick r c w) = Some mid \<and> k_now k (srv (heartbeat_tick r c w)) = k_now k (srv w)
    \<and> (k_owner k (srv (heartbeat_tick r c w)) = Some (c_name c)
         \<and> k_since k (srv (heartbeat_tick r c w)) = k_now k (srv w)
       \<or> (\<nexists>w'. claimFn r c mid w = (None, w')) \<and> same_idle k (srv w) (srv (heartbeat_tick r c w)))"
proof -
  obtain reply s' where claim: "XClaimJustID r (c_stream c) (c_group c) (c_name c) 0 [mid] (srv w) = (reply, s')" by fastforce
  with laws assms(3) have "k_now k s' = k_now k (srv w)
      \<and> (k_owner k s' = Some (c_name c) \<and> k_since k s' = k_now k (srv w) \<or> (\<exists>msg. reply = Inl msg) \<and> same_idle k (srv w) s')"
    unfolding idle_laws_def by blast
  with heartbeat_in_flight [OF assms(2), of r c] claim assms(2) show ?thesis by auto
qed

lemma reclaim_too_early:
  assumes laws: "idle_laws r (c_stream p) (c_group p) mid k"
    and run: "peerReclaim r p w = Some (err, w')" and "k_now k (srv w) - k_since k (srv w) < c_reclaimMinIdle p"
    and "0 < c_reclaimMinIdle p"
  shows "same_idle k (srv w) (srv w') \<and> w' = w\<lparr>srv := srv w'\<rparr>"
proof -
  from peer_loop_steps [OF run [unfolded peerReclaim_def]]
  have steps: "(peer_step r p)\<^sup>*\<^sup>* (srv w) (srv w')" and frame: "w' = w\<lparr>srv := srv w'\<rparr>" by simp_all
  from steps have "same_idle k (srv w) (srv w')"
  proof (induction rule: rtranclp_induct)
    case (step s s')
    from step.hyps(2) have "same_idle k s s'"
    proof (cases rule: peer_step.cases)
      case (reads start)
      with laws show ?thesis by (simp add: idle_laws_def)
    next
      case (claims start s0 xps ids)
      have "k_now k s - k_since k s < c_reclaimMinIdle p" using step.IH assms(3) by (simp add: same_idle_def)
      with claims laws assms(4) show ?thesis by (simp add: idle_laws_def)
    qed
    with step.IH show ?case by (simp add: same_idle_def)
  qed (simp add: same_idle_def)
  with frame show ?thesis by blast
qed

lemma in_flight_beating:
  assumes laws: "idle_laws r (c_stream c) (c_group c) mid k"
    and peers: "\<And>p. p \<in> peers \<Longrightarrow> c_stream p = c_stream c \<and> c_group p = c_group c \<and> waited + gap < c_reclaimMinIdle p"
    and start: "beating c mid k gap waited (k_now k (srv w0)) w0"
    and "in_flight_run r c peers k gap w0 beat w"
  shows "beating c mid k gap waited beat w"
  using assms(4)
proof (induction rule: in_flight_run.induct)
  case goes_in_flight
  show ?case by (rule start)
next
  case (beats beat w mid' w')
  have gap: "0 \<le> gap" "0 \<le> waited" using start by (auto simp: beating_def)
  from beats have "mid' = mid" by (simp add: beating_def)
  with beats heartbeat_claims [OF laws, of w] gap show ?case by (auto simp: beating_def)
next
  case (misses beat w)
  with heartbeat_claims [OF laws, of w] show ?case by (auto simp: beating_def same_idle_def)
next
  case (passes beat w s)
  then show ?case by (simp add: beating_def)
next
  case (reclaims beat w p err w')
  from start have "0 \<le> waited + gap" by (simp add: beating_def)
  with peers [OF reclaims.hyps(2)] beating_idle [OF reclaims.IH] laws
  have "same_idle k (srv w) (srv w') \<and> w' = w\<lparr>srv := srv w'\<rparr>"
    by (intro reclaim_too_early [OF _ reclaims.hyps(3)]) simp_all
  then show ?case using beating_same [OF _ reclaims.IH] by metis
next
  case (works beat w s)
  from beating_same [OF works.hyps(2) works.IH] show ?case .
qed

text \<open>
  C12. The heartbeat keeps the entry in flight from being stolen. Let a consumer have a heartbeat interval of at most half
  the idle period, as the configuration enforces, let peers of the same group have the same idle period, and
  let the delay of a beat and the idle time the entry had when it went in flight together be less than what
  the interval leaves of the period. Then, as long as a beat succeeds in each interval, give or take the delay,
  the entry stays pending for this consumer, and is never idle long enough to be claimed, whatever the
  peers' reclaims do in between.
\<close>

theorem heartbeat_protects:
  assumes "2 * c_heartbeatInterval c \<le> c_reclaimMinIdle c" "0 \<le> c_heartbeatInterval c"
    and "idle_laws r (c_stream c) (c_group c) mid k"
    and "\<And>p. p \<in> peers \<Longrightarrow> c_stream p = c_stream c \<and> c_group p = c_group c \<and> c_reclaimMinIdle p = c_reclaimMinIdle c"
    and "inFlight w0 = Some mid" "k_owner k (srv w0) = Some (c_name c)" "k_since k (srv w0) \<le> k_now k (srv w0)"
    and "0 \<le> late" "k_now k (srv w0) - k_since k (srv w0) + late < c_reclaimMinIdle c - c_heartbeatInterval c"
    and "in_flight_run r c peers k (c_heartbeatInterval c + late) w0 beat w"
  shows "k_owner k (srv w) = Some (c_name c) \<and> k_now k (srv w) - k_since k (srv w) < c_reclaimMinIdle c"
proof -
  let ?waited = "k_now k (srv w0) - k_since k (srv w0)"
  have "beating c mid k (c_heartbeatInterval c + late) ?waited (k_now k (srv w0)) w0"
    using assms(2,5-8) by (simp add: beating_def)
  from in_flight_beating [OF assms(3) _ this assms(10)] assms(4,9)
  have "beating c mid k (c_heartbeatInterval c + late) ?waited beat w" by force
  with beating_idle [OF this] assms(9) show ?thesis by (simp add: beating_def)
qed

subsection \<open>A server with a clock\<close>

text \<open>The pending entries of one group: id, owner, and the time of the last delivery or claim.\<close>

record clocked =
  kc_now :: int
  kc_pel :: "(string \<times> string \<times> int) list"

definition idle_enough :: "clocked \<Rightarrow> int \<Rightarrow> string \<times> string \<times> int \<Rightarrow> bool" where
  "idle_enough s idle = (\<lambda>(i, who, since). idle \<le> 0 \<or> idle \<le> kc_now s - since)"

definition clocked_claim :: "string \<Rightarrow> int \<Rightarrow> string list \<Rightarrow> clocked \<Rightarrow> string list \<times> clocked" where
  "clocked_claim name idle ids s =
     (map fst (filter (\<lambda>e. fst e \<in> set ids \<and> idle_enough s idle e) (kc_pel s)),
      s\<lparr>kc_pel := map (\<lambda>(i, v). (i, if i \<in> set ids \<and> idle_enough s idle (i, v) then (name, kc_now s) else v)) (kc_pel s)\<rparr>)"

definition clocked_redis :: "clocked redis" where
  "clocked_redis = \<lparr>
     XAdd = (\<lambda>stream fs s. (None, s)),
     XGroupCreateMkStream = (\<lambda>stream grp start s. (None, s)),
     XReadGroup = (\<lambda>grp name stream count block s. (ReadNil, s)),
     XPendingExt = (\<lambda>stream grp idle start stop count who s.
       (Inr (map (\<lambda>(i, name, since). \<lparr>xp_ID = i, xp_Consumer = name, xp_Idle = kc_now s - since\<rparr>)
          (take (nat count) (filter (\<lambda>e. idle_enough s idle e
             \<and> fst e \<in> set (mini_after start (map fst (kc_pel s)))
             \<and> (case who of None \<Rightarrow> True | Some me \<Rightarrow> fst (snd e) = me)) (kc_pel s)))), s)),
     XClaim = (\<lambda>stream grp name idle ids s. (case clocked_claim name idle ids s of
       (got, s') \<Rightarrow> (Inr (map (\<lambda>i. \<lparr>msg_ID = i, msg_Values = []\<rparr>) got), s'))),
     XClaimJustID = (\<lambda>stream grp name idle ids s. (case clocked_claim name idle ids s of (got, s') \<Rightarrow> (Inr got, s'))),
     XAck = (\<lambda>stream grp i s. (None, s\<lparr>kc_pel := filter (\<lambda>e. fst e \<noteq> i) (kc_pel s)\<rparr>)),
     XInfoConsumers = (\<lambda>stream grp s. (Inr [], s)),
     XGroupDelConsumer = (\<lambda>stream grp name s. (None, s\<lparr>kc_pel := filter (\<lambda>e. fst (snd e) \<noteq> name) (kc_pel s)\<rparr>)) \<rparr>"

definition entry_clock :: "string \<Rightarrow> clocked idle_clock" where
  "entry_clock mid = \<lparr>k_owner = (\<lambda>s. map_option fst (map_of (kc_pel s) mid)),
     k_since = (\<lambda>s. case map_of (kc_pel s) mid of None \<Rightarrow> 0 | Some v \<Rightarrow> snd v), k_now = kc_now\<rparr>"

lemma map_of_map_value: "map_of (map (\<lambda>(i, v). (i, f i v)) xs) k = map_option (f k) (map_of xs k)"
  by (induction xs) auto

lemma clocked_laws: "idle_laws clocked_redis stream grp mid (entry_clock mid)"
  by (auto simp: idle_laws_def clocked_redis_def clocked_claim_def same_idle_def entry_clock_def idle_enough_def
      map_of_map_value split: option.splits)

text \<open>
  Two pods with the default durations; the first has read two entries and is handling the first of
  them. A beat comes after fifteen seconds, and when thirty seconds have passed the second pod reclaims.
\<close>

definition clock_consumer :: "string \<Rightarrow> clocked Consumer" where
  "clock_consumer name = New_Consumer ''i.cdc.users'' ''i'' name Noop
     \<lparr>inst_ID = ''i'', inst_Config = demo_config0, inst_Services = no_services\<rparr> FailLoud_OnFatal 2 []"

definition batch_world :: "clocked world" where
  "batch_world = (world0 \<lparr>kc_now = 0, kc_pel = [(''1-0'', ''pod-1'', 0), (''2-0'', ''pod-1'', 0)]\<rparr>)\<lparr>inFlight := Some ''1-0''\<rparr>"

definition half_minute :: "clocked world" where
  "half_minute = batch_world\<lparr>srv := \<lparr>kc_now = 30 * second, kc_pel = [(''1-0'', ''pod-1'', 15 * second), (''2-0'', ''pod-1'', 0)]\<rparr>\<rparr>"

lemma theft_demo:
  "case peerReclaim clocked_redis (clock_consumer ''pod-2'') half_minute of
     Some (err, w) \<Rightarrow> err = None \<and> map_of (kc_pel (srv w)) ''2-0'' = Some (''pod-2'', 30 * second)
   | None \<Rightarrow> False"
  by code_simp

lemma clock_consumer_simps [simp]:
  "c_stream (clock_consumer n) = ''i.cdc.users''" "c_group (clock_consumer n) = ''i''" "c_name (clock_consumer n) = n"
  "c_reclaimMinIdle (clock_consumer n) = 30 * second" "c_heartbeatInterval (clock_consumer n) = 15 * second"
  by (simp_all add: clock_consumer_def New_Consumer_def Let_def second_def quot2_def)

lemma half_minute_run:
  "in_flight_run clocked_redis (clock_consumer ''pod-1'') {clock_consumer ''pod-2''} (entry_clock ''1-0'') (15 * second)
     batch_world (15 * second) half_minute"
proof -
  let ?run = "in_flight_run clocked_redis (clock_consumer ''pod-1'') {clock_consumer ''pod-2''} (entry_clock ''1-0'')
    (15 * second) batch_world"
  let ?c = "clock_consumer ''pod-1''"
  let ?s1 = "\<lparr>kc_now = 15 * second, kc_pel = [(''1-0'', ''pod-1'', 0), (''2-0'', ''pod-1'', 0)]\<rparr>"
  let ?w1 = "batch_world\<lparr>srv := ?s1\<rparr>"
  have "?run 0 batch_world"
    using in_flight_run.goes_in_flight [of clocked_redis ?c _ "entry_clock ''1-0''" _ batch_world]
    by (simp add: entry_clock_def batch_world_def world0_def)
  then have w1: "?run 0 ?w1"
    by (rule in_flight_run.passes) (simp_all add: entry_clock_def batch_world_def world0_def second_def)
  let ?w2 = "heartbeat_tick clocked_redis ?c ?w1"
  have w2: "?w2 = ?w1\<lparr>srv := ?s1\<lparr>kc_pel := [(''1-0'', ''pod-1'', 15 * second), (''2-0'', ''pod-1'', 0)]\<rparr>\<rparr>"
    and ok: "claimFn clocked_redis ?c ''1-0'' ?w1 = (None, ?w2)"
    by (simp_all add: heartbeat_tick_def claimFn_def on_server_eq batch_world_def world0_def clocked_redis_def
        clocked_claim_def idle_enough_def)
  from in_flight_run.beats [OF w1 _ ok] have "?run (15 * second) ?w2"
    by (simp add: entry_clock_def batch_world_def)
  then have "?run (15 * second) (?w2\<lparr>srv := srv half_minute\<rparr>)"
    by (rule in_flight_run.passes)
      (simp_all only: w2, simp_all add: entry_clock_def half_minute_def second_def)
  then show ?thesis by (simp add: w2 half_minute_def)
qed

theorem heartbeat_protects_witness:
  "\<exists>w. in_flight_run clocked_redis (clock_consumer ''pod-1'') {clock_consumer ''pod-2''} (entry_clock ''1-0'')
         (15 * second) batch_world (15 * second) w
     \<and> k_owner (entry_clock ''1-0'') (srv w) = Some ''pod-1''
     \<and> k_owner (entry_clock ''2-0'') (srv w) = Some ''pod-2''"
proof -
  let ?c = "clock_consumer ''pod-1''"
  obtain w where run: "peerReclaim clocked_redis (clock_consumer ''pod-2'') half_minute = Some (None, w)"
    and stolen: "map_of (kc_pel (srv w)) ''2-0'' = Some (''pod-2'', 30 * second)"
    using theft_demo by (auto split: option.splits)
  from in_flight_run.reclaims [OF half_minute_run _ run]
  have w: "in_flight_run clocked_redis ?c {clock_consumer ''pod-2''} (entry_clock ''1-0'') (c_heartbeatInterval ?c + 0)
      batch_world (15 * second) w" by simp
  have "k_owner (entry_clock ''1-0'') (srv w) = Some (c_name ?c)
      \<and> k_now (entry_clock ''1-0'') (srv w) - k_since (entry_clock ''1-0'') (srv w) < c_reclaimMinIdle ?c"
    by (rule heartbeat_protects [OF _ _ clocked_laws _ _ _ _ _ _ w])
      (simp_all add: batch_world_def world0_def entry_clock_def second_def)
  with w stolen show ?thesis by (auto simp: entry_clock_def)
qed

text \<open>
  The witness shows the limits too: the second entry of the batch, which waits behind the first, is
  claimed by the peer, although its consumer is alive and will process it next. It is then handled
  twice, and by two processes at once.

  A beat also takes back an entry a peer has claimed: its \<^verbatim>\<open>XCLAIM\<close> has no idle time.
\<close>

lemma heartbeat_takes_back:
  assumes "idle_laws r (c_stream c) (c_group c) mid k" "inFlight w = Some mid" "k_owner k (srv w) = Some peer"
    and "claimFn r c mid w = (None, w')"
  shows "k_owner k (srv w') = Some (c_name c)"
proof -
  have "heartbeat_tick r c w = w'" using assms(2,4) by (simp add: heartbeat_tick_def)
  with heartbeat_claims [OF assms(1,2)] assms(3,4) show ?thesis by auto
qed

end
