(* ===== verification/Background_Loops.thy ===== *)
theory Background_Loops
  imports Consume_Reclaim
begin

section \<open>The background loops of a consumer\<close>

text \<open>
  \<open>Run\<close> starts three goroutines next to its own loop. Each makes a ticker, which panics for an interval that is
  not positive, and then waits in a \<^verbatim>\<open>select\<close> for a tick or the end of the context. The argument is the
  sequence of its wakings: what the rest of the program and other processes did to the world while it
  waited, and which case of the \<^verbatim>\<open>select\<close> was taken, which may be either when both are ready. The
  loop is still waiting when the sequence is over; \<^term>\<open>None\<close> is a tick whose work does not return.
\<close>

datatype wake = Woken_Done | Woken_Tick

datatype loop_end = Waiting | Stopped | Ticker_Panic

type_synonym 's wakings = "(('s world \<Rightarrow> 's world) \<times> wake) list"

fun select_loop ::
  "('s world \<Rightarrow> 's world option) \<Rightarrow> 's wakings \<Rightarrow> 's world \<Rightarrow> (loop_end \<times> 's world) option" where
  "select_loop work [] w = Some (Waiting, w)"
| "select_loop work ((others, Woken_Done) # es) w = Some (Stopped, others w)"
| "select_loop work ((others, Woken_Tick) # es) w = Option.bind (work (others w)) (select_loop work es)"

definition reclaimLoop :: "'s redis \<Rightarrow> 's Consumer \<Rightarrow> 's wakings \<Rightarrow> 's world \<Rightarrow> (loop_end \<times> 's world) option" where
  "reclaimLoop r c es w =
     (if new_ticker (c_reclaimInterval c) then select_loop (reclaim_tick r c) es w else Some (Ticker_Panic, w))"

definition consumerGCLoop :: "'s redis \<Rightarrow> 's Consumer \<Rightarrow> 's wakings \<Rightarrow> 's world \<Rightarrow> (loop_end \<times> 's world) option" where
  "consumerGCLoop r c es w =
     (if new_ticker (c_consumerGCInterval c) then select_loop (\<lambda>w. Some (gc_tick r c w)) es w else Some (Ticker_Panic, w))"

definition heartbeatLoop :: "'s redis \<Rightarrow> 's Consumer \<Rightarrow> 's wakings \<Rightarrow> 's world \<Rightarrow> (loop_end \<times> 's world) option" where
  "heartbeatLoop r c es w =
     (if new_ticker (c_heartbeatInterval c) then select_loop (\<lambda>w. Some (heartbeat_tick r c w)) es w else Some (Ticker_Panic, w))"

lemmas loop_defs = reclaimLoop_def consumerGCLoop_def heartbeatLoop_def

subsection \<open>When a loop ends\<close>

lemma select_loop_ends:
  assumes "\<And>w. I w \<Longrightarrow> \<exists>w'. work w = Some w' \<and> I w'" and "\<And>f k w. (f, k) \<in> set es \<Longrightarrow> I w \<Longrightarrow> I (f w)" and "I w"
  shows "\<exists>w'. select_loop work es w = Some (if Woken_Done \<in> snd ` set es then Stopped else Waiting, w')"
  using assms(2,3)
proof (induction es arbitrary: w)
  case (Cons x es)
  obtain others k where x: "x = (others, k)" by fastforce
  show ?case
  proof (cases k)
    case Woken_Done
    with x show ?thesis by simp
  next
    case Woken_Tick
    have "I (others w)" using Cons.prems(1) [of others k w] Cons.prems(2) x by simp
    from assms(1) [OF this] obtain w1 where w1: "work (others w) = Some w1" "I w1" by blast
    have "\<exists>w'. select_loop work es w1 = Some (if Woken_Done \<in> snd ` set es then Stopped else Waiting, w')"
      by (rule Cons.IH [OF _ w1(2)]) (use Cons.prems(1) in \<open>meson list.set_intros(2)\<close>)
    then show ?thesis using Woken_Tick x w1(1) by simp
  qed
qed simp

text \<open>A reclaim keeps what its two commands keep.\<close>

lemma peer_loop_keeps:
  assumes "peer_loop r c start w = Some x"
    and asks: "\<And>start s. ok s \<Longrightarrow>
      ok (snd (XPendingExt r (c_stream c) (c_group c) (c_reclaimMinIdle c) start ''+'' (c_count c) None s))"
    and claims: "\<And>ids s. ok s \<Longrightarrow> ok (snd (XClaim r (c_stream c) (c_group c) (c_name c) (c_reclaimMinIdle c) ids s))"
    and "ok (srv w)"
  shows "ok (srv (snd x))"
proof -
  have "c = c' \<longrightarrow> r = r' \<longrightarrow> ok (srv w) \<longrightarrow> ok (srv (snd x))" if "peer_loop r' c' start w = Some x" for r' c'
  proof (induction rule: peer_loop.raw_induct [OF _ that,
      where P = "\<lambda>r' c' start w x. c = c' \<longrightarrow> r = r' \<longrightarrow> ok (srv w) \<longrightarrow> ok (srv (snd x))"])
    case (1 rec r' c' start w x)
    show ?case
    proof (intro impI)
      assume same: "c = c'" "r = r'" and ok: "ok (srv w)"
      obtain reply w1 where page: "on_server (XPendingExt r' (c_stream c') (c_group c') (c_reclaimMinIdle c') start ''+''
          (c_count c') None) w = (reply, w1)" by fastforce
      have w1: "ok (srv w1)" using asks [OF ok, of start] page same by (auto simp: on_server_eq)
      have w2: "ok (srv (snd (claim_from_peers r' c' ids w1)))" for ids
        using claims [OF w1, of ids] w1 same by (simp add: claim_from_peers_def on_server_eq split: sum.splits)
      have step: "ok (srv (snd x))" if "rec r' c' st v = Some x" "ok (srv v)" for st v
        using 1(1) [OF that(1)] that(2) same by blast
      show "ok (srv (snd x))"
      proof (cases "reply = Inr [] \<or> (\<exists>msg. reply = Inl msg)")
        case True
        then have "snd x = w1" using 1(2) page by (elim disjE exE) auto
        with w1 show ?thesis by simp
      next
        case False
        then obtain xps where xps: "reply = Inr xps" "xps \<noteq> []" by (cases reply) auto
        obtain err w3 where cl: "claim_from_peers r' c' (toClaimIDs c' xps) w1 = (err, w3)" by fastforce
        have w3: "ok (srv w3)" using w2 [of "toClaimIDs c' xps"] cl by simp
        have "x = (err, w3) \<or> x = (None, w3) \<or> rec r' c' (''('' @ xp_ID (last xps)) w3 = Some x"
          using 1(2) xps(2) unfolding page xps(1) by (cases err) (simp_all add: cl split: if_splits)
        then consider "x = (err, w3)" | "x = (None, w3)" | "rec r' c' (''('' @ xp_ID (last xps)) w3 = Some x" by blast
        then show ?thesis by cases (simp add: w3, simp add: w3, rule step, assumption, rule w3)
      qed
    qed
  qed
  with assms(1,4) show ?thesis by blast
qed

text \<open>
  C25. A background loop ends only with the context: a tick whose work fails, with whatever reply of Redis, is not the
  end of it. With positive intervals none of the three loops panics, and the work of a tick returns; however often
  one is woken, and whatever happens between, it is stopped exactly when it was woken by the end of the context
  and waits otherwise. The reclaim needs for this that its two commands page through the list as documented, on every
  state that the others leave. A tick runs uninterrupted here.
\<close>

theorem loops_end_with_context:
  assumes "tickers_start c" "reclaim_laws r c before ok view" "0 < c_count c"
    and "\<And>start s. ok s \<Longrightarrow>
      ok (snd (XPendingExt r (c_stream c) (c_group c) (c_reclaimMinIdle c) start ''+'' (c_count c) None s))"
    and "\<And>ids s. ok s \<Longrightarrow> ok (snd (XClaim r (c_stream c) (c_group c) (c_name c) (c_reclaimMinIdle c) ids s))"
    and "\<And>f k w. (f, k) \<in> set es \<Longrightarrow> ok (srv w) \<Longrightarrow> ok (srv (f w))" "ok (srv w)"
    and "loop \<in> {reclaimLoop r c, consumerGCLoop r c, heartbeatLoop r c}"
  shows "\<exists>w'. loop es w = Some (if Woken_Done \<in> snd ` set es then Stopped else Waiting, w')"
proof -
  have reclaim: "\<exists>w'. reclaim_tick r c w = Some w' \<and> ok (srv w')" if ok: "ok (srv w)" for w
  proof -
    obtain err w' where run: "peer_loop r c ''-'' w = Some (err, w')"
      using peer_loop_ends [OF assms(2,3) ok, of "''-''"] by blast
    from peer_loop_keeps [where ok = ok, OF run assms(4,5) ok] have "ok (srv w')" by simp
    with run show ?thesis by (simp add: reclaim_tick_def peerReclaim_def)
  qed
  from assms(1,8) consider "loop es w = select_loop (reclaim_tick r c) es w"
    | work where "loop es w = select_loop (\<lambda>w. Some (work w)) es w"
    by (auto simp: loop_defs tickers_start_def)
  then show ?thesis
  proof cases
    case 1
    have "\<exists>w'. select_loop (reclaim_tick r c) es w = Some (if Woken_Done \<in> snd ` set es then Stopped else Waiting, w')"
      by (rule select_loop_ends [where I = "\<lambda>w. ok (srv w)"]) (use reclaim assms(6,7) in blast)+
    with 1 show ?thesis by simp
  next
    case (2 work)
    from select_loop_ends [of "\<lambda>_. True" "\<lambda>w. Some (work w)" es w] 2 show ?thesis by simp
  qed
qed

text \<open>Two ticks of the reclaim, between which a peer claims the entries, and the end of the context.\<close>

definition reclaim_wakings :: "mini wakings" where
  "reclaim_wakings = [(id, Woken_Tick),
     (\<lambda>w. w\<lparr>srv := (srv w)\<lparr>m_owner := (\<lambda>_. ''pod-2'')\<rparr>\<rparr>, Woken_Tick), (id, Woken_Done)]"

theorem loops_end_with_context_witness:
  "\<exists>w'. reclaimLoop mini_redis (sync_consumer no_services) reclaim_wakings orphan_world = Some (Stopped, w')"
proof -
  let ?c = "sync_consumer no_services"
  have c: "tickers_start ?c" "0 < c_count ?c"
    by (simp_all add: tickers_start_def new_ticker_def sync_consumer_def New_Consumer_def Let_def second_def minute_def quot2_def)
  have start: "m_pel (srv orphan_world) = orphans" by (simp add: orphan_world_def world0_def mini0_def)
  have others: "m_pel (srv (f w)) = orphans" if "(f, k) \<in> set reclaim_wakings" "m_pel (srv w) = orphans" for f k w
    using that by (auto simp: reclaim_wakings_def)
  have "\<exists>w'. reclaimLoop mini_redis ?c reclaim_wakings orphan_world
      = Some (if Woken_Done \<in> snd ` set reclaim_wakings then Stopped else Waiting, w')"
  proof (rule loops_end_with_context [OF c(1) mini_reclaim_laws [OF orphans_distinct] c(2)])
    show "m_pel (srv (f w)) = orphans" if "(f, k) \<in> set reclaim_wakings" "m_pel (srv w) = orphans" for f k w
      using that by (rule others)
  qed (simp_all add: start mini_redis_def mini_claim_def Let_def)
  then show ?thesis by (simp add: reclaim_wakings_def)
qed

end
