(* ===== verification/Consumer_Machine.thy ===== *)
theory Consumer_Machine
  imports Consume_Steps
begin

section \<open>Run as a machine\<close>

text \<open>
  The whole goroutine of a consumer as single steps, each at most one command of the server, one call of
  the handler or one wait: \<open>Run\<close> from the creation of the group on, with the steps of processing an
  entry from \<open>Consume_Steps\<close>. \<open>Run_Consumer\<close> is the run of this machine without interference, so that what
  holds for every interleaving of the machine is said of the program.
\<close>

subsection \<open>The steps of Run\<close>

text \<open>
  The point of the program: \<open>SelfPend\<close> and \<open>SelfClaim\<close> are the two commands of \<open>selfReclaim\<close>, \<open>Batch\<close> is the
  loop over entries that have been claimed or read, \<open>Busy\<close> the call of \<open>process\<close> on the first of them.
\<close>

datatype after = AfterClaim bool | AfterRead

datatype run_pc =
    Starting
  | LoopTop
  | SelfPend
  | SelfClaim "XPending list"
  | Batch "XMessage list" after
  | Busy XMessage activity "XMessage list" after
  | Reading
  | Ended "error option"

fun next_pc :: "after \<Rightarrow> run_pc" where
  "next_pc (AfterClaim short) = (if short then Reading else SelfPend)"
| "next_pc AfterRead = LoopTop"

fun run_step :: "'s redis \<Rightarrow> 's Consumer \<Rightarrow> run_pc \<times> 's world \<Rightarrow> run_pc \<times> 's world" where
  "run_step r c (Starting, w) =
     (case ensureGroup r c w of (Some e, w1) \<Rightarrow> (Ended (Some e), w1) | (None, w1) \<Rightarrow> (LoopTop, w1))"
| "run_step r c (LoopTop, w) =
     (case ctx_done w of (over, w1) \<Rightarrow> (if over then Ended (Some canceled) else SelfPend, w1))"
| "run_step r c (SelfPend, w) =
     (case on_server (XPendingExt r (c_stream c) (c_group c) 0 ''-'' ''+'' (c_count c) (Some (c_name c))) w of
        (Inl msg, w1) \<Rightarrow> (Ended (Some (xpending_error c msg)), w1)
      | (Inr xps, w1) \<Rightarrow> (if xps = [] then Reading else SelfClaim xps, w1))"
| "run_step r c (SelfClaim xps, w) =
     (case on_server (XClaim r (c_stream c) (c_group c) (c_name c) 0 (map xp_ID xps)) w of
        (Inl msg, w1) \<Rightarrow> (Ended (Some (Errorf [Lit ''XCLAIM '', Lit (c_stream c), Lit '': '', W (External msg)])), w1)
      | (Inr msgs, w1) \<Rightarrow> (Batch msgs (AfterClaim (int (length xps) < c_count c)), w1))"
| "run_step r c (Batch [] k, w) = (next_pc k, w)"
| "run_step r c (Batch (m # ms) k, w) = (Busy m Fetched ms k, w)"
| "run_step r c (Busy m (Finished None) ms k, w) = (Batch ms k, w)"
| "run_step r c (Busy m (Finished (Some e)) ms k, w) = (Ended (Some e), w)"
| "run_step r c (Busy m a ms k, w) = (case proc_step r c m (a, w) of (a', w') \<Rightarrow> (Busy m a' ms k, w'))"
| "run_step r c (Reading, w) =
     (case on_server (XReadGroup r (c_group c) (c_name c) (c_stream c) (c_count c) (c_block c)) w of
        (ReadNil, w1) \<Rightarrow> (LoopTop, w1)
      | (ReadErr msg, w1) \<Rightarrow>
          (case ctx_done w1 of (over, w2) \<Rightarrow>
             (Ended (Some (if over then canceled
                else Errorf [Lit ''XREADGROUP '', Lit (c_stream c), Lit '': '', W (External msg)])), w2))
      | (ReadOk res, w1) \<Rightarrow> (Batch (concat (map snd res)) AfterRead, w1))"
| "run_step r c (Ended err, w) = (Ended err, w)"

lemma run_step_busy:
  "(\<nexists>err. a = Finished err) \<Longrightarrow>
     run_step r c (Busy m a ms k, w) = (Busy m (fst (proc_step r c m (a, w))) ms k, snd (proc_step r c m (a, w)))"
  by (cases a) (auto split: prod.splits)

lemma process_streams_flat: "process_streams r c res w = process_all r c (concat (map snd res)) w"
proof (induction res arbitrary: w)
  case (Cons s res)
  obtain key ms where s: "s = (key, ms)" by fastforce
  have "process_all r c (ms @ ns) w = Option.bind (process_all r c ms w)
      (\<lambda>(err, w'). if err \<noteq> None then Some (err, w') else process_all r c ns w')" for ns
    by (induction ms arbitrary: w) (auto split: option.splits)
  moreover have "process_streams r c res = process_all r c (concat (map snd res))" using Cons by (rule ext)
  ultimately show ?case by (simp add: s cong: if_cong)
qed simp

subsection \<open>A run that returns is a number of steps\<close>

definition run_to :: "'s redis \<Rightarrow> 's Consumer \<Rightarrow> run_pc \<times> 's world \<Rightarrow> run_pc \<times> 's world \<Rightarrow> bool" where
  "run_to r c x y \<longleftrightarrow> (\<exists>k. (run_step r c ^^ k) x = y)"

lemma run_refl: "run_to r c x x"
  unfolding run_to_def by (rule exI [of _ 0]) simp

lemma run_next: "run_step r c x = y \<Longrightarrow> run_to r c y z \<Longrightarrow> run_to r c x z"
  unfolding run_to_def by (metis funpow_Suc_right comp_apply)

lemma run_trans: "run_to r c x y \<Longrightarrow> run_to r c y z \<Longrightarrow> run_to r c x z"
  unfolding run_to_def by (metis funpow_add comp_apply)

lemma run_one: "run_step r c x = y \<Longrightarrow> run_to r c x y"
  by (rule run_next [OF _ run_refl])

lemma busy_steps:
  "(proc_step r c m ^^ j) (a, w) = (Finished err, w') \<Longrightarrow> run_to r c (Busy m a ms k, w) (Busy m (Finished err) ms k, w')"
proof (induction j arbitrary: a w)
  case (Suc j)
  show ?case
  proof (cases "\<exists>e. a = Finished e")
    case True
    then obtain e where a: "a = Finished e" ..
    have "(proc_step r c m ^^ i) (Finished e, w) = (Finished e, w)" for i by (induction i) simp_all
    with Suc.prems a have "e = err" "w' = w" by auto
    with a show ?thesis by (simp add: run_refl)
  next
    case False
    obtain a1 w1 where step: "proc_step r c m (a, w) = (a1, w1)" by fastforce
    with Suc.prems have "(proc_step r c m ^^ j) (a1, w1) = (Finished err, w')" by (simp add: funpow_swap1)
    from Suc.IH [OF this] show ?thesis
      by (rule run_next [rotated]) (use False step in \<open>simp add: run_step_busy\<close>)
  qed
qed (simp add: run_refl)

lemma batch_steps:
  "process_all r c ms w = Some (err, w') \<Longrightarrow>
     run_to r c (Batch ms k, w) (case err of None \<Rightarrow> (Batch [] k, w') | Some e \<Rightarrow> (Ended (Some e), w'))"
proof (induction ms arbitrary: w)
  case (Cons m ms)
  from Cons.prems obtain err1 w1 where p: "process r c m w = Some (err1, w1)" by (auto split: option.splits)
  then obtain j where "(proc_step r c m ^^ j) (Fetched, w) = (Finished err1, w1)"
    unfolding process_is_its_steps by blast
  from busy_steps [OF this] have busy: "run_to r c (Batch (m # ms) k, w) (Busy m (Finished err1) ms k, w1)"
    by (rule run_next [rotated]) simp
  show ?case
  proof (cases err1)
    case None
    with Cons.prems p have "process_all r c ms w1 = Some (err, w')" by simp
    from Cons.IH [OF this] have "run_to r c (Busy m (Finished err1) ms k, w1)
        (case err of None \<Rightarrow> (Batch [] k, w') | Some e \<Rightarrow> (Ended (Some e), w'))"
      by (rule run_next [rotated]) (simp add: None)
    with busy show ?thesis by (rule run_trans)
  next
    case (Some e)
    with Cons.prems p have "err = Some e" "w' = w1" by auto
    from busy show ?thesis by (rule run_trans, intro run_one) (use Some \<open>err = Some e\<close> \<open>w' = w1\<close> in simp)
  qed
qed (auto simp: run_refl)

definition read_pc :: "error option \<Rightarrow> run_pc" where
  "read_pc err = (case err of None \<Rightarrow> Reading | Some e \<Rightarrow> Ended (Some e))"

lemma read_pc_simps [simp]: "read_pc None = Reading" "read_pc (Some e) = Ended (Some e)"
  by (simp_all add: read_pc_def)

lemma selfReclaim_steps:
  assumes "selfReclaim r c w = Some x"
  shows "run_to r c (SelfPend, w) (read_pc (fst x), snd x)"
proof (induction rule: selfReclaim.raw_induct [OF _ assms,
    where P = "\<lambda>r c w x. run_to r c (SelfPend, w) (read_pc (fst x), snd x)"])
  case (1 rec r c w x)
  obtain reply w1 where pend: "on_server (XPendingExt r (c_stream c) (c_group c) 0 ''-'' ''+'' (c_count c)
      (Some (c_name c))) w = (reply, w1)" by fastforce
  show ?case
  proof (cases reply)
    case (Inl msg)
    with 1(2) pend have "x = (Some (xpending_error c msg), w1)" by simp
    with pend Inl show ?thesis by (simp add: run_one)
  next
    case (Inr xps)
    show ?thesis
    proof (cases "xps = []")
      case True
      with 1(2) pend Inr have "x = (None, w1)" by simp
      with pend Inr True show ?thesis by (simp add: run_one)
    next
      case False
      obtain claimed w2 where cl: "on_server (XClaim r (c_stream c) (c_group c) (c_name c) 0 (map xp_ID xps)) w1
          = (claimed, w2)" by fastforce
      have first: "run_to r c (SelfPend, w) (SelfClaim xps, w1)" using pend Inr False by (simp add: run_one)
      show ?thesis
      proof (cases claimed)
        case msg: (Inl msg)
        with 1(2) pend Inr False cl have
          "x = (Some (Errorf [Lit ''XCLAIM '', Lit (c_stream c), Lit '': '', W (External msg)]), w2)" by simp
        with cl msg show ?thesis by (intro run_trans [OF first run_one]) simp
      next
        case msgs: (Inr msgs)
        let ?k = "AfterClaim (int (length xps) < c_count c)"
        have second: "run_to r c (SelfPend, w) (Batch msgs ?k, w2)"
          using run_trans [OF first run_one] cl msgs by simp
        from 1(2) pend Inr False cl msgs obtain err w3 where all: "process_all r c msgs w2 = Some (err, w3)"
          and rest: "if err \<noteq> None then x = (err, w3)
            else if int (length xps) < c_count c then x = (None, w3) else rec r c w3 = Some x"
          by (auto simp: bind_eq_Some_conv split: if_splits)
        note third = run_trans [OF second batch_steps [OF all]]
        show ?thesis
        proof (cases err)
          case (Some e)
          with third rest show ?thesis by simp
        next
          case None
          with third have "run_to r c (SelfPend, w) (Batch [] ?k, w3)" by simp
          then have fourth: "run_to r c (SelfPend, w) (next_pc ?k, w3)" by (rule run_trans) (simp add: run_one)
          show ?thesis
          proof (cases "int (length xps) < c_count c")
            case True
            with fourth rest None show ?thesis by simp
          next
            case short: False
            with rest None have "rec r c w3 = Some x" by simp
            from run_trans [OF fourth [unfolded next_pc.simps if_not_P [OF short]] 1(1) [OF this]] show ?thesis .
          qed
        qed
      qed
    qed
  qed
qed

lemma main_loop_steps:
  assumes "main_loop r c w = Some x"
  shows "run_to r c (LoopTop, w) (Ended (fst x), snd x)"
proof (induction rule: main_loop.raw_induct [OF _ assms,
    where P = "\<lambda>r c w x. run_to r c (LoopTop, w) (Ended (fst x), snd x)"])
  case (1 rec r c w x)
  obtain over w1 where d: "ctx_done w = (over, w1)" by fastforce
  show ?case
  proof (cases over)
    case True
    with 1(2) d have "x = (Some canceled, w1)" by simp
    with d True show ?thesis by (simp add: run_one)
  next
    case False
    with 1(2) d obtain err w2 where self: "selfReclaim r c w1 = Some (err, w2)"
      by (auto simp: bind_eq_Some_conv)
    have "run_to r c (LoopTop, w) (SelfPend, w1)" using d False by (simp add: run_one)
    from run_trans [OF this selfReclaim_steps [OF self]]
    have first: "run_to r c (LoopTop, w) (read_pc err, w2)" by simp
    show ?thesis
    proof (cases err)
      case (Some e)
      with 1(2) d False self have "x = (Some e, w2)" by simp
      with first Some show ?thesis by simp
    next
      case None
      obtain reply w3 where read: "on_server (XReadGroup r (c_group c) (c_name c) (c_stream c) (c_count c) (c_block c)) w2
          = (reply, w3)" by fastforce
      from first None have reading: "run_to r c (LoopTop, w) (Reading, w2)" by simp
      show ?thesis
      proof (cases reply)
        case ReadNil
        with 1(2) d False self None read have "rec r c w3 = Some x" by simp
        from run_trans [OF run_trans [OF reading run_one] 1(1) [OF this]] read ReadNil show ?thesis by simp
      next
        case (ReadErr msg)
        obtain over' w4 where d4: "ctx_done w3 = (over', w4)" by fastforce
        with 1(2) d False self None read ReadErr have "x = (Some (if over' then canceled
            else Errorf [Lit ''XREADGROUP '', Lit (c_stream c), Lit '': '', W (External msg)]), w4)" by auto
        with read ReadErr d4 show ?thesis by (intro run_trans [OF reading run_one]) simp
      next
        case (ReadOk res)
        from 1(2) d False self None read ReadOk obtain err' w4 where
          all: "process_all r c (concat (map snd res)) w3 = Some (err', w4)"
          and rest: "if err' \<noteq> None then x = (err', w4) else rec r c w4 = Some x"
          by (auto simp: process_streams_flat bind_eq_Some_conv split: if_splits)
        have "run_to r c (LoopTop, w) (Batch (concat (map snd res)) AfterRead, w3)"
          using read ReadOk by (intro run_trans [OF reading run_one]) simp
        note batch = run_trans [OF this batch_steps [OF all]]
        show ?thesis
        proof (cases err')
          case (Some e)
          with batch rest show ?thesis by simp
        next
          case None
          with batch have "run_to r c (LoopTop, w) (Batch [] AfterRead, w4)" by simp
          from run_trans [OF this run_one] have "run_to r c (LoopTop, w) (LoopTop, w4)" by simp
          from run_trans [OF this 1(1)] rest None show ?thesis by simp
        qed
      qed
    qed
  qed
qed

subsection \<open>A number of steps is a run that returns\<close>

text \<open>What is left of \<open>Run_Consumer\<close> at each point.\<close>

definition rest_read :: "'s redis \<Rightarrow> 's Consumer \<Rightarrow> 's world \<Rightarrow> (error option \<times> 's world) option" where
  "rest_read r c w2 =
     (case on_server (XReadGroup r (c_group c) (c_name c) (c_stream c) (c_count c) (c_block c)) w2 of
        (ReadNil, w3) \<Rightarrow> main_loop r c w3
      | (ReadErr msg, w3) \<Rightarrow>
          (case ctx_done w3 of (over, w4) \<Rightarrow>
             Some (Some (if over then canceled
                else Errorf [Lit ''XREADGROUP '', Lit (c_stream c), Lit '': '', W (External msg)]), w4))
      | (ReadOk res, w3) \<Rightarrow>
          Option.bind (process_all r c (concat (map snd res)) w3) (\<lambda>(err, w4).
            if err \<noteq> None then Some (err, w4) else main_loop r c w4))"

definition rest_self :: "'s redis \<Rightarrow> 's Consumer \<Rightarrow> 's world \<Rightarrow> (error option \<times> 's world) option" where
  "rest_self r c w = Option.bind (selfReclaim r c w) (\<lambda>(err, w2). if err \<noteq> None then Some (err, w2) else rest_read r c w2)"

fun rest_after :: "'s redis \<Rightarrow> 's Consumer \<Rightarrow> after \<Rightarrow> 's world \<Rightarrow> (error option \<times> 's world) option" where
  "rest_after r c (AfterClaim short) w = (if short then rest_read r c w else rest_self r c w)"
| "rest_after r c AfterRead w = main_loop r c w"

definition rest_batch ::
  "'s redis \<Rightarrow> 's Consumer \<Rightarrow> after \<Rightarrow> XMessage list \<Rightarrow> 's world \<Rightarrow> (error option \<times> 's world) option" where
  "rest_batch r c k ms w = Option.bind (process_all r c ms w) (\<lambda>(err, w2).
     if err \<noteq> None then Some (err, w2) else rest_after r c k w2)"

fun rest_run :: "'s redis \<Rightarrow> 's Consumer \<Rightarrow> run_pc \<times> 's world \<Rightarrow> (error option \<times> 's world) option" where
  "rest_run r c (Starting, w) = Run_Consumer r c w"
| "rest_run r c (LoopTop, w) = main_loop r c w"
| "rest_run r c (SelfPend, w) = rest_self r c w"
| "rest_run r c (SelfClaim xps, w) =
     (case on_server (XClaim r (c_stream c) (c_group c) (c_name c) 0 (map xp_ID xps)) w of
        (Inl msg, w1) \<Rightarrow> Some (Some (Errorf [Lit ''XCLAIM '', Lit (c_stream c), Lit '': '', W (External msg)]), w1)
      | (Inr msgs, w1) \<Rightarrow> rest_batch r c (AfterClaim (int (length xps) < c_count c)) msgs w1)"
| "rest_run r c (Batch ms k, w) = rest_batch r c k ms w"
| "rest_run r c (Busy m a ms k, w) = Option.bind (rest_of r c m (a, w)) (\<lambda>(err, w2).
     if err \<noteq> None then Some (err, w2) else rest_batch r c k ms w2)"
| "rest_run r c (Reading, w) = rest_read r c w"
| "rest_run r c (Ended err, w) = Some (err, w)"

lemma rest_batch_simps:
  "rest_batch r c k [] w = rest_after r c k w"
  "rest_batch r c k (m # ms) w = Option.bind (process r c m w) (\<lambda>(err, w2).
     if err \<noteq> None then Some (err, w2) else rest_batch r c k ms w2)"
  by (auto simp: rest_batch_def bind_eq_Some_conv split: option.splits)

lemma main_loop_rest:
  "main_loop r c w = (case ctx_done w of (over, w1) \<Rightarrow> if over then Some (Some canceled, w1) else rest_self r c w1)"
  by (subst main_loop.simps)
    (auto simp: rest_self_def rest_read_def process_streams_flat if_distrib split: prod.splits read_reply.splits
      option.splits bind_splits cong: if_cong)

lemma selfReclaim_rest:
  "rest_self r c w =
     (case on_server (XPendingExt r (c_stream c) (c_group c) 0 ''-'' ''+'' (c_count c) (Some (c_name c))) w of
        (Inl msg, w1) \<Rightarrow> Some (Some (xpending_error c msg), w1)
      | (Inr xps, w1) \<Rightarrow> if xps = [] then rest_read r c w1 else rest_run r c (SelfClaim xps, w1))"
  unfolding rest_self_def
  by (subst selfReclaim.simps)
    (auto simp: rest_batch_def rest_self_def split: prod.splits sum.splits option.splits bind_splits cong: if_cong)

lemma rest_run_step: "rest_run r c (run_step r c (pc, w)) = rest_run r c (pc, w)"
proof (cases pc)
  case Starting
  then show ?thesis by (auto simp: Run_Consumer_def split: prod.splits option.splits)
next
  case LoopTop
  then show ?thesis using main_loop_rest [of r c w] by (auto split: prod.splits)
next
  case SelfPend
  then show ?thesis using selfReclaim_rest [of r c w] by (auto split: prod.splits sum.splits)
next
  case (SelfClaim xps)
  then show ?thesis by (auto split: prod.splits sum.splits)
next
  case (Batch ms k)
  then show ?thesis by (cases ms; cases k) (auto simp: rest_batch_simps)
next
  case (Busy m a ms k)
  show ?thesis
  proof (cases "\<exists>err. a = Finished err")
    case True
    then obtain err where "a = Finished err" ..
    with Busy show ?thesis by (cases err) simp_all
  next
    case False
    with Busy rest_of_step [of r c m a w] show ?thesis by (simp add: run_step_busy)
  qed
next
  case Reading
  then show ?thesis by (auto simp: rest_read_def rest_batch_def split: prod.splits read_reply.splits cong: if_cong)
qed simp

text \<open>
  \<open>Run\<close> is the run of its single steps without interference: it returns an error exactly when some number of
  steps from its start ends with it, in the same state of the world, and does not return exactly when no number
  of steps ends. In between each step is one command, one call of the handler or one wait.
\<close>

lemma run_is_its_steps:
  "Run_Consumer r c w = Some (err, w') \<longleftrightarrow> (\<exists>k. (run_step r c ^^ k) (Starting, w) = (Ended err, w'))"
proof
  assume run: "Run_Consumer r c w = Some (err, w')"
  obtain e w1 where g: "ensureGroup r c w = (e, w1)" by fastforce
  have "run_to r c (Starting, w) (Ended err, w')"
  proof (cases e)
    case None
    with run g have "main_loop r c w1 = Some (err, w')" by (simp add: Run_Consumer_def)
    from main_loop_steps [OF this] have "run_to r c (LoopTop, w1) (Ended err, w')" by simp
    then show ?thesis by (rule run_next [rotated]) (simp add: g None)
  next
    case (Some e)
    with run g show ?thesis by (intro run_one) (auto simp: Run_Consumer_def)
  qed
  then show "\<exists>k. (run_step r c ^^ k) (Starting, w) = (Ended err, w')" unfolding run_to_def .
next
  assume "\<exists>k. (run_step r c ^^ k) (Starting, w) = (Ended err, w')"
  then obtain k where k: "(run_step r c ^^ k) (Starting, w) = (Ended err, w')" ..
  have "rest_run r c ((run_step r c ^^ k) (Starting, w)) = rest_run r c (Starting, w)"
  proof (induction k)
    case (Suc k)
    then show ?case by (cases "(run_step r c ^^ k) (Starting, w)") (simp add: rest_run_step)
  qed simp
  with k show "Run_Consumer r c w = Some (err, w')" by simp
qed

end
