(* ===== verification/Background_Steps.thy ===== *)
theory Background_Steps
  imports Consume_Steps
begin

section \<open>The background loops as single commands\<close>

text \<open>
  The work of the three background goroutines in steps of at most one command each, so that other goroutines and
  processes can act between any two: between the pages and the claims of a reclaim, between the question and
  each deletion of a collection, between the heartbeat's look at the entry in flight and its claim. The
  ticks of \<open>Consume\<close> are the runs of these steps without interference.
\<close>

subsection \<open>The steps\<close>

text \<open>\<open>peerReclaim\<close>: about to ask for the page after a cursor, or to claim the entries of others on a page.\<close>

datatype reclaim_pc = Reclaim_Waits | Asking_Page string | Claiming_Page "XPending list"

text \<open>\<open>gcConsumers\<close>: about to ask for the consumers, or to look at the rest of the answer.\<close>

datatype gc_pc = GC_Waits | Asking_Consumers | Deleting "XInfoConsumer list"

text \<open>The heartbeat: it has loaded the id of the entry in flight and is about to claim it.\<close>

datatype beat_pc = Beat_Waits | Beating string

definition after_page :: "'s Consumer \<Rightarrow> XPending list \<Rightarrow> reclaim_pc" where
  "after_page c xps = (if int (length xps) < c_count c then Reclaim_Waits else Asking_Page (''('' @ xp_ID (last xps)))"

fun reclaim_step :: "'s redis \<Rightarrow> 's Consumer \<Rightarrow> reclaim_pc \<times> 's world \<Rightarrow> reclaim_pc \<times> 's world" where
  "reclaim_step r c (Reclaim_Waits, w) = (Asking_Page ''-'', w)"
| "reclaim_step r c (Asking_Page start, w) =
     (case on_server (XPendingExt r (c_stream c) (c_group c) (c_reclaimMinIdle c) start ''+'' (c_count c) None) w of
        (Inl msg, w1) \<Rightarrow> (Reclaim_Waits, w1)
      | (Inr xps, w1) \<Rightarrow> (if xps = [] then Reclaim_Waits else Claiming_Page xps, w1))"
| "reclaim_step r c (Claiming_Page xps, w) =
     (if toClaimIDs c xps = [] then (after_page c xps, w)
      else (case on_server (XClaim r (c_stream c) (c_group c) (c_name c) (c_reclaimMinIdle c) (toClaimIDs c xps)) w of
        (Inl msg, w1) \<Rightarrow> (Reclaim_Waits, w1)
      | (Inr msgs, w1) \<Rightarrow> (after_page c xps, w1)))"

fun gc_step :: "'s redis \<Rightarrow> 's Consumer \<Rightarrow> gc_pc \<times> 's world \<Rightarrow> gc_pc \<times> 's world" where
  "gc_step r c (GC_Waits, w) = (Asking_Consumers, w)"
| "gc_step r c (Asking_Consumers, w) =
     (case on_server (XInfoConsumers r (c_stream c) (c_group c)) w of
        (Inl msg, w1) \<Rightarrow> (GC_Waits, w1)
      | (Inr xics, w1) \<Rightarrow> (Deleting xics, w1))"
| "gc_step r c (Deleting [], w) = (GC_Waits, w)"
| "gc_step r c (Deleting (xic # xics), w) =
     (if xi_Name xic = c_name c then (Deleting xics, w)
      else if xi_Idle xic \<ge> c_consumerGCTimeout c \<and> xi_Pending xic = 0 then
        (Deleting xics, snd (on_server (XGroupDelConsumer r (c_stream c) (c_group c) (xi_Name xic)) w))
      else (Deleting xics, w))"

fun beat_step :: "'s redis \<Rightarrow> 's Consumer \<Rightarrow> beat_pc \<times> 's world \<Rightarrow> beat_pc \<times> 's world" where
  "beat_step r c (Beat_Waits, w) = (case inFlight w of None \<Rightarrow> Beat_Waits | Some mid \<Rightarrow> Beating mid, w)"
| "beat_step r c (Beating mid, w) = (Beat_Waits, snd (claimFn r c mid w))"

subsection \<open>The ticks are their runs without interference\<close>

lemma beat_run: "\<exists>k. (beat_step r c ^^ k) (Beat_Waits, w) = (Beat_Waits, heartbeat_tick r c w)"
proof (cases "inFlight w")
  case None
  then have "(beat_step r c ^^ 1) (Beat_Waits, w) = (Beat_Waits, heartbeat_tick r c w)"
    by (simp add: heartbeat_tick_def)
  then show ?thesis by blast
next
  case (Some mid)
  then have "(beat_step r c ^^ 2) (Beat_Waits, w) = (Beat_Waits, heartbeat_tick r c w)"
    by (simp add: heartbeat_tick_def numeral_2_eq_2)
  then show ?thesis by blast
qed

lemma deleting_run: "(gc_step r c ^^ Suc (length xics)) (Deleting xics, w) = (GC_Waits, gc_all r c xics w)"
  by (induction xics arbitrary: w) (simp_all add: funpow_swap1 on_server_eq del: funpow.simps(2) add: funpow_Suc_right)

lemma gc_run: "\<exists>k. (gc_step r c ^^ k) (Asking_Consumers, w) = (GC_Waits, gc_tick r c w)"
proof -
  obtain reply w1 where ask: "on_server (XInfoConsumers r (c_stream c) (c_group c)) w = (reply, w1)" by fastforce
  show ?thesis
  proof (cases reply)
    case (Inl msg)
    with ask have "(gc_step r c ^^ 1) (Asking_Consumers, w) = (GC_Waits, gc_tick r c w)"
      by (simp add: gc_tick_def gcConsumers_def)
    then show ?thesis by blast
  next
    case (Inr xics)
    with ask have "(gc_step r c ^^ Suc (Suc (length xics))) (Asking_Consumers, w) = (GC_Waits, gc_tick r c w)"
      using deleting_run [where r = r and c = c and xics = xics and w = w1]
      by (simp add: gc_tick_def gcConsumers_def funpow_Suc_right del: funpow.simps(2))
    then show ?thesis by blast
  qed
qed

lemma reclaim_run:
  assumes "peer_loop r c start w = Some x"
  shows "\<exists>k. (reclaim_step r c ^^ k) (Asking_Page start, w) = (Reclaim_Waits, snd x)"
proof (induction rule: peer_loop.raw_induct [OF _ assms,
    where P = "\<lambda>r c start w x. \<exists>k. (reclaim_step r c ^^ k) (Asking_Page start, w) = (Reclaim_Waits, snd x)"])
  case (1 rec r c start w x)
  obtain reply w1 where page: "on_server (XPendingExt r (c_stream c) (c_group c) (c_reclaimMinIdle c) start ''+''
      (c_count c) None) w = (reply, w1)" by fastforce
  have one: "\<exists>k. (reclaim_step r c ^^ k) (Asking_Page start, w) = z" if "reclaim_step r c (Asking_Page start, w) = z" for z
    using that by (intro exI [of _ 1]) simp
  show ?case
  proof (cases reply)
    case (Inl msg)
    with 1(2) page show ?thesis by (intro one) auto
  next
    case (Inr xps)
    obtain err w2 where cl: "claim_from_peers r c (toClaimIDs c xps) w1 = (err, w2)" by fastforce
    show ?thesis
    proof (cases "xps = []")
      case True
      with 1(2) page Inr show ?thesis by (intro one) auto
    next
      case False
      have claim: "reclaim_step r c (Claiming_Page xps, w1) = (if err = None then after_page c xps else Reclaim_Waits, w2)"
        using cl by (auto simp: claim_from_peers_def split: if_splits prod.splits sum.splits)
      have two: "(reclaim_step r c ^^ 2) (Asking_Page start, w) = (if err = None then after_page c xps else Reclaim_Waits, w2)"
        using page Inr False claim by (simp add: numeral_2_eq_2)
      show ?thesis
      proof (cases "err = None \<and> \<not> int (length xps) < c_count c")
        case True
        with 1(2) page Inr False cl have "rec r c (''('' @ xp_ID (last xps)) w2 = Some x" by simp
        from 1(1) [OF this] obtain k where
          "(reclaim_step r c ^^ k) (Asking_Page (''('' @ xp_ID (last xps)), w2) = (Reclaim_Waits, snd x)" by blast
        with two True have "(reclaim_step r c ^^ (k + 2)) (Asking_Page start, w) = (Reclaim_Waits, snd x)"
          by (simp only: funpow_add comp_apply) (simp add: after_page_def)
        then show ?thesis by blast
      next
        case stop: False
        with 1(2) page Inr False cl have "x = (err, w2) \<or> x = (None, w2)" by (cases err) (simp_all split: if_splits)
        then have "snd x = w2" by auto
        with two stop show ?thesis by (intro exI [of _ 2]) (auto simp: after_page_def)
      qed
    qed
  qed
qed

subsection \<open>What a step does to an entry\<close>

text \<open>The consumers that a collection is about to delete.\<close>

fun doomed :: "'s Consumer \<Rightarrow> gc_pc \<Rightarrow> string set" where
  "doomed c (Deleting xics) = xi_Name ` set (filter (is_dead c) xics)"
| "doomed c _ = {}"

lemma reclaim_step_keeps:
  assumes "group_laws r c owner" "reclaim_step r c (a, w) = (a', w')"
  shows "(owner (srv w) \<noteq> None \<longrightarrow> owner (srv w') \<noteq> None) \<and> w' = w\<lparr>srv := srv w'\<rparr>"
  using assms by (cases a) (auto simp: group_laws_def on_server_eq split: sum.splits if_splits)

lemma beat_step_keeps:
  assumes "group_laws r c owner" "beat_step r c (a, w) = (a', w')"
  shows "(owner (srv w) \<noteq> None \<longrightarrow> owner (srv w') \<noteq> None) \<and> w' = w\<lparr>srv := srv w'\<rparr>"
  using assms by (cases a) (auto simp: group_laws_def claimFn_def on_server_eq split: sum.splits)

text \<open>
  A step of a collection drops at most the entries of a consumer it was about to delete, moves none, and
  dooms only consumers without an entry.
\<close>

lemma gc_step_drops:
  assumes laws: "group_laws r c owner" and step: "gc_step r c (a, w) = (a', w')"
  shows "(owner (srv w') = owner (srv w) \<or> (\<exists>name \<in> doomed c a. owner (srv w) = Some name)) \<and> w' = w\<lparr>srv := srv w'\<rparr>"
proof (cases a)
  case (Deleting xics)
  show ?thesis
  proof (cases xics)
    case (Cons xic rest)
    have "owner (snd (XGroupDelConsumer r (c_stream c) (c_group c) (xi_Name xic) (srv w))) = owner (srv w)"
      if "owner (srv w) \<noteq> Some (xi_Name xic)" using laws that by (simp add: group_laws_def)
    with step Deleting Cons show ?thesis by (auto simp: is_dead_def on_server_eq split: if_splits)
  qed (use step Deleting in simp)
qed (use laws step in \<open>auto simp: group_laws_def on_server_eq split: sum.splits\<close>)

lemma gc_step_doomed:
  assumes laws: "group_laws r c owner" and step: "gc_step r c (a, w) = (a', w')" and "name \<in> doomed c a'"
  shows "name \<in> doomed c a \<or> owner (srv w') \<noteq> Some name"
proof (cases a)
  case Asking_Consumers
  with step assms(3) obtain xics where
    "XInfoConsumers r (c_stream c) (c_group c) (srv w) = (Inr xics, srv w')" "a' = Deleting xics"
    by (auto simp: on_server_def split: prod.splits sum.splits)
  with laws assms(3) show ?thesis unfolding group_laws_def by (auto simp: is_dead_def)
next
  case (Deleting xics)
  with step assms(3) show ?thesis by (cases xics) (auto split: if_splits)
qed (use step assms(3) in auto)

end
