(* ===== verification/Consumer_System.thy ===== *)
theory Consumer_System
  imports Consumer_Machine Background_Steps
begin

section \<open>A group of consumers\<close>

text \<open>
  Any number of processes that consume one stream in one group, each running the machine of
  \<open>Consumer_Machine\<close> and its three background loops in the single steps of \<open>Background_Steps\<close> on a shared server, in
  every interleaving of these steps; each may crash at any point and be started again. What an entry can rely on
  is an invariant of this system.
\<close>

subsection \<open>The system\<close>

text \<open>
  A process: the points of its four goroutines and its own world, of which only the server is shared with other
  processes.
\<close>

record 's pod =
  main_pc :: run_pc
  claimer :: reclaim_pc
  collector :: gc_pc
  beat :: beat_pc
  memory :: "'s world"

type_synonym 's processes = "nat \<Rightarrow> 's pod"

definition fresh_pod :: "'s world \<Rightarrow> 's pod" where
  "fresh_pod w = \<lparr>main_pc = Starting, claimer = Reclaim_Waits, collector = GC_Waits, beat = Beat_Waits,
     memory = w\<lparr>inFlight := None\<rparr>\<rparr>"

text \<open>The world a process sees when the server is in the state \<open>s\<close>.\<close>

abbreviation sees :: "'s pod \<Rightarrow> 's \<Rightarrow> 's world" where
  "sees p s \<equiv> (memory p)\<lparr>srv := s\<rparr>"

text \<open>The entries a step delivers to a consumer, and those whose handler it finishes with nil.\<close>

fun delivered :: "'s redis \<Rightarrow> 's Consumer \<Rightarrow> run_pc \<Rightarrow> 's \<Rightarrow> string set" where
  "delivered r c Reading s =
     (case fst (XReadGroup r (c_group c) (c_name c) (c_stream c) (c_count c) (c_block c) s) of
        ReadOk res \<Rightarrow> msg_ID ` set (concat (map snd res))
      | _ \<Rightarrow> {})"
| "delivered r c _ s = {}"

fun handled_now :: "'s Consumer \<Rightarrow> run_pc \<Rightarrow> 's world \<Rightarrow> string set" where
  "handled_now c (Busy m (Handling evt b n) ms k) w =
     (if fst (c_handler c (c_inst c) evt w) = Returned None then {msg_ID m} else {})"
| "handled_now c _ w = {}"

text \<open>
  The entries that a step from \<open>s\<close> to \<open>s'\<close> makes pending for a consumer which some collection, acting on the
  answer it has, is about to delete.
\<close>

definition raced_now ::
  "(nat \<Rightarrow> 's Consumer) \<Rightarrow> ('s \<Rightarrow> string \<Rightarrow> string option) \<Rightarrow> 's processes \<Rightarrow> 's \<Rightarrow> 's \<Rightarrow> string set" where
  "raced_now cs owner ps s s' = {mid. \<exists>i. \<exists>name \<in> doomed (cs i) (collector (ps i)).
     owner s mid \<noteq> Some name \<and> owner s' mid = Some name}"

text \<open>
  The system with its history: the entries delivered, the entries whose handler returned nil, the entries
  that became pending for a consumer about to be deleted, and the pending entries that the command of a collection
  took off the list.
\<close>

inductive system ::
  "'s redis \<Rightarrow> (nat \<Rightarrow> 's Consumer) \<Rightarrow> ('s \<Rightarrow> string \<Rightarrow> string option) \<Rightarrow> ('s \<Rightarrow> 's \<Rightarrow> bool) \<Rightarrow> 's \<Rightarrow> 's \<Rightarrow> 's processes
     \<Rightarrow> string set \<Rightarrow> string set \<Rightarrow> string set \<Rightarrow> string set \<Rightarrow> bool"
  for r cs owner outside s0 where
  boots: "(\<forall>i. \<exists>w. ps i = fresh_pod w) \<Longrightarrow> system r cs owner outside s0 s0 ps {} {} {} {}"
| runs: "system r cs owner outside s0 s ps dlv hnd raced lost \<Longrightarrow>
    run_step r (cs i) (main_pc (ps i), sees (ps i) s) = (pc', w') \<Longrightarrow>
    system r cs owner outside s0 (srv w') (ps(i := (ps i)\<lparr>main_pc := pc', memory := w'\<rparr>))
      (dlv \<union> delivered r (cs i) (main_pc (ps i)) s) (hnd \<union> handled_now (cs i) (main_pc (ps i)) (sees (ps i) s))
      (raced \<union> raced_now cs owner ps s (srv w')) lost"
| reclaims: "system r cs owner outside s0 s ps dlv hnd raced lost \<Longrightarrow>
    reclaim_step r (cs i) (claimer (ps i), sees (ps i) s) = (a', w') \<Longrightarrow>
    system r cs owner outside s0 (srv w') (ps(i := (ps i)\<lparr>claimer := a', memory := w'\<rparr>)) dlv hnd
      (raced \<union> raced_now cs owner ps s (srv w')) lost"
| collects: "system r cs owner outside s0 s ps dlv hnd raced lost \<Longrightarrow>
    gc_step r (cs i) (collector (ps i), sees (ps i) s) = (g', w') \<Longrightarrow>
    system r cs owner outside s0 (srv w') (ps(i := (ps i)\<lparr>collector := g', memory := w'\<rparr>)) dlv hnd
      (raced \<union> raced_now cs owner ps s (srv w'))
      (lost \<union> {mid. owner s mid \<noteq> None \<and> owner (srv w') mid = None})"
| beats: "system r cs owner outside s0 s ps dlv hnd raced lost \<Longrightarrow>
    beat_step r (cs i) (beat (ps i), sees (ps i) s) = (b', w') \<Longrightarrow>
    system r cs owner outside s0 (srv w') (ps(i := (ps i)\<lparr>beat := b', memory := w'\<rparr>)) dlv hnd
      (raced \<union> raced_now cs owner ps s (srv w')) lost"
| crashes: "system r cs owner outside s0 s ps dlv hnd raced lost \<Longrightarrow>
    system r cs owner outside s0 s (ps(i := fresh_pod w)) dlv hnd raced lost"
| others_act: "system r cs owner outside s0 s ps dlv hnd raced lost \<Longrightarrow> outside s s' \<Longrightarrow>
    system r cs owner outside s0 s' ps dlv hnd (raced \<union> raced_now cs owner ps s s') lost"

subsection \<open>What the commands keep\<close>

text \<open>
  The laws of the group of \<open>Consume_Steps\<close> for every entry, and those of the commands that come before and after:
  creating the group again loses no entry, a read delivers entries as pending and loses none, and
  \<^verbatim>\<open>XACK\<close> takes no entry off the list but its own. \<open>owner s mid\<close> is for whom \<open>mid\<close> is pending.
\<close>

definition delivery_laws :: "'s redis \<Rightarrow> 's Consumer \<Rightarrow> ('s \<Rightarrow> string \<Rightarrow> string option) \<Rightarrow> bool" where
  "delivery_laws r c owner \<longleftrightarrow>
     (\<forall>mid. group_laws r c (\<lambda>s. owner s mid))
   \<and> (\<forall>s mid. owner s mid \<noteq> None \<longrightarrow>
        owner (snd (XGroupCreateMkStream r (c_stream c) (c_group c) ''$'' s)) mid \<noteq> None)
   \<and> (\<forall>s mid. owner s mid \<noteq> None \<longrightarrow>
        owner (snd (XReadGroup r (c_group c) (c_name c) (c_stream c) (c_count c) (c_block c) s)) mid \<noteq> None)
   \<and> (\<forall>s mid. mid \<in> delivered r c Reading s \<longrightarrow>
        owner (snd (XReadGroup r (c_group c) (c_name c) (c_stream c) (c_count c) (c_block c) s)) mid \<noteq> None)
   \<and> (\<forall>s mid i. mid \<noteq> i \<longrightarrow> owner s mid \<noteq> None \<longrightarrow> owner (snd (XAck r (c_stream c) (c_group c) i s)) mid \<noteq> None)"

lemma handler_step_keeps:
  assumes "wired r c" "delivery_laws r c owner" "c_handler c (c_inst c) evt w = (res, w1)"
  shows "owner (srv w1) mid = owner (srv w) mid"
proof -
  from assms(1) have "adding_handler (c_handler c) r" by (simp add: wired_def)
  from conjunct2 [OF adding_handler.only_adds [OF this assms(3)]] show ?thesis
    by (induction rule: added.induct) (use assms(2) in \<open>simp_all add: delivery_laws_def group_laws_def\<close>)
qed

lemma proc_step_keeps:
  assumes w: "wired r c" and laws: "delivery_laws r c owner" and step: "proc_step r c m (a, w) = (a', w')"
    and "owner (srv w) mid \<noteq> None" "a = Acking \<longrightarrow> mid \<noteq> msg_ID m"
  shows "owner (srv w') mid \<noteq> None"
proof (cases a)
  case (Handling evt b n)
  obtain res w1 where run: "c_handler c (c_inst c) evt w = (res, w1)" by fastforce
  from handler_step_keeps [OF w laws run, of mid] assms(4) have "owner (srv w1) mid \<noteq> None" by simp
  then show ?thesis using step Handling run
    by (auto simp: finish_def ctx_done_def split: hresult.splits option.splits if_splits)
next
  case Acking
  with assms(5) laws assms(4) have "owner (snd (XAck r (c_stream c) (c_group c) (msg_ID m) (srv w))) mid \<noteq> None"
    by (simp add: delivery_laws_def)
  with step Acking show ?thesis
    by (auto simp: finish_def ctx_done_def on_server_eq split: option.splits if_splits)
qed (use step assms(4) in \<open>auto simp: finish_def ctx_done_def split: sum.splits if_splits\<close>)

lemma run_step_keeps:
  assumes w: "wired r c" and laws: "delivery_laws r c owner" and step: "run_step r c (pc, w) = (pc', w')"
    and "owner (srv w) mid \<noteq> None" "\<And>m ms k. pc = Busy m Acking ms k \<Longrightarrow> mid \<noteq> msg_ID m"
  shows "owner (srv w') mid \<noteq> None"
proof (cases pc)
  case Starting
  with laws assms(4) have "owner (snd (XGroupCreateMkStream r (c_stream c) (c_group c) ''$'' (srv w))) mid \<noteq> None"
    by (simp add: delivery_laws_def)
  with step Starting show ?thesis by (auto simp: ensureGroup_def on_server_eq split: option.splits if_splits)
next
  case SelfPend
  with laws step assms(4) show ?thesis
    by (auto simp: delivery_laws_def group_laws_def on_server_eq split: sum.splits)
next
  case (SelfClaim xps)
  with laws assms(4) have "owner (snd (XClaim r (c_stream c) (c_group c) (c_name c) 0 (map xp_ID xps) (srv w))) mid \<noteq> None"
    by (simp add: delivery_laws_def group_laws_def)
  with step SelfClaim show ?thesis by (auto simp: on_server_eq split: sum.splits)
next
  case (Batch ms k)
  with step assms(4) show ?thesis by (cases ms) simp_all
next
  case (Busy m a ms k)
  show ?thesis
  proof (cases "\<exists>err. a = Finished err")
    case True
    then obtain err where "a = Finished err" ..
    with Busy step assms(4) show ?thesis by (cases err) auto
  next
    case False
    then have "proc_step r c m (a, w) = (fst (proc_step r c m (a, w)), w')"
      using step Busy by (auto simp: run_step_busy)
    from proc_step_keeps [OF w laws this assms(4)] assms(5) Busy show ?thesis by blast
  qed
next
  case Reading
  with laws assms(4) have
    "owner (snd (XReadGroup r (c_group c) (c_name c) (c_stream c) (c_count c) (c_block c) (srv w))) mid \<noteq> None"
    by (simp add: delivery_laws_def)
  with step Reading show ?thesis by (auto simp: on_server_eq ctx_done_def split: read_reply.splits)
qed (use step assms(4) in \<open>auto simp: ctx_done_def\<close>)

lemma run_step_delivers:
  assumes "delivery_laws r c owner" "run_step r c (pc, w) = (pc', w')" "mid \<in> delivered r c pc (srv w)"
  shows "owner (srv w') mid \<noteq> None"
proof (cases "pc = Reading")
  case True
  with assms have "owner (snd (XReadGroup r (c_group c) (c_name c) (c_stream c) (c_count c) (c_block c) (srv w))) mid \<noteq> None"
    unfolding delivery_laws_def by blast
  with assms(2) True show ?thesis by (auto simp: on_server_eq ctx_done_def split: read_reply.splits)
next
  case False
  with assms(3) show ?thesis by (cases pc) simp_all
qed

subsection \<open>The invariant\<close>

text \<open>A process acknowledges only what has been handled, and never ends without an error.\<close>

fun pc_ok :: "string set \<Rightarrow> run_pc \<Rightarrow> bool" where
  "pc_ok H (Busy m a ms k) = (a \<in> {Acking, AckFailed, Finished None} \<longrightarrow> msg_ID m \<in> H)"
| "pc_ok H (Ended err) = (err \<noteq> None)"
| "pc_ok H _ = True"

lemma pc_ok_mono: "pc_ok H pc \<Longrightarrow> H \<subseteq> H' \<Longrightarrow> pc_ok H' pc"
  by (cases pc) auto

lemma proc_step_ok:
  assumes "wired r c" "pc_ok H (Busy m a ms k)" "proc_step r c m (a, w) = (a', w')"
  shows "pc_ok (H \<union> handled_now c (Busy m a ms k) w) (Busy m a' ms k)"
  using assms
  by (cases a) (auto simp: wired_def FailLoud_OnFatal_def canceled_def finish_def ctx_done_def
      split: sum.splits hresult.splits option.splits if_splits prod.splits)

lemma run_step_ok:
  assumes "wired r c" "pc_ok H pc" "run_step r c (pc, w) = (pc', w')"
  shows "pc_ok (H \<union> handled_now c pc w) pc'"
proof (cases pc)
  case (Batch ms k)
  with assms(3) show ?thesis by (cases ms; cases k) auto
next
  case (Busy m a ms k)
  show ?thesis
  proof (cases "\<exists>err. a = Finished err")
    case True
    then obtain err where "a = Finished err" ..
    with Busy assms(3) show ?thesis by (cases err) auto
  next
    case False
    then obtain a' where "proc_step r c m (a, w) = (a', w')" "pc' = Busy m a' ms k"
      using assms(3) Busy by (cases "proc_step r c m (a, w)") (auto simp: run_step_busy)
    with proc_step_ok [OF assms(1)] assms(2) Busy show ?thesis by blast
  qed
qed (use assms(2,3) in \<open>auto split: prod.splits sum.splits option.splits read_reply.splits if_splits\<close>)

text \<open>
  An entry pending at the start or delivered is pending, handled or dropped by a collection; an entry of a
  consumer about to be deleted is recorded as such, and so is a dropped one.
\<close>

definition system_inv ::
  "(nat \<Rightarrow> 's Consumer) \<Rightarrow> ('s \<Rightarrow> string \<Rightarrow> string option) \<Rightarrow> 's \<Rightarrow> 's \<Rightarrow> 's processes
     \<Rightarrow> string set \<Rightarrow> string set \<Rightarrow> string set \<Rightarrow> string set \<Rightarrow> bool" where
  "system_inv cs owner s0 s ps dlv hnd raced lost \<longleftrightarrow>
     (\<forall>mid. owner s0 mid \<noteq> None \<or> mid \<in> dlv \<longrightarrow> owner s mid \<noteq> None \<or> mid \<in> hnd \<or> mid \<in> lost)
   \<and> (\<forall>i mid. \<forall>name \<in> doomed (cs i) (collector (ps i)). owner s mid = Some name \<longrightarrow> mid \<in> raced)
   \<and> (\<forall>i. pc_ok hnd (main_pc (ps i))) \<and> lost \<subseteq> raced"

lemma system_invD:
  assumes "system_inv cs owner s0 s ps dlv hnd raced lost"
  shows "owner s0 mid \<noteq> None \<or> mid \<in> dlv \<Longrightarrow> owner s mid \<noteq> None \<or> mid \<in> hnd \<or> mid \<in> lost"
    and "name \<in> doomed (cs i) (collector (ps i)) \<Longrightarrow> owner s mid = Some name \<Longrightarrow> mid \<in> raced"
    and "pc_ok hnd (main_pc (ps i))" and "lost \<subseteq> raced"
  using assms unfolding system_inv_def by blast+

text \<open>
  What a step has to do for the invariant: take no entry off the list but a handled one or, as a collection, a
  recorded one, deliver entries as pending, and doom only consumers that have nothing pending.
\<close>

lemma system_inv_step:
  assumes inv: "system_inv cs owner s0 s ps dlv hnd raced lost"
    and keeps: "\<And>mid. owner s mid \<noteq> None \<Longrightarrow> owner s' mid \<noteq> None \<or> mid \<in> hnd \<or> mid \<in> l"
    and new: "\<And>mid. mid \<in> dv \<Longrightarrow> owner s' mid \<noteq> None" and l: "l \<subseteq> raced"
    and dooms: "\<And>i mid name. name \<in> doomed (cs i) (collector (ps' i)) \<Longrightarrow>
      name \<in> doomed (cs i) (collector (ps i)) \<or> owner s' mid \<noteq> Some name"
    and pc: "\<And>i. pc_ok (hnd \<union> hn) (main_pc (ps' i))"
  shows "system_inv cs owner s0 s' ps' (dlv \<union> dv) (hnd \<union> hn) (raced \<union> raced_now cs owner ps s s') (lost \<union> l)"
proof -
  have "mid \<in> raced \<union> raced_now cs owner ps s s'"
    if "name \<in> doomed (cs i) (collector (ps' i))" "owner s' mid = Some name" for i mid name
    using dooms [OF that(1), of mid] that(2) system_invD(2) [OF inv, of name i mid] by (auto simp: raced_now_def)
  moreover have "owner s' mid \<noteq> None \<or> mid \<in> hnd \<union> hn \<or> mid \<in> lost \<union> l"
    if "owner s0 mid \<noteq> None \<or> mid \<in> dlv \<union> dv" for mid
    using that system_invD(1) [OF inv, of mid] keeps [of mid] new [of mid] by blast
  ultimately show ?thesis using pc l system_invD(4) [OF inv] unfolding system_inv_def by blast
qed

lemma system_inv_still:
  assumes inv: "system_inv cs owner s0 s ps dlv hnd raced lost" and keeps: "\<And>mid. owner s mid \<noteq> None \<Longrightarrow> owner s' mid \<noteq> None"
    and same: "\<And>i. collector (ps' i) = collector (ps i) \<and> main_pc (ps' i) = main_pc (ps i)"
  shows "system_inv cs owner s0 s' ps' dlv hnd (raced \<union> raced_now cs owner ps s s') lost"
  using system_inv_step [OF inv, of s' "{}" "{}" ps' "{}"] keeps same system_invD(3) [OF inv] by (simp del: not_None_eq)

lemma group_law: "delivery_laws r c owner \<Longrightarrow> group_laws r c (\<lambda>s. owner s mid)"
  by (simp add: delivery_laws_def)

lemma system_keeps_inv:
  assumes w: "\<And>i. wired r (cs i)" and laws: "\<And>i. delivery_laws r (cs i) owner"
    and outside: "\<And>s s' mid. outside s s' \<Longrightarrow> owner s mid \<noteq> None \<Longrightarrow> owner s' mid \<noteq> None"
    and "system r cs owner outside s0 s ps dlv hnd raced lost"
  shows "system_inv cs owner s0 s ps dlv hnd raced lost"
  using assms(4)
proof (induction rule: system.induct)
  case (boots ps)
  then have "main_pc (ps i) = Starting \<and> collector (ps i) = GC_Waits" for i by (metis fresh_pod_def pod.select_convs(1,3))
  then show ?case by (simp add: system_inv_def)
next
  case (runs s ps dlv hnd raced lost i pc' w')
  note ok = system_invD(3) [OF runs.IH, of i]
  have keeps: "owner (srv w') mid \<noteq> None \<or> mid \<in> hnd \<or> mid \<in> {}" if "owner s mid \<noteq> None" for mid
  proof (cases "mid \<in> hnd")
    case False
    then have "mid \<noteq> msg_ID m" if "main_pc (ps i) = Busy m Acking ms k" for m ms k using ok that by auto
    with run_step_keeps [OF w laws runs.hyps(2)] that show ?thesis by simp
  qed simp
  have pc: "pc_ok (hnd \<union> handled_now (cs i) (main_pc (ps i)) (sees (ps i) s))
      (main_pc ((ps(i := (ps i)\<lparr>main_pc := pc', memory := w'\<rparr>)) j))" for j
    using run_step_ok [OF w ok runs.hyps(2)] pc_ok_mono [OF system_invD(3) [OF runs.IH, of j]] by simp
  have new: "owner (srv w') mid \<noteq> None" if "mid \<in> delivered r (cs i) (main_pc (ps i)) s" for mid
    using run_step_delivers [OF laws runs.hyps(2)] that by simp
  have dooms: "name \<in> doomed (cs j) (collector (ps j)) \<or> owner (srv w') mid \<noteq> Some name"
    if "name \<in> doomed (cs j) (collector ((ps(i := (ps i)\<lparr>main_pc := pc', memory := w'\<rparr>)) j))" for j mid name
    using that by (simp split: if_splits)
  from system_inv_step [OF runs.IH keeps new empty_subsetI dooms pc] show ?case by simp
next
  case (reclaims s ps dlv hnd raced lost i a' w')
  have "owner s mid \<noteq> None \<longrightarrow> owner (srv w') mid \<noteq> None" for mid
    using reclaim_step_keeps [OF group_law [OF laws] reclaims.hyps(2)] by simp
  then show ?case by (intro system_inv_still [OF reclaims.IH]) simp_all
next
  case (collects s ps dlv hnd raced lost i g' w')
  let ?l = "{mid. owner s mid \<noteq> None \<and> owner (srv w') mid = None}"
  have "mid \<in> raced" if "owner s mid \<noteq> None" "owner (srv w') mid = None" for mid
    using conjunct1 [OF gc_step_drops [OF group_law [OF laws] collects.hyps(2), of mid]]
      system_invD(2) [OF collects.IH, of _ i mid] that by auto
  then have l: "?l \<subseteq> raced" by blast
  have dooms: "name \<in> doomed (cs j) (collector (ps j)) \<or> owner (srv w') mid \<noteq> Some name"
    if "name \<in> doomed (cs j) (collector ((ps(i := (ps i)\<lparr>collector := g', memory := w'\<rparr>)) j))" for j mid name
    using that gc_step_doomed [OF group_law [OF laws] collects.hyps(2), of name mid] by (auto split: if_splits)
  have pc: "pc_ok (hnd \<union> {}) (main_pc ((ps(i := (ps i)\<lparr>collector := g', memory := w'\<rparr>)) j))" for j
    using system_invD(3) [OF collects.IH] by simp
  have kept: "owner (srv w') mid \<noteq> None \<or> mid \<in> hnd \<or> mid \<in> ?l" if "owner s mid \<noteq> None" for mid
    using that by (cases "owner (srv w') mid") simp_all
  have new: "owner (srv w') mid \<noteq> None" if "mid \<in> {}" for mid
    using that by simp
  have "system_inv cs owner s0 (srv w') (ps(i := (ps i)\<lparr>collector := g', memory := w'\<rparr>)) (dlv \<union> {}) (hnd \<union> {})
      (raced \<union> raced_now cs owner ps s (srv w')) (lost \<union> ?l)"
    by (rule system_inv_step [OF collects.IH kept new l dooms pc])
  then show ?case by (simp only: Un_empty_right)
next
  case (beats s ps dlv hnd raced lost i b' w')
  have "owner s mid \<noteq> None \<longrightarrow> owner (srv w') mid \<noteq> None" for mid
    using beat_step_keeps [OF group_law [OF laws] beats.hyps(2)] by simp
  then show ?case by (intro system_inv_still [OF beats.IH]) simp_all
next
  case (crashes s ps dlv hnd raced lost i w)
  then show ?case by (simp add: system_inv_def fresh_pod_def)
next
  case (others_act s ps dlv hnd raced lost s')
  then show ?case by (intro system_inv_still [OF others_act.IH] outside [OF others_act.hyps(2)]) simp_all
qed

lemma built_wired:
  "\<exists>b p catalog. buildHandler b Default r p catalog = Inr (c_handler c) \<Longrightarrow> c_policy c = FailLoud_OnFatal \<Longrightarrow> wired r c"
  using built_handler_adds unfolding wired_def by blast

text \<open>The guarantee for a group of consumers with handlers the program builds and the policy it uses.\<close>

lemma system_at_least_once:
  assumes "\<And>i. \<exists>b p catalog. buildHandler b Default r p catalog = Inr (c_handler (cs i))"
    and "\<And>i. c_policy (cs i) = FailLoud_OnFatal" "\<And>i. delivery_laws r (cs i) owner"
    and "\<And>s s' mid. outside s s' \<Longrightarrow> owner s mid \<noteq> None \<Longrightarrow> owner s' mid \<noteq> None"
    and "system r cs owner outside s0 s ps dlv hnd raced lost"
  shows "(\<forall>mid. owner s0 mid \<noteq> None \<or> mid \<in> dlv \<longrightarrow> owner s mid \<noteq> None \<or> mid \<in> hnd \<or> mid \<in> lost) \<and> lost \<subseteq> raced
    \<and> (\<forall>i. main_pc (ps i) \<noteq> Ended None)"
proof -
  have "wired r (cs i)" for i using built_wired [OF assms(1,2)] .
  from system_keeps_inv [OF this assms(3-5)] have inv: "system_inv cs owner s0 s ps dlv hnd raced lost" .
  have "main_pc (ps i) \<noteq> Ended None" for i
    using system_invD(3) [OF inv, of i] by auto
  with inv show ?thesis by (simp add: system_inv_def)
qed

subsection \<open>The entry in flight\<close>

text \<open>
  The entry the heartbeat is to protect, at each point of the consumer's goroutine: the one it handles, from
  the parsed envelope to the end of its acknowledgement, and none otherwise.
\<close>

fun being_handled :: "run_pc \<Rightarrow> string option" where
  "being_handled (Busy m a ms k) = (case a of Fetched \<Rightarrow> None | Finished err \<Rightarrow> None | _ \<Rightarrow> Some (msg_ID m))"
| "being_handled _ = None"

lemma proc_step_flight:
  assumes "wired r c" "proc_step r c m (a, w) = (a', w')" "inFlight w = being_handled (Busy m a ms k)"
  shows "inFlight w' = being_handled (Busy m a' ms k)"
proof (cases a)
  case (Handling evt b n)
  obtain res w1 where run: "c_handler c (c_inst c) evt w = (res, w1)" by fastforce
  from assms(1) have "adding_handler (c_handler c) r" by (simp add: wired_def)
  from adding_handler.only_adds [OF this run] have "inFlight w1 = inFlight w" by (simp add: client_frame_def)
  then show ?thesis using assms(2,3) Handling run
    by (auto simp: finish_def ctx_done_def split: hresult.splits option.splits if_splits)
qed (use assms(2,3) in \<open>auto simp: finish_def ctx_done_def on_server_eq split: option.splits sum.splits if_splits\<close>)

lemma run_step_flight:
  assumes "wired r c" "run_step r c (pc, w) = (pc', w')" "inFlight w = being_handled pc"
  shows "inFlight w' = being_handled pc'"
proof (cases pc)
  case (Batch ms k)
  with assms(2,3) show ?thesis by (cases ms; cases k) auto
next
  case (Busy m a ms k)
  show ?thesis
  proof (cases "\<exists>err. a = Finished err")
    case True
    then obtain err where "a = Finished err" ..
    with Busy assms(2,3) show ?thesis by (cases err) auto
  next
    case False
    then obtain a' where "proc_step r c m (a, w) = (a', w')" "pc' = Busy m a' ms k"
      using assms(2) Busy by (cases "proc_step r c m (a, w)") (auto simp: run_step_busy)
    with proc_step_flight [OF assms(1)] assms(3) Busy show ?thesis by blast
  qed
qed (use assms(2,3) in \<open>auto simp: ctx_done_def ensureGroup_def on_server_eq
    split: prod.splits sum.splits option.splits read_reply.splits if_splits\<close>)

lemma background_flight:
  "reclaim_step r c (a, w) = (a', w') \<Longrightarrow> inFlight w' = inFlight w"
  "gc_step r c (g, w) = (g', w') \<Longrightarrow> inFlight w' = inFlight w"
  "beat_step r c (b, w) = (b', w') \<Longrightarrow> inFlight w' = inFlight w"
proof -
  show "reclaim_step r c (a, w) = (a', w') \<Longrightarrow> inFlight w' = inFlight w"
    by (cases a) (auto simp: on_server_eq split: sum.splits if_splits)
  show "inFlight w' = inFlight w" if "gc_step r c (g, w) = (g', w')"
  proof (cases g)
    case (Deleting xics)
    with that show ?thesis by (cases xics) (auto simp: on_server_eq split: if_splits)
  qed (use that in \<open>auto simp: on_server_eq split: sum.splits\<close>)
  show "beat_step r c (b, w) = (b', w') \<Longrightarrow> inFlight w' = inFlight w"
    by (cases b) (auto simp: claimFn_def on_server_eq split: sum.splits)
qed

lemma system_flight:
  assumes w: "\<And>i. wired r (cs i)" and "system r cs owner outside s0 s ps dlv hnd raced lost"
  shows "inFlight (memory (ps i)) = being_handled (main_pc (ps i))"
  using assms(2)
proof (induction arbitrary: i rule: system.induct)
  case (boots ps)
  then obtain w where "ps i = fresh_pod w" by blast
  then show ?case by (simp add: fresh_pod_def)
next
  case (runs s ps dlv hnd raced lost j pc' w')
  from run_step_flight [OF w runs.hyps(2)] runs.IH show ?case by simp
next
  case (reclaims s ps dlv hnd raced lost j a' w')
  from background_flight(1) [OF reclaims.hyps(2)] reclaims.IH show ?case by simp
next
  case (collects s ps dlv hnd raced lost j g' w')
  from background_flight(2) [OF collects.hyps(2)] collects.IH show ?case by simp
next
  case (beats s ps dlv hnd raced lost j b' w')
  from background_flight(3) [OF beats.hyps(2)] beats.IH show ?case by simp
qed (simp_all add: fresh_pod_def)

subsection \<open>The server of the witnesses\<close>

lemma mini_delivery_laws: "delivery_laws mini_redis c (\<lambda>s mid. mini_owner mid s)"
proof -
  have "group_laws mini_redis c (\<lambda>s. mini_owner mid s)" for mid by (rule mini_group_laws)
  then show ?thesis
    by (auto simp: delivery_laws_def mini_redis_def mini_owner_def Let_def split: if_splits)
qed

end
