(* ===== verification/Pipeline.thy ===== *)
theory Pipeline
  imports Consume_Safety
begin

section \<open>The handler of a binding as a pipeline\<close>

text \<open>
  \<open>buildHandler\<close> nests the middleware around a handler; what a binding promises is a sequence of three stages:
  enrichment, the service, the emit. Each is optional, runs in the state the one before it left,
  and is not run when an earlier one failed. This is the specification the nested handlers implement, and the
  causes of poison follow from it.
\<close>

subsection \<open>The stages\<close>

text \<open>The rules of the binding, if it has any, replace the enrichment of the event.\<close>

definition enrich_stage ::
  "(string \<times> Lookup) list \<Rightarrow> StreamBinding \<Rightarrow> Event \<Rightarrow> 's world \<Rightarrow> (error + Event) \<times> 's world" where
  "enrich_stage catalog b evt w =
     (if sb_Enrich b = [] then (Inr evt, w)
      else case build_rules catalog (sb_Enrich b) of
        Inl e \<Rightarrow> (Inl e, w)
      | Inr rules \<Rightarrow>
          (case Run rules (Data evt) (Old evt) w of
             (Inl e, w') \<Rightarrow> (Inl e, w')
           | (Inr enr, w') \<Rightarrow> (Inr (evt\<lparr>Enrichment := Some enr\<rparr>), w')))"

definition service_of :: "string \<Rightarrow> Service" where
  "service_of name = (if name = ''gateway-sync'' then ServiceGateway else ServiceInternal)"

definition service_stage :: "StreamBinding \<Rightarrow> InstanceContext \<Rightarrow> Event \<Rightarrow> 's world \<Rightarrow> error option \<times> 's world" where
  "service_stage b inst evt w =
     (if sb_Handler b = [] then (None, w)
      else case selectClient inst (service_of (sb_Handler b)) of
        None \<Rightarrow> (None, w)
      | Some client \<Rightarrow> forward_to (client_Do client) evt w)"

definition emit_stage :: "'s redis \<Rightarrow> Producer \<Rightarrow> StreamBinding \<Rightarrow> Event \<Rightarrow> 's world \<Rightarrow> error option \<times> 's world" where
  "emit_stage r p b evt w = (if sb_Emit b = [] then (None, w) else Emit r p (sb_Emit b) evt w)"

text \<open>An error of the enrichment, as the consumer gets it.\<close>

definition enrich_error :: "error \<Rightarrow> error" where
  "enrich_error e = (if Lookup_IsPoison e then PoisonError (Errorf [Lit ''enrich: '', W e]) else e)"

definition pipeline ::
  "'s redis \<Rightarrow> Producer \<Rightarrow> (string \<times> Lookup) list \<Rightarrow> StreamBinding \<Rightarrow> InstanceContext \<Rightarrow> Event \<Rightarrow> 's world \<Rightarrow>
     error option \<times> 's world" where
  "pipeline r p catalog b inst evt w =
     (case enrich_stage catalog b evt w of
        (Inl e, w1) \<Rightarrow> (Some (enrich_error e), w1)
      | (Inr evt', w1) \<Rightarrow>
          (case service_stage b inst evt' w1 of
             (Some e, w2) \<Rightarrow> (Some e, w2)
           | (None, w2) \<Rightarrow> emit_stage r p b evt' w2))"

subsection \<open>The nested handlers implement the pipeline\<close>

lemma base_stage:
  assumes "(if sb_Handler b = [] then Some Noop else Registry_Lookup Default (sb_Handler b)) = Some base"
  shows "base inst evt w = (case service_stage b inst evt w of (err, w') \<Rightarrow> (Returned err, w'))"
proof (cases "sb_Handler b = []")
  case True
  with assms have "base = Noop" by simp
  with True show ?thesis by (simp add: service_stage_def Noop_def)
next
  case False
  with assms have "base = Forward (service_of (sb_Handler b))"
    by (auto simp: Registry_Lookup_def Default_def service_of_def split: if_splits)
  with False show ?thesis by (simp add: service_stage_def Forward_def split: option.splits)
qed

lemma emitting_stage:
  assumes "\<And>inst evt w. base inst evt w = (case service_stage b inst evt w of (err, w') \<Rightarrow> (Returned err, w'))"
  shows "(if sb_Emit b \<noteq> [] then EmitAfter (Emit r p) (sb_Emit b) base else base) inst evt w =
    (case service_stage b inst evt w of
       (Some e, w2) \<Rightarrow> (Returned (Some e), w2)
     | (None, w2) \<Rightarrow> (case emit_stage r p b evt w2 of (err, w3) \<Rightarrow> (Returned err, w3)))"
  by (auto simp: EmitAfter_def emit_stage_def assms split: prod.splits option.splits)

lemma built_pipeline:
  fixes h :: "'s world handler"
  assumes "buildHandler b Default r p catalog = Inr h"
  shows "h inst evt w = (case pipeline r p catalog b inst evt w of (err, w') \<Rightarrow> (Returned err, w'))"
proof -
  have "(if sb_Handler b = [] then Some Noop else Registry_Lookup Default (sb_Handler b)) \<noteq> (None :: 's world handler option)"
    using assms by (cases "sb_Handler b = []") (auto simp: buildHandler_def split: option.splits)
  then obtain base :: "'s world handler" where
    base: "(if sb_Handler b = [] then Some Noop else Registry_Lookup Default (sb_Handler b)) = Some base"
    by blast
  let ?inner = "if sb_Emit b \<noteq> [] then EmitAfter (Emit r p) (sb_Emit b) base else base"
  note inner = emitting_stage [OF base_stage [OF base], of r p]
  show ?thesis
  proof (cases "sb_Enrich b = []")
    case True
    with assms base have "h = ?inner" by (simp add: buildHandler_def Let_def)
    with True show ?thesis
      by (simp only: inner) (auto simp: pipeline_def enrich_stage_def split: prod.splits option.splits)
  next
    case False
    with assms base obtain rules where rules: "build_rules catalog (sb_Enrich b) = Inr rules" "h = Enrich rules ?inner"
      by (auto simp: buildHandler_def Let_def split: sum.splits)
    have "h inst evt w = Enrich rules ?inner inst evt w" using rules by simp
    also have "\<dots> = (case pipeline r p catalog b inst evt w of (err, w') \<Rightarrow> (Returned err, w'))"
      unfolding Enrich_def inner
      by (auto simp: pipeline_def enrich_stage_def enrich_error_def Poison_def False rules
          split: prod.splits option.splits sum.splits)
    finally show ?thesis .
  qed
qed

text \<open>
  C7. The handler built for a binding is the pipeline of its three stages: it never panics; the enrichment runs first and
  replaces the enrichment of the event; the service gets the enriched event, only when every lookup succeeded; the same
  event is emitted, only after the service has accepted it; the first stage that fails decides the
  result, in the state it left.
\<close>

theorem handler_is_pipeline:
  assumes "buildHandler b Default r p catalog = Inr h"
  shows "h inst evt w = (case pipeline r p catalog b inst evt w of (err, w') \<Rightarrow> (Returned err, w'))"
  using assms by (rule built_pipeline)

subsection \<open>The causes of poison\<close>

lemma enrich_stage_error: "enrich_stage catalog b evt w = (Inl e, w1) \<Longrightarrow> build_rules catalog (sb_Enrich b) = Inr rules \<Longrightarrow> \<not> IsPoison e"
  by (auto simp: enrich_stage_def split: if_splits prod.splits sum.splits dest: Run_not_dasher_poison)

lemma IsPoison_enrich_error: "\<not> IsPoison e \<Longrightarrow> IsPoison (enrich_error e) \<longleftrightarrow> Lookup_IsPoison e"
  by (simp add: enrich_error_def err_simps)

text \<open>The service stage is given an event it cannot encode, or the service rejects it.\<close>

definition service_poisons :: "StreamBinding \<Rightarrow> InstanceContext \<Rightarrow> Event \<Rightarrow> 's world \<Rightarrow> bool" where
  "service_poisons b inst evt w \<longleftrightarrow>
     sb_Handler b \<noteq> [] \<and>
     (case selectClient inst (service_of (sb_Handler b)) of
        None \<Rightarrow> False
      | Some client \<Rightarrow>
          (case event_json (flops w) evt of
             None \<Rightarrow> True
           | Some body \<Rightarrow>
               (case fst (client_Do client ''POST'' ''/events'' body w) of
                  Inl _ \<Rightarrow> False | Inr (code, _) \<Rightarrow> 400 \<le> code \<and> code < 500)))"

lemma service_stage_poison:
  assumes "service_stage b inst evt w = (Some e, w')"
  shows "IsPoison e \<longleftrightarrow> service_poisons b inst evt w"
proof (cases "sb_Handler b = []")
  case False
  with assms obtain client where client: "selectClient inst (service_of (sb_Handler b)) = Some client"
    and fwd: "forward_to (client_Do client) evt w = (Some e, w')"
    by (auto simp: service_stage_def split: option.splits)
  from client.forward_poison_iff [OF fwd] client False show ?thesis by (simp add: service_poisons_def)
qed (use assms in \<open>simp add: service_stage_def\<close>)

lemma service_stage_ok: "service_stage b inst evt w = (None, w') \<Longrightarrow> \<not> service_poisons b inst evt w"
  by (auto simp: service_stage_def service_poisons_def forward_to_def status_result_def Poison_def
      split: if_splits option.splits prod.splits sum.splits)

lemma emit_stage_error: "emit_stage r p b evt w = (Some e, w') \<Longrightarrow> \<not> IsPoison e"
  by (auto simp: emit_stage_def dest: xadd.emit_transient split: if_splits)

text \<open>
  C8. Why an event is given up: an error of a built handler is poison exactly when a lookup violated its contract (a nil
  bind column, or a number of rows other than one), the enriched event cannot be encoded, or the service
  answered with a status from 400 to 499. Every other failure, of the database, the network, the login,
  the service or the emit, is transient and retried.
\<close>

theorem poison_causes:
  assumes "buildHandler b Default r p catalog = Inr h" "h inst evt w = (Returned (Some e), w')"
  shows "IsPoison e \<longleftrightarrow>
    (case enrich_stage catalog b evt w of
       (Inl e0, w1) \<Rightarrow> Lookup_IsPoison e0
     | (Inr evt', w1) \<Rightarrow> service_poisons b inst evt' w1)"
proof -
  from assms built_pipeline [OF assms(1), of inst evt w]
  have run: "pipeline r p catalog b inst evt w = (Some e, w')" by (auto split: prod.splits)
  obtain out w1 where en: "enrich_stage catalog b evt w = (out, w1)" by fastforce
  show ?thesis
  proof (cases out)
    case (Inl e0)
    with run en have e: "e = enrich_error e0" by (simp add: pipeline_def)
    have "sb_Enrich b \<noteq> []" using en Inl by (auto simp: enrich_stage_def)
    with assms(1) obtain rules where "build_rules catalog (sb_Enrich b) = Inr rules"
      by (auto simp: buildHandler_def Let_def split: option.splits sum.splits)
    from IsPoison_enrich_error [OF enrich_stage_error [OF en [unfolded Inl] this]] show ?thesis by (simp add: e en Inl)
  next
    case (Inr evt')
    obtain err w2 where sv: "service_stage b inst evt' w1 = (err, w2)" by fastforce
    show ?thesis
    proof (cases err)
      case None
      with run en Inr sv have "emit_stage r p b evt' w2 = (Some e, w')" by (simp add: pipeline_def)
      from emit_stage_error [OF this] service_stage_ok [of b inst evt' w1] sv None show ?thesis by (simp add: en Inr)
    next
      case (Some e1)
      with run en Inr sv have "e1 = e" by (simp add: pipeline_def)
      with service_stage_poison [of b inst evt' w1] sv Some show ?thesis by (simp add: en Inr)
    qed
  qed
qed

text \<open>
  A binding with all three stages: one lookup, the internal service, an emit. The database answers with one row, the
  service accepts the event; a service that rejects it makes the event poison.
\<close>

definition full_binding :: StreamBinding where
  "full_binding = \<lparr>sb_Stream = ''cdc.users'', sb_Scope = [], sb_Handler = ''order-sync@v1'', sb_Emit = ''out'',
     sb_Enrich = [\<lparr>er_Lookup = ''email'', er_Bind = [(''id'', ''name'')], er_Into = ''mail''\<rparr>]\<rparr>"

definition full_catalog :: "(string \<times> Lookup) list" where
  "full_catalog = [(''email'', sqlLookup ''select'' 5000000000)]"

definition full_handler :: "mini world handler" where
  "full_handler = Enrich [\<lparr>LookupName = ''email'', rule_Lookup = sqlLookup ''select'' 5000000000,
       Bind = [(''id'', ''name'')], Into = ''mail''\<rparr>]
     (EmitAfter (Emit mini_redis (New_Producer ''i'')) ''out'' (Forward ServiceInternal))"

lemma full_handler_built: "buildHandler full_binding Default mini_redis (New_Producer ''i'') full_catalog = Inr full_handler"
  by (simp add: buildHandler_def full_binding_def full_catalog_def full_handler_def Registry_Lookup_def Default_def)

definition full_event :: Event where
  "full_event = \<lparr>ID = ''1-0'', Op = ''insert'', Table = ''users'', Schema = ''public'', LSN = ''0/1'',
     StreamedAt = \<lparr>unix = 1781258400, nsec = 0, zone = 0\<rparr>, Data = Some [(''name'', VStr ''Ada'')],
     Old = None, Enrichment = None, Source = []\<rparr>"

definition full_world :: "int \<Rightarrow> mini world" where
  "full_world code = (world0 mini0)\<lparr>db_ans := (\<lambda>_. Inr [[(''email'', VStr ''a@b'')]]), http_ans := (\<lambda>_. Response code [])\<rparr>"

lemma full_run:
  "case full_handler (c_inst (sync_consumer one_service)) full_event (full_world 204) of
     (Returned None, w') \<Rightarrow> map (\<lambda>m. map_of (msg_Values m) ''enrichment'') (m_entries (srv w'))
         = [Some (VStr ''{\"mail\":{\"email\":\"a@b\"}}'')]
   | _ \<Rightarrow> False"
  by code_simp

theorem handler_is_pipeline_witness:
  "\<exists>w'. full_handler (c_inst (sync_consumer one_service)) full_event (full_world 204) = (Returned None, w')
     \<and> pipeline mini_redis (New_Producer ''i'') full_catalog full_binding (c_inst (sync_consumer one_service))
         full_event (full_world 204) = (None, w') \<and> length (m_entries (srv w')) = 1"
proof -
  let ?inst = "c_inst (sync_consumer one_service)"
  obtain w' where run: "full_handler ?inst full_event (full_world 204) = (Returned None, w')"
    and "map (\<lambda>m. map_of (msg_Values m) ''enrichment'') (m_entries (srv w')) = [Some (VStr ''{\"mail\":{\"email\":\"a@b\"}}'')]"
    using full_run by (auto split: prod.splits hresult.splits option.splits)
  then have "length (m_entries (srv w')) = 1" by (metis length_map length_Cons list.size(3) One_nat_def)
  with handler_is_pipeline [OF full_handler_built, of ?inst full_event "full_world 204"] run show ?thesis
    by (auto split: prod.splits)
qed

lemma full_rejected:
  "case full_handler (c_inst (sync_consumer one_service)) full_event (full_world 422) of
     (Returned (Some e), w') \<Rightarrow> m_entries (srv w') = [] | _ \<Rightarrow> False"
  by code_simp

lemma full_rejects:
  "case enrich_stage full_catalog full_binding full_event (full_world 422) of
     (Inl e0, w1) \<Rightarrow> Lookup_IsPoison e0
   | (Inr evt', w1) \<Rightarrow> service_poisons full_binding (c_inst (sync_consumer one_service)) evt' w1"
  by code_simp

theorem poison_causes_witness:
  "\<exists>e w'. full_handler (c_inst (sync_consumer one_service)) full_event (full_world 422) = (Returned (Some e), w')
     \<and> IsPoison e \<and> m_entries (srv w') = []"
proof -
  let ?inst = "c_inst (sync_consumer one_service)"
  obtain e w' where run: "full_handler ?inst full_event (full_world 422) = (Returned (Some e), w')"
    and none: "m_entries (srv w') = []"
    using full_rejected by (auto split: prod.splits hresult.splits option.splits)
  from poison_causes [OF full_handler_built run] full_rejects have "IsPoison e" by blast
  with run none show ?thesis by blast
qed

end
