(* ===== verification/Json_Roundtrip.thy ===== *)
theory Json_Roundtrip
  imports Go_Value
begin

section \<open>What is encoded is decoded\<close>

text \<open>
  The encoder and the scanner of \<^verbatim>\<open>encoding/json\<close> as the program combines them: a text the encoder
  makes from a tree of valid strings and numbers is scanned back to the tree, and what the scanner
  returns is such a tree. From this, values that came in as JSON go out and come in unchanged.
\<close>

subsection \<open>Valid UTF-8\<close>

function valid_utf8 :: "string \<Rightarrow> bool" where
  "valid_utf8 [] = True"
| "valid_utf8 (c # r) = (case utf8_size (c # r) of 0 \<Rightarrow> False | Suc n \<Rightarrow> valid_utf8 (drop n r))"
  by pat_completeness auto
termination
  by (relation "measure length") auto

declare valid_utf8.simps(2) [simp del]

lemma byte_range: "0 \<le> byte c" "byte c < 256"
proof -
  have "byte c = int (of_char c)" by (simp add: of_nat_of_char)
  moreover have "of_char c < (256::nat)" by simp
  ultimately show "0 \<le> byte c" "byte c < 256" by linarith+
qed

lemma byte_char_of: "0 \<le> i \<Longrightarrow> i < 256 \<Longrightarrow> byte (char_of i) = (i::int)"
  by simp

lemma byte_at_prefix: "i < k \<Longrightarrow> k \<le> length s \<Longrightarrow> byte_at lo hi (take k s @ x) i = byte_at lo hi s i"
  by (auto simp: byte_at_def nth_append)

lemma utf8_size_length: "utf8_size s = n \<Longrightarrow> n \<le> length s"
  using utf8_size_le by blast

lemma utf8_size_prefix:
  assumes "utf8_size s = Suc n"
  shows "utf8_size (take (Suc n) s @ x) = Suc n"
proof -
  let ?t = "take (Suc n) s @ x"
  have s: "s \<noteq> []" "Suc n \<le> length s" using assms utf8_size_length [OF assms] by auto
  then have t: "?t \<noteq> []" "hd ?t = hd s" by (cases s; simp)+
  have at: "i \<le> n \<Longrightarrow> byte_at lo hi ?t i = byte_at lo hi s i" for i lo hi
    by (rule byte_at_prefix) (use s in simp_all)
  have two: "byte_at lo hi s 1 \<Longrightarrow> n = 1 \<Longrightarrow> byte_at lo hi ?t 1" for lo hi using at by simp
  consider "n = 0" "byte (hd s) < 0x80" | "n = 1" | "n = 2" | "n = 3"
    using assms by (auto simp: utf8_size_def Let_def split: if_splits)
  then show ?thesis
  proof cases
    case 1
    with t show ?thesis by (simp add: utf8_size_def)
  next
    case 2
    note at1 = at [of 1, unfolded 2, simplified]
    from assms 2 s(1) t show ?thesis
      by (simp add: utf8_size_def Let_def at1 [unfolded One_nat_def] split: if_split_asm)
  next
    case 3
    note at1 = at [of 1, unfolded 3, simplified] and at2 = at [of 2, unfolded 3, simplified]
    from assms 3 s(1) t show ?thesis
      by (simp add: utf8_size_def Let_def at1 [unfolded One_nat_def] at2 split: if_split_asm)
  next
    case 4
    note at1 = at [of 1, unfolded 4, simplified] and at2 = at [of 2, unfolded 4, simplified]
      and at3 = at [of 3, unfolded 4, simplified]
    from assms 4 s(1) t show ?thesis
      by (simp add: utf8_size_def Let_def at1 [unfolded One_nat_def] at2 at3 split: if_split_asm)
  qed
qed

lemma utf8_size_append: "utf8_size s = Suc n \<Longrightarrow> utf8_size (s @ x) = Suc n"
  using utf8_size_prefix [of s n "drop (Suc n) s @ x"] by (simp add: append_assoc [symmetric] del: append_assoc)

lemma utf8_size_ascii: "byte c < 128 \<Longrightarrow> utf8_size (c # s) = 1"
  by (simp add: utf8_size_def)

lemma utf8_size_1: "utf8_size (c # s) = Suc 0 \<Longrightarrow> byte c < 128"
  by (auto simp: utf8_size_def Let_def split: if_splits)

lemma utf8_size_more: "utf8_size (c # s) = Suc (Suc n) \<Longrightarrow> 128 \<le> byte c"
  by (auto simp: utf8_size_def Let_def split: if_splits)

lemma valid_utf8_rune:
  assumes "utf8_size (c # r) = Suc n"
  shows "valid_utf8 (c # take n r @ q) = valid_utf8 q"
proof -
  have "utf8_size (c # take n r @ q) = Suc n" "n \<le> length r"
    using utf8_size_prefix [OF assms, of q] utf8_size_length [OF assms] by simp_all
  then show ?thesis by (subst valid_utf8.simps) simp
qed

lemma valid_utf8_append: "valid_utf8 p \<Longrightarrow> valid_utf8 q \<Longrightarrow> valid_utf8 (p @ q)"
proof (induction p rule: valid_utf8.induct)
  case (2 c r)
  then obtain n where n: "utf8_size (c # r) = Suc n" and v: "valid_utf8 (drop n r)"
    by (auto simp: valid_utf8.simps(2) [of c r] split: nat.splits)
  with 2 have "valid_utf8 (drop n r @ q)" by simp
  with valid_utf8_rune [OF n, of "drop n r @ q"] show ?case
    by (simp add: append_assoc [symmetric] del: append_assoc)
qed simp

lemma valid_utf8_ascii: "byte c < 128 \<Longrightarrow> valid_utf8 (c # s) = valid_utf8 s"
  by (subst valid_utf8.simps) (simp add: utf8_size_ascii)

lemma valid_utf8_ufffd [simp]: "valid_utf8 ufffd"
  by (simp add: ufffd_def valid_utf8.simps utf8_size_def byte_at_def)

text \<open>A rune of two, three or four bytes, from its groups of six bits.\<close>

lemma valid_bytes_2:
  assumes "0xC2 \<le> byte x" "byte x \<le> 0xDF" "0x80 \<le> byte y" "byte y \<le> 0xBF"
  shows "valid_utf8 [x, y]"
  using assms by (simp add: valid_utf8.simps utf8_size_def byte_at_def)

lemma valid_bytes_3:
  assumes "0xE0 \<le> byte x" "byte x \<le> 0xEF" "0x80 \<le> byte y" "byte y \<le> 0xBF" "0x80 \<le> byte z" "byte z \<le> 0xBF"
    and "byte x = 0xE0 \<Longrightarrow> 0xA0 \<le> byte y" "byte x = 0xED \<Longrightarrow> byte y \<le> 0x9F"
  shows "valid_utf8 [x, y, z]"
  using assms
  by (cases "byte x = 0xE0"; cases "byte x = 0xED") (simp_all add: valid_utf8.simps utf8_size_def byte_at_def Let_def)

lemma valid_bytes_4:
  assumes "0xF0 \<le> byte x" "byte x \<le> 0xF4" "0x80 \<le> byte y" "byte y \<le> 0xBF" "0x80 \<le> byte z" "byte z \<le> 0xBF"
    and "0x80 \<le> byte u" "byte u \<le> 0xBF"
    and "byte x = 0xF0 \<Longrightarrow> 0x90 \<le> byte y" "byte x = 0xF4 \<Longrightarrow> byte y \<le> 0x8F"
  shows "valid_utf8 [x, y, z, u]"
  using assms
  by (cases "byte x = 0xF0"; cases "byte x = 0xF4") (simp_all add: valid_utf8.simps utf8_size_def byte_at_def Let_def)

lemma valid_utf8_2:
  fixes a b :: int
  assumes "2 \<le> a" "a < 32" "0 \<le> b" "b < 64"
  shows "valid_utf8 [char_of (0xC0 + a), char_of (0x80 + b)]"
  using assms by (intro valid_bytes_2) (simp_all add: byte_char_of del: of_char_of)

lemma valid_utf8_3:
  fixes a b c :: int
  assumes "0 \<le> a" "a < 16" "0 \<le> b" "b < 64" "0 \<le> c" "c < 64"
    and "a = 0 \<Longrightarrow> 32 \<le> b" "a = 13 \<Longrightarrow> b < 32"
  shows "valid_utf8 [char_of (0xE0 + a), char_of (0x80 + b), char_of (0x80 + c)]"
  using assms by (intro valid_bytes_3) (simp_all add: byte_char_of del: of_char_of)

lemma valid_utf8_4:
  fixes a b c d :: int
  assumes "0 \<le> a" "a < 5" "0 \<le> b" "b < 64" "0 \<le> c" "c < 64" "0 \<le> d" "d < 64"
    and "a = 0 \<Longrightarrow> 16 \<le> b" "a = 4 \<Longrightarrow> b < 16"
  shows "valid_utf8 [char_of (0xF0 + a), char_of (0x80 + b), char_of (0x80 + c), char_of (0x80 + d)]"
  using assms by (intro valid_bytes_4) (simp_all add: byte_char_of del: of_char_of)

lemma div_groups: "u div 4096 = u div 64 div 64" "u div 262144 = u div 64 div 64 div (64::int)"
  by (simp_all add: div_mult2_eq [symmetric])

lemma mod_range: "0 \<le> u mod (64::int)" "u mod (64::int) < 64"
  by simp_all

lemma mod_group: "0 \<le> u mod (64::int)" "u mod (64::int) < 64" "u = 64 * (u div 64) + u mod 64"
  by simp_all

lemma valid_utf8_encode_rune:
  assumes u: "0 \<le> u" "u \<le> 0x10FFFF"
  shows "valid_utf8 (encode_rune u)"
proof -
  let ?v = "u div 64" and ?x = "u div 64 div 64"
  note groups = mod_group [of u] mod_group [of ?v] mod_group [of ?x]
  consider "u < 0x80" | "0x80 \<le> u" "u < 0x800" | "0xD800 \<le> u" "u < 0xE000"
    | "0x800 \<le> u" "u < 0x10000" "u < 0xD800 \<or> 0xE000 \<le> u" | "0x10000 \<le> u" by linarith
  then show ?thesis
  proof cases
    case 1
    with u show ?thesis by (simp add: encode_rune_def valid_utf8_ascii)
  next
    case 2
    then have "encode_rune u = [char_of (0xC0 + ?v), char_of (0x80 + u mod 64)]" by (simp add: encode_rune_def)
    moreover have "2 \<le> ?v" "?v < 32" using groups(1-3) 2 by linarith+
    ultimately show ?thesis using valid_utf8_2 [of ?v "u mod 64"] mod_range by simp
  next
    case 3
    then show ?thesis by (simp add: encode_rune_def)
  next
    case 4
    then have "encode_rune u = [char_of (0xE0 + ?x), char_of (0x80 + ?v mod 64), char_of (0x80 + u mod 64)]"
      by (auto simp: encode_rune_def div_groups(1))
    moreover have "0 \<le> ?x" "?x < 16" using groups 4 by linarith+
    moreover have "?x = 0 \<Longrightarrow> 32 \<le> ?v mod 64" "?x = 13 \<Longrightarrow> ?v mod 64 < 32" using groups(1-6) 4 by linarith+
    ultimately show ?thesis using valid_utf8_3 [of ?x "?v mod 64" "u mod 64"] mod_range by simp
  next
    case 5
    let ?y = "?x div 64"
    have e: "encode_rune u = [char_of (0xF0 + ?y), char_of (0x80 + ?x mod 64), char_of (0x80 + ?v mod 64),
        char_of (0x80 + u mod 64)]"
      using 5 by (simp add: encode_rune_def div_groups)
    have y: "0 \<le> ?y" "?y < 5" using groups u by linarith+
    have "?y = 0 \<Longrightarrow> 16 \<le> ?x mod 64" "?y = 4 \<Longrightarrow> ?x mod 64 < 16" using groups u 5 by linarith+
    from valid_utf8_4 [OF y mod_range [of ?x] mod_range [of ?v] mod_range [of u] this] show ?thesis unfolding e .
  qed
qed

subsection \<open>String literals\<close>

lemma hex_val_digit: "0 \<le> d \<Longrightarrow> d < 16 \<Longrightarrow> hex_val (hex_digit d) = Some d"
  by (cases "d < 10") (simp_all add: hex_val_def hex_digit_def Let_def)

lemma hex4_digits:
  assumes "0 \<le> p" "p < 16" "0 \<le> q" "q < 16" "0 \<le> x" "x < 16" "0 \<le> y" "y < 16"
  shows "hex4 (hex_digit p # hex_digit q # hex_digit x # hex_digit y # s) = Some (((p * 16 + q) * 16 + x) * 16 + y, s)"
  using assms by (simp add: hex_val_digit)

lemma hex_sum:
  fixes u :: int
  assumes "u = 16 * a + p" "a = 16 * b + q" "b = 16 * c + x"
  shows "((c * 16 + x) * 16 + q) * 16 + p = u"
  unfolding assms(1) unfolding assms(2) unfolding assms(3) by (simp add: algebra_simps)

lemma hex_top:
  fixes u :: int
  assumes "u = 16 * a + p" "a = 16 * b + q" "b = 16 * c + x" "0 \<le> u" "u < 65536"
    and "0 \<le> p" "p < 16" "0 \<le> q" "q < 16" "0 \<le> x" "x < 16"
  shows "c mod 16 = c"
  by (rule mod_pos_pos_trivial) (use assms in linarith)+

lemma hex_groups: "0 \<le> u mod 16" "u mod 16 < 16" "u = 16 * (u div 16) + u mod 16" for u :: int
  by simp_all

lemma hex4_escape:
  assumes "0 \<le> u" "u < 65536"
  shows "hex4 (drop 2 (u_escape u) @ s) = Some (u, s)"
proof -
  let ?a = "u div 16" and ?b = "u div 16 div 16" and ?c = "u div 16 div 16 div 16"
  have e: "u div 256 = ?b" "u div 4096 = ?c" by (simp_all add: div_mult2_eq [symmetric])
  note m = hex_groups(3) [of u] hex_groups(3) [of ?a] hex_groups(3) [of ?b]
  have c: "?c mod 16 = ?c"
    using hex_top [OF m assms hex_groups(1,2) [of u] hex_groups(1,2) [of ?a] hex_groups(1,2) [of ?b]] .
  have "drop 2 (u_escape u) @ s = hex_digit (?c mod 16) # hex_digit (?b mod 16) # hex_digit (?a mod 16)
      # hex_digit (u mod 16) # s"
    by (simp add: u_escape_def e)
  moreover note hex4_digits [OF hex_groups(1,2) [of ?c] hex_groups(1,2) [of ?b] hex_groups(1,2) [of ?a]
    hex_groups(1,2) [of u], of s]
  ultimately show ?thesis unfolding c hex_sum [OF m] by (simp only:)
qed

lemma scan_u_escape:
  assumes "0 \<le> u" "u < 65536" "u < 0xD800 \<or> 0xE000 \<le> u"
  shows "scan_str (u_escape u @ s) = prepend (encode_rune u) (scan_str s)"
proof -
  have e: "u_escape u @ s = CHR 0x5C # CHR ''u'' # drop 2 (u_escape u) @ s" by (simp add: u_escape_def)
  show ?thesis unfolding e using hex4_escape [OF assms(1,2), of s] assms(3) by (auto simp: scan_str.simps(2))
qed

lemma scan_enc_ascii:
  assumes "byte c < 128"
  shows "scan_str (enc_ascii c @ s) = prepend [c] (scan_str s)"
proof -
  have rune: "encode_rune (byte c) = [c]" using assms by (simp add: encode_rune_def)
  have u: "scan_str (u_escape (byte c) @ s) = prepend [c] (scan_str s)"
    using assms byte_range by (simp add: scan_u_escape rune)
  have plain: "c \<noteq> CHR 0x22 \<Longrightarrow> c \<noteq> CHR 0x5C \<Longrightarrow> \<not> byte c < 32 \<Longrightarrow> scan_str (c # s) = prepend [c] (scan_str s)"
    using assms by (simp add: scan_str.simps(2) utf8_size_ascii)
  let ?short = "[CHR 0x22, CHR 0x5C, CHR 0x08, CHR 0x0C, CHR 0x0A, CHR 0x0D, CHR 0x09]"
  let ?html = "byte c < 32 \<or> c = CHR ''<'' \<or> c = CHR ''>'' \<or> c = CHR ''&''"
  consider "c \<in> set ?short" | "c \<notin> set ?short" "?html" | "c \<notin> set ?short" "\<not> ?html" by blast
  then show ?thesis
  proof cases
    case 1
    then show ?thesis by (auto simp: enc_ascii_def scan_str.simps(2) simple_escape_def)
  next
    case 2
    then have "enc_ascii c = u_escape (byte c)" by (simp add: enc_ascii_def)
    with u show ?thesis by simp
  next
    case 3
    then have "enc_ascii c = [c]" by (simp add: enc_ascii_def)
    with plain 3 show ?thesis by simp
  qed
qed

lemma scan_str_rune:
  assumes "utf8_size (c # r) = Suc (Suc n)"
  shows "scan_str (c # take (Suc n) r @ s) = prepend (c # take (Suc n) r) (scan_str s)"
proof -
  have "utf8_size (c # take (Suc n) r @ s) = Suc (Suc n)" "Suc n \<le> length r"
    using utf8_size_prefix [OF assms, of s] utf8_size_length [OF assms] by simp_all
  moreover have "c \<noteq> CHR 0x22" "c \<noteq> CHR 0x5C" "\<not> byte c < 32" using utf8_size_more [OF assms] by auto
  ultimately show ?thesis by (simp add: scan_str.simps(2))
qed

lemma scan_enc_rune:
  assumes "utf8_size (c # r) = Suc n"
  shows "scan_str ((if n = 0 then enc_ascii c
       else if c # take n r = [CHR 0xE2, CHR 0x80, CHR 0xA8] then u_escape 0x2028
       else if c # take n r = [CHR 0xE2, CHR 0x80, CHR 0xA9] then u_escape 0x2029
       else c # take n r) @ s) = prepend (c # take n r) (scan_str s)"
proof (cases n)
  case 0
  with assms have "byte c < 128" using utf8_size_1 by simp
  with 0 scan_enc_ascii show ?thesis by simp
next
  case (Suc k)
  have "encode_rune 0x2028 = [CHR 0xE2, CHR 0x80, CHR 0xA8]" "encode_rune 0x2029 = [CHR 0xE2, CHR 0x80, CHR 0xA9]"
    by code_simp+
  with scan_u_escape [of 8232 s] scan_u_escape [of 8233 s]
  have "scan_str (u_escape 0x2028 @ s) = prepend [CHR 0xE2, CHR 0x80, CHR 0xA8] (scan_str s)"
    "scan_str (u_escape 0x2029 @ s) = prepend [CHR 0xE2, CHR 0x80, CHR 0xA9] (scan_str s)" by simp_all
  with Suc scan_str_rune [OF assms [unfolded Suc], of s] show ?thesis by simp
qed

lemma scan_enc_str: "valid_utf8 s \<Longrightarrow> scan_str (enc_str s @ CHR 0x22 # rest) = Some (s, rest)"
proof (induction s rule: valid_utf8.induct)
  case 1
  then show ?case by (simp add: scan_str.simps(2))
next
  case (2 c r)
  then obtain n where n: "utf8_size (c # r) = Suc n" and v: "valid_utf8 (drop n r)"
    by (auto simp: valid_utf8.simps(2) [of c r] split: nat.splits)
  with 2 have IH: "scan_str (enc_str (drop n r) @ CHR 0x22 # rest) = Some (drop n r, rest)" by simp
  have "enc_str (c # r) @ CHR 0x22 # rest = (if n = 0 then enc_ascii c
       else if c # take n r = [CHR 0xE2, CHR 0x80, CHR 0xA8] then u_escape 0x2028
       else if c # take n r = [CHR 0xE2, CHR 0x80, CHR 0xA9] then u_escape 0x2029
       else c # take n r) @ enc_str (drop n r) @ CHR 0x22 # rest"
    by (simp only: enc_str.simps(2) n nat.case append_assoc)
  then show ?case unfolding scan_enc_rune [OF n] IH by (simp only: scan_enc_rune [OF n] IH) (simp add: prepend_def)
qed

lemma hex4_bounds: "hex4 s = Some (u, r) \<Longrightarrow> 0 \<le> u \<and> u < 65536"
proof -
  have h: "hex_val c = Some d \<Longrightarrow> 0 \<le> d \<and> d < 16" for c d
    by (auto simp: hex_val_def Let_def split: if_splits)
  show "hex4 s = Some (u, r) \<Longrightarrow> ?thesis"
    by (induction s rule: hex4.induct) (auto split: option.splits dest!: h)
qed

lemma surrogate_pair_bounds: "surrogate_pair u s = Some (v, r) \<Longrightarrow> 0 \<le> v \<and> v \<le> 0x10FFFF"
  by (auto simp: surrogate_pair_def split: list.splits if_splits option.splits)

lemma simple_escape_ascii: "simple_escape e = Some d \<Longrightarrow> byte d < 128"
  by (auto simp: simple_escape_def split: if_splits)

lemma scan_str_valid: "scan_str s = Some (b, r) \<Longrightarrow> valid_utf8 b"
proof (induction s arbitrary: b r rule: length_induct)
  case (1 s)
  then have IH: "length t < length s \<Longrightarrow> scan_str t = Some (d, q) \<Longrightarrow> valid_utf8 d" for t d q by blast
  have pre: "valid_utf8 p \<Longrightarrow> length t < length s \<Longrightarrow> prepend p (scan_str t) = Some (b, r) \<Longrightarrow> valid_utf8 b" for p t
    by (auto simp: prepend_Some dest: IH intro: valid_utf8_append)
  show ?case
  proof (cases s)
    case Nil
    with "1.prems" show ?thesis by simp
  next
    case (Cons c q)
    have esc: "simple_escape e = Some d \<Longrightarrow> valid_utf8 [d]" for e d
      using simple_escape_ascii valid_utf8_ascii by fastforce
    have run: "valid_utf8 (c # take n q)" if "utf8_size (c # q) = Suc n" for n
      using valid_utf8_rune [OF that, of "[]"] by simp
    have pre: "valid_utf8 b" if "prepend p (scan_str t) = Some (b, r)" "valid_utf8 p" "length t \<le> length q" for p t
      by (rule pre [OF that(2) _ that(1)]) (use that(3) Cons in simp)
    have hex: "valid_utf8 b" if e: "q = e # q1" and h: "hex4 q1 = Some (u, q2)"
      and d: "(if 0xD800 \<le> u \<and> u < 0xE000 then
                 (case surrogate_pair u q2 of
                    Some (v, q3) \<Rightarrow> prepend (encode_rune v) (scan_str q3)
                  | None \<Rightarrow> prepend ufffd (scan_str q2))
               else prepend (encode_rune u) (scan_str q2)) = Some (b, r)" for e q1 u q2
    proof -
      have l: "length q2 \<le> length q" "valid_utf8 (encode_rune u)"
        using hex4_bounds [OF h] hex4_length [OF h] e by (simp_all add: valid_utf8_encode_rune)
      show ?thesis
      proof (cases "0xD800 \<le> u \<and> u < 0xE000")
        case True
        show ?thesis
        proof (cases "surrogate_pair u q2")
          case None
          with d True pre [of ufffd q2] l show ?thesis by simp
        next
          case (Some vq)
          obtain v q3 where vq: "vq = (v, q3)" by fastforce
          have s: "surrogate_pair u q2 = Some (v, q3)" using Some vq by simp
          have "length q3 \<le> length q" using surrogate_pair_length [OF s] l(1) by linarith
          moreover have "valid_utf8 (encode_rune v)"
            using surrogate_pair_bounds [OF s] by (intro valid_utf8_encode_rune) simp_all
          ultimately show ?thesis using d True s pre [of "encode_rune v" q3] by simp
        qed
      next
        case False
        from d have "prepend (encode_rune u) (scan_str q2) = Some (b, r)" unfolding if_not_P [OF False] .
        with pre l show ?thesis by blast
      qed
    qed
    consider "c = CHR 0x22" | "c = CHR 0x5C" | "c \<noteq> CHR 0x22" "c \<noteq> CHR 0x5C" by blast
    then show ?thesis
    proof cases
      case 1
      with Cons "1.prems" show ?thesis by (simp add: scan_str.simps(2))
    next
      case 2
      with Cons "1.prems" obtain e q1 where q: "q = e # q1" by (cases q) (simp_all add: scan_str.simps(2))
      show ?thesis
      proof (cases "e = CHR ''u''")
        case True
        with 2 Cons "1.prems" q obtain u q2 where h: "hex4 q1 = Some (u, q2)"
          by (cases "hex4 q1") (auto simp: scan_str.simps(2))
        with 2 Cons "1.prems" q True hex [OF q h] show ?thesis by (simp add: scan_str.simps(2))
      next
        case False
        with 2 Cons "1.prems" q obtain d where d: "simple_escape e = Some d"
          by (cases "simple_escape e") (auto simp: scan_str.simps(2))
        with 2 Cons "1.prems" q False pre [of "[d]" q1] esc show ?thesis by (simp add: scan_str.simps(2))
      qed
    next
      case 3
      show ?thesis
      proof (cases "utf8_size (c # q)")
        case 0
        with 3 Cons "1.prems" pre [of ufffd q] show ?thesis by (simp add: scan_str.simps(2) split: if_splits)
      next
        case (Suc n)
        with 3 Cons "1.prems" pre [of "c # take n q" "drop n q"] run show ?thesis
          by (simp add: scan_str.simps(2) split: if_splits)
      qed
    qed
  qed
qed

end
