(* ===== verification/Json_Values.thy ===== *)
theory Json_Values
  imports Json_Roundtrip
begin

section \<open>Trees and values that survive the way out and in\<close>

subsection \<open>Number literals\<close>

text \<open>What may follow a number: nothing the scanner would take for a part of it.\<close>

definition stops :: "string \<Rightarrow> bool" where
  "stops s \<longleftrightarrow> s = [] \<or> \<not> is_digit (hd s) \<and> hd s \<notin> set ''.eE+-''"

lemma stops_Nil [simp]: "stops []"
  by (simp add: stops_def)

lemma stops_Cons: "stops (c # s) \<longleftrightarrow> \<not> is_digit c \<and> c \<notin> set ''.eE+-''"
  by (simp add: stops_def)

lemma stops_digits:
  "stops s \<Longrightarrow> takeWhile is_digit (p @ s) = takeWhile is_digit p"
  "stops s \<Longrightarrow> dropWhile is_digit (p @ s) = dropWhile is_digit p @ s"
  by (induction p; cases s; simp add: stops_def)+

lemma scan_sign_append: "p \<noteq> [] \<Longrightarrow> scan_sign p = (a, q) \<Longrightarrow> scan_sign (p @ s) = (a, q @ s)"
  by (cases p) (auto simp: scan_sign_def split: if_splits)

lemma scan_int_append: "stops s \<Longrightarrow> scan_int p = Some (a, q) \<Longrightarrow> scan_int (p @ s) = Some (a, q @ s)"
  using stops_digits [of s p] by (cases p) (auto simp: scan_int_def split: if_splits)

lemma scan_frac_append: "stops s \<Longrightarrow> scan_frac p = Some (a, q) \<Longrightarrow> scan_frac (p @ s) = Some (a, q @ s)"
  by (cases p; cases s) (auto simp: scan_frac_def stops_digits stops_Cons split: if_splits)

lemma scan_exp_append: "stops s \<Longrightarrow> scan_exp p = Some (a, q) \<Longrightarrow> scan_exp (p @ s) = Some (a, q @ s)"
proof (cases p)
  case Nil
  then show "stops s \<Longrightarrow> scan_exp p = Some (a, q) \<Longrightarrow> ?thesis"
    by (cases s) (auto simp: scan_exp_def stops_Cons)
next
  case (Cons c r)
  then show "stops s \<Longrightarrow> scan_exp p = Some (a, q) \<Longrightarrow> ?thesis"
    by (cases r) (auto simp: scan_exp_def stops_digits Let_def split: if_splits)
qed

lemma scan_num_append:
  assumes s: "stops s" and scan: "scan_num p = Some (a, q)"
  shows "scan_num (p @ s) = Some (a, q @ s)"
proof -
  obtain sg p1 where 1: "scan_sign p = (sg, p1)" by fastforce
  with scan obtain i p2 where 2: "scan_int p1 = Some (i, p2)"
    by (auto simp: scan_num_def split: option.splits)
  with 1 scan obtain f p3 where 3: "scan_frac p2 = Some (f, p3)"
    by (auto simp: scan_num_def split: option.splits)
  with 1 2 scan obtain x p4 where 4: "scan_exp p3 = Some (x, p4)" "a = sg @ i @ f @ x" "q = p4"
    by (auto simp: scan_num_def split: option.splits)
  have "p \<noteq> []" using 1 2 by (auto simp: scan_sign_def scan_int_def)
  with 1 2 3 4 s show ?thesis
    by (simp add: scan_num_def scan_sign_append scan_int_append scan_frac_append scan_exp_append)
qed

lemma scan_valid_number: "valid_number n \<Longrightarrow> stops s \<Longrightarrow> scan_num (n @ s) = Some (n, s)"
  using scan_num_append [of s n n "[]"] by (simp add: valid_number_def)

text \<open>A scanned number is a number literal.\<close>

lemma scan_int_valid: "scan_int p = Some (a, q) \<Longrightarrow> a \<noteq> [] \<and> is_digit (hd a)
    \<and> (\<forall>s. s = [] \<or> \<not> is_digit (hd s) \<longrightarrow> scan_int (a @ s) = Some (a, s))"
proof (cases p)
  case (Cons c r)
  assume scan: "scan_int p = Some (a, q)"
  show ?thesis
  proof (cases "c = CHR ''0''")
    case True
    with Cons scan show ?thesis by (auto simp: scan_int_def is_digit_def)
  next
    case False
    with Cons scan have c: "is_digit c" and a: "a = c # takeWhile is_digit r"
      by (auto simp: scan_int_def split: if_splits)
    have "takeWhile is_digit (takeWhile is_digit r @ s) = takeWhile is_digit r
        \<and> dropWhile is_digit (takeWhile is_digit r @ s) = s" if "s = [] \<or> \<not> is_digit (hd s)" for s
      using that by (cases s) (auto simp: takeWhile_append dropWhile_append dest: set_takeWhileD)
    with a c False show ?thesis by (simp add: scan_int_def)
  qed
qed (simp add: scan_int_def)

lemma digits_again:
  "s = [] \<or> \<not> is_digit (hd s) \<Longrightarrow> takeWhile is_digit (takeWhile is_digit r @ s) = takeWhile is_digit r"
  "s = [] \<or> \<not> is_digit (hd s) \<Longrightarrow> dropWhile is_digit (takeWhile is_digit r @ s) = s"
  by (cases s; auto simp: takeWhile_append dropWhile_append dest: set_takeWhileD)+

lemma scan_frac_valid: "scan_frac p = Some (a, q) \<Longrightarrow> (a = [] \<or> hd a = CHR ''.'')
    \<and> (\<forall>s. s = [] \<or> \<not> is_digit (hd s) \<and> hd s \<noteq> CHR ''.'' \<longrightarrow> scan_frac (a @ s) = Some (a, s))"
proof (cases p)
  case Nil
  then show "scan_frac p = Some (a, q) \<Longrightarrow> ?thesis" by (auto simp: scan_frac_def split: list.splits)
next
  case (Cons c r)
  assume scan: "scan_frac p = Some (a, q)"
  show ?thesis
  proof (cases "c = CHR ''.''")
    case True
    with Cons scan have a: "a = c # takeWhile is_digit r" and ne: "takeWhile is_digit r \<noteq> []"
      by (auto simp: scan_frac_def split: if_splits)
    with True show ?thesis by (auto simp: scan_frac_def digits_again dest: set_takeWhileD)
  next
    case False
    with Cons scan have "a = []" by (auto simp: scan_frac_def split: if_splits)
    then show ?thesis by (auto simp: scan_frac_def split: list.splits)
  qed
qed

lemma scan_exp_valid: "scan_exp p = Some (a, q) \<Longrightarrow> (a = [] \<or> hd a \<in> {CHR ''e'', CHR ''E''}) \<and> scan_exp a = Some (a, [])"
proof (cases p)
  case Nil
  then show "scan_exp p = Some (a, q) \<Longrightarrow> ?thesis" by (auto simp: scan_exp_def)
next
  case (Cons c r)
  assume scan: "scan_exp p = Some (a, q)"
  show ?thesis
  proof (cases "c = CHR ''e'' \<or> c = CHR ''E''")
    case True
    obtain sg r1 where r1: "(case r of d # r' \<Rightarrow>
        if d = CHR ''+'' \<or> d = CHR ''-'' then ([d], r') else ([], r) | [] \<Rightarrow> ([], [])) = (sg, r1)" by fastforce
    with True Cons scan have a: "a = c # sg @ takeWhile is_digit r1" and ne: "takeWhile is_digit r1 \<noteq> []"
      by (auto simp: scan_exp_def split: if_splits)
    obtain d ds where ds: "takeWhile is_digit r1 = d # ds" using ne by (cases "takeWhile is_digit r1") auto
    then have "is_digit d" by (metis list.set_intros(1) set_takeWhileD)
    then have d: "is_digit d" "d \<noteq> CHR ''+''" "d \<noteq> CHR ''-''" by (auto simp: is_digit_def)
    have "sg = [] \<or> sg = [CHR ''+''] \<or> sg = [CHR ''-'']" using r1 by (auto split: list.splits if_splits)
    with a ds d True digits_again [of "[]" r1] show ?thesis by (auto simp: scan_exp_def)
  next
    case False
    with Cons scan have "a = []" by (auto simp: scan_exp_def split: if_splits)
    then show ?thesis by (simp add: scan_exp_def)
  qed
qed

lemma scan_num_valid:
  assumes "scan_num p = Some (a, q)"
  shows "valid_number a"
proof -
  obtain sg p1 where 1: "scan_sign p = (sg, p1)" by fastforce
  with assms obtain i p2 where 2: "scan_int p1 = Some (i, p2)"
    by (auto simp: scan_num_def split: option.splits)
  with 1 assms obtain f p3 where 3: "scan_frac p2 = Some (f, p3)"
    by (auto simp: scan_num_def split: option.splits)
  with 1 2 assms obtain x p4 where 4: "scan_exp p3 = Some (x, p4)" and a: "a = sg @ i @ f @ x"
    by (auto simp: scan_num_def split: option.splits)
  note i = scan_int_valid [OF 2] and f = scan_frac_valid [OF 3] and x = scan_exp_valid [OF 4]
  have dot: "\<not> is_digit CHR ''.''" "\<not> is_digit CHR ''e''" "\<not> is_digit CHR ''E''" by (simp_all add: is_digit_def)
  have "hd i \<noteq> CHR ''-''" using i by (auto simp: is_digit_def)
  then have s1: "scan_sign (sg @ i @ f @ x) = (sg, i @ f @ x)"
    using 1 i by (cases p; cases i) (auto simp: scan_sign_def split: if_splits)
  have "f @ x = [] \<or> \<not> is_digit (hd (f @ x))" using f x dot by (cases f; cases x) auto
  with i have s2: "scan_int (i @ f @ x) = Some (i, f @ x)" by blast
  have "x = [] \<or> \<not> is_digit (hd x) \<and> hd x \<noteq> CHR ''.''" using x dot by auto
  with f have s3: "scan_frac (f @ x) = Some (f, x)" by blast
  show ?thesis by (simp add: valid_number_def scan_num_def a s1 s2 s3 x)
qed

lemma valid_number_start:
  assumes "valid_number n"
  obtains c r where "n = c # r" "is_digit c \<or> c = CHR ''-''"
proof -
  obtain sg p1 where 1: "scan_sign n = (sg, p1)" by fastforce
  with assms obtain i p2 where 2: "scan_int p1 = Some (i, p2)"
    by (auto simp: valid_number_def scan_num_def split: option.splits)
  from 2 obtain c r where "p1 = c # r" "is_digit c"
    by (cases p1) (auto simp: scan_int_def is_digit_def split: if_splits)
  with 1 that show thesis by (cases n) (auto simp: scan_sign_def split: if_splits)
qed

subsection \<open>Trees\<close>

text \<open>A tree the scanner makes of a text nested at most \<open>d\<close> deep.\<close>

fun wf_json :: "nat \<Rightarrow> json \<Rightarrow> bool" where
  "wf_json d JNull = True"
| "wf_json d (JBool b) = True"
| "wf_json d (JNum n) = valid_number n"
| "wf_json d (JStr s) = valid_utf8 s"
| "wf_json d (JArr js) = (0 < d \<and> (\<forall>j \<in> set js. wf_json (d - 1) j))"
| "wf_json d (JObj ms) = (0 < d \<and> (\<forall>(k, j) \<in> set ms. valid_utf8 k \<and> wf_json (d - 1) j))"

text \<open>No rendered value starts with white space or a closing bracket.\<close>

lemma render_start:
  assumes "wf_json d j"
  obtains c r where "render j = c # r" "\<not> is_ws c" "c \<noteq> CHR '']''" "c \<noteq> CHR ''}''"
proof (cases j)
  case (JNum n)
  with assms obtain c r where "n = c # r" "is_digit c \<or> c = CHR ''-''" by (auto elim: valid_number_start)
  moreover from this(2) have "\<not> is_ws c" "c \<noteq> CHR '']''" "c \<noteq> CHR ''}''" by (auto simp: is_ws_def is_digit_def)
  ultimately show thesis using JNum that by simp
next
  case (JBool b)
  with that show thesis by (cases b) (auto simp: is_ws_def)
qed (use that in \<open>auto simp: is_ws_def quote_def split: if_splits\<close>)

lemma skip_ws_render: "wf_json d j \<Longrightarrow> skip_ws (render j @ s) = render j @ s"
  by (auto elim: render_start)

lemma is_ws_simps [simp]:
  "\<not> is_ws CHR ''{''" "\<not> is_ws CHR ''}''" "\<not> is_ws CHR ''[''" "\<not> is_ws CHR '']''" "\<not> is_ws CHR '',''"
  "\<not> is_ws CHR '':''" "\<not> is_ws CHR 0x22" "\<not> is_ws CHR ''t''" "\<not> is_ws CHR ''f''" "\<not> is_ws CHR ''n''"
  by (simp_all add: is_ws_def)

lemma stops_brackets [simp]: "stops (CHR '']'' # s)" "stops (CHR ''}'' # s)" "stops (CHR '','' # s)"
  by (simp_all add: stops_def is_digit_def)

text \<open>A scalar value, and the closing bracket or the comma after an element.\<close>

lemma parse_str: "valid_utf8 s \<Longrightarrow> parse_value d (quote s @ x) = Some (JStr s, x)"
  by (simp add: parse_value.simps quote_def scan_enc_str)

lemma parse_num:
  assumes "valid_number n" "stops x"
  shows "parse_value d (n @ x) = Some (JNum n, x)"
proof -
  from assms(1) obtain c r where n: "n = c # r" and c: "is_digit c \<or> c = CHR ''-''"
    by (rule valid_number_start)
  from c have "\<not> is_ws c" "c \<notin> {CHR ''{'', CHR ''['', CHR 0x22, CHR ''t'', CHR ''f'', CHR ''n''}"
    by (auto simp: is_ws_def is_digit_def)
  with scan_valid_number [OF assms] show ?thesis by (simp add: parse_value.simps n)
qed

lemma parse_elems_one:
  "parse_value d s = Some (v, CHR '']'' # x) \<Longrightarrow> parse_elems d s = Some ([v], x)"
  by (subst parse_elems.simps) simp

lemma parse_elems_more:
  "parse_value d s = Some (v, CHR '','' # x) \<Longrightarrow> length x < length s \<Longrightarrow>
     parse_elems d x = Some (vs, y) \<Longrightarrow> parse_elems d s = Some (v # vs, y)"
  by (subst parse_elems.simps) simp

lemma parse_members_one:
  "valid_utf8 k \<Longrightarrow> parse_value d s = Some (v, CHR ''}'' # x) \<Longrightarrow>
     parse_members d (quote k @ '':'' @ s) = Some ([(k, v)], x)"
  by (subst parse_members.simps) (simp add: quote_def scan_enc_str)

lemma parse_members_more:
  "valid_utf8 k \<Longrightarrow> parse_value d s = Some (v, CHR '','' # x) \<Longrightarrow> length x < length s \<Longrightarrow>
     parse_members d x = Some (ms, y) \<Longrightarrow> parse_members d (quote k @ '':'' @ s) = Some ((k, v) # ms, y)"
  by (subst parse_members.simps) (simp add: quote_def scan_enc_str)

lemma parse_elems_render:
  assumes "js \<noteq> []" "\<And>j s. j \<in> set js \<Longrightarrow> stops s \<Longrightarrow> parse_value d (render j @ s) = Some (j, s)"
  shows "parse_elems d (join '','' (map render js) @ CHR '']'' # x) = Some (js, x)"
  using assms
proof (induction js)
  case (Cons j js)
  show ?case
  proof (cases js)
    case Nil
    with Cons.prems(2) [of j "CHR '']'' # x"] show ?thesis by (simp add: parse_elems_one)
  next
    case (Cons j' js')
    let ?rest = "join '','' (map render js) @ CHR '']'' # x"
    have "parse_value d (render j @ CHR '','' # ?rest) = Some (j, CHR '','' # ?rest)"
      using Cons.prems(2) by simp
    from parse_elems_more [OF this _ Cons.IH] Cons.prems Cons show ?thesis by simp
  qed
qed simp

lemma parse_members_render:
  assumes "ms \<noteq> []"
    and "\<And>k j s. (k, j) \<in> set ms \<Longrightarrow> stops s \<Longrightarrow> valid_utf8 k \<and> parse_value d (render j @ s) = Some (j, s)"
  shows "parse_members d (join '','' (map (\<lambda>(k, j). quote k @ '':'' @ render j) ms) @ CHR ''}'' # x) = Some (ms, x)"
  using assms
proof (induction ms)
  case (Cons m ms)
  obtain k j where m: "m = (k, j)" by fastforce
  show ?case
  proof (cases ms)
    case Nil
    with Cons.prems(2) [of k j "CHR ''}'' # x"] show ?thesis by (simp add: m parse_members_one [simplified])
  next
    case (Cons m' ms')
    let ?rest = "join '','' (map (\<lambda>(k, j). quote k @ '':'' @ render j) ms) @ CHR ''}'' # x"
    have k: "valid_utf8 k" and val: "parse_value d (render j @ CHR '','' # ?rest) = Some (j, CHR '','' # ?rest)"
      using Cons.prems(2) [of k j "CHR '','' # ?rest"] m by simp_all
    have rest: "parse_members d ?rest = Some (ms, x)"
      by (rule Cons.IH) (use Cons Cons.prems(2) in auto)
    from parse_members_more [OF k val _ rest] Cons show ?thesis by (simp add: m)
  qed
qed simp

lemma skip_ws_join:
  assumes "js \<noteq> []" "\<forall>j \<in> set js. wf_json d j"
  shows "\<exists>c r. skip_ws (join '','' (map render js) @ s) = c # r \<and> c \<noteq> CHR '']''"
proof -
  obtain j js' where js: "js = j # js'" using assms(1) by (cases js) auto
  with assms(2) have "wf_json d j" by simp
  then obtain c r where "render j = c # r" "\<not> is_ws c" "c \<noteq> CHR '']''" by (rule render_start)
  with js show ?thesis by (cases js') auto
qed

lemma parse_render: "wf_json d j \<Longrightarrow> stops s \<Longrightarrow> parse_value d (render j @ s) = Some (j, s)"
proof (induction j arbitrary: d s)
  case JNull
  then show ?case by (simp add: parse_value.simps scan_word_def)
next
  case (JBool b)
  then show ?case by (simp add: parse_value.simps scan_word_def)
next
  case (JNum n)
  then show ?case by (simp add: parse_num)
next
  case (JStr x)
  then show ?case by (simp add: parse_str)
next
  case (JArr js)
  then have d: "0 < d" and wf: "\<forall>j \<in> set js. wf_json (d - 1) j" by simp_all
  show ?case
  proof (cases "js = []")
    case True
    with d show ?thesis by (simp add: parse_value.simps)
  next
    case False
    have "parse_elems (d - 1) (join '','' (map render js) @ CHR '']'' # s) = Some (js, s)"
      by (rule parse_elems_render [OF False]) (use JArr.IH wf in blast)
    moreover obtain c r where "skip_ws (join '','' (map render js) @ CHR '']'' # s) = c # r" "c \<noteq> CHR '']''"
      using skip_ws_join [OF False wf] by blast
    ultimately show ?thesis using d by (subst parse_value.simps) simp
  qed
next
  case (JObj ms)
  then have d: "0 < d" and wf: "\<forall>(k, j) \<in> set ms. valid_utf8 k \<and> wf_json (d - 1) j" by simp_all
  let ?body = "join '','' (map (\<lambda>(k, j). quote k @ '':'' @ render j) ms) @ CHR ''}'' # s"
  show ?case
  proof (cases "ms = []")
    case True
    with d show ?thesis by (simp add: parse_value.simps)
  next
    case False
    have "parse_members (d - 1) ?body = Some (ms, s)"
      by (rule parse_members_render [OF False]) (use JObj.IH wf in fastforce)
    moreover obtain r where "skip_ws ?body = CHR 0x22 # r"
    proof -
      obtain k j ms' where "ms = (k, j) # ms'" using False by (cases ms) auto
      then show thesis using that by (cases ms') (auto simp: quote_def)
    qed
    ultimately show ?thesis using d by (subst parse_value.simps) simp
  qed
qed

text \<open>Conversely, what is scanned is such a tree.\<close>

lemma parse_wf:
  shows "parse_value d s = Some (j, r) \<Longrightarrow> wf_json d j"
    and "parse_elems d s = Some (js, r) \<Longrightarrow> \<forall>j \<in> set js. wf_json d j"
    and "parse_members d s = Some (ms, r) \<Longrightarrow> \<forall>(k, j) \<in> set ms. valid_utf8 k \<and> wf_json d j"
proof (induction d s and d s and d s arbitrary: j r and js r and ms r
    rule: parse_value_parse_elems_parse_members.induct)
  case (1 d s)
  then obtain c q where s: "skip_ws s = c # q" by (subst (asm) parse_value.simps) (auto split: list.splits)
  consider "c = CHR ''{''" | "c = CHR ''[''" | "c \<noteq> CHR ''{''" "c \<noteq> CHR ''[''" by blast
  then show ?case
  proof cases
    case 1
    with "1.prems" s obtain c2 q2 where q: "0 < d" "skip_ws q = c2 # q2"
      by (subst (asm) parse_value.simps) (auto split: list.splits if_splits)
    from "1.IH"(1) [OF s 1 _ q(2)] "1.prems" s 1 q show ?thesis
      by (subst (asm) parse_value.simps) (auto split: if_splits)
  next
    case 2
    then have "c \<noteq> CHR ''{''" by simp
    with "1.prems" s 2 obtain c2 q2 where q: "0 < d" "skip_ws q = c2 # q2"
      by (subst (asm) parse_value.simps) (auto split: list.splits if_splits)
    from "1.IH"(2) [OF s \<open>c \<noteq> CHR ''{''\<close> 2 _ q(2)] "1.prems" s 2 q show ?thesis
      by (subst (asm) parse_value.simps) (auto split: if_splits)
  next
    case 3
    with "1.prems" s show ?thesis
      by (subst (asm) parse_value.simps)
        (auto split: if_splits simp: scan_word_def dest!: scan_str_valid scan_num_valid)
  qed
next
  case (2 d s)
  then obtain v q where v: "parse_value d s = Some (v, q)"
    by (subst (asm) parse_elems.simps) (auto split: option.splits)
  with "2.prems" obtain c q2 where c: "skip_ws q = c # q2"
    by (subst (asm) parse_elems.simps) (auto split: list.splits)
  note wf = "2.IH"(1) [OF v]
  show ?case
  proof (cases "c = CHR '']''")
    case True
    with "2.prems" v c wf show ?thesis by (subst (asm) parse_elems.simps) auto
  next
    case False
    with "2.prems" v c have comma: "c = CHR '','' \<and> length q2 < length s"
      by (subst (asm) parse_elems.simps) (auto split: if_splits)
    from "2.IH"(2) [OF v refl c False comma] "2.prems" v c False comma wf show ?thesis
      by (subst (asm) parse_elems.simps) auto
  qed
next
  case (3 d s)
  then obtain q where q: "skip_ws s = CHR 0x22 # q"
    by (subst (asm) parse_members.simps) (auto split: list.splits if_splits)
  with "3.prems" obtain k q1 where k: "scan_str q = Some (k, q1)"
    by (subst (asm) parse_members.simps) (auto split: option.splits)
  with "3.prems" q obtain q2 where q2: "skip_ws q1 = CHR '':'' # q2"
    by (subst (asm) parse_members.simps) (auto split: list.splits if_splits)
  with "3.prems" q k obtain v q3 where v: "parse_value d q2 = Some (v, q3)"
    by (subst (asm) parse_members.simps) (auto split: option.splits)
  with "3.prems" q k q2 obtain e q4 where e: "skip_ws q3 = e # q4"
    by (subst (asm) parse_members.simps) (auto split: list.splits)
  have wf: "wf_json d v" by (rule "3.IH"(1) [OF q _ k refl q2 _ v]) simp_all
  note valid = scan_str_valid [OF k]
  show ?case
  proof (cases "e = CHR ''}''")
    case True
    with "3.prems" q k q2 v e wf valid show ?thesis by (subst (asm) parse_members.simps) auto
  next
    case False
    with "3.prems" q k q2 v e have comma: "e = CHR '','' \<and> length q4 < length s"
      by (subst (asm) parse_members.simps) (auto split: if_splits)
    have "\<forall>(k, j) \<in> set ms'. valid_utf8 k \<and> wf_json d j" if "parse_members d q4 = Some (ms', r')" for ms' r'
      by (rule "3.IH"(2) [OF q _ k refl q2 _ v refl e False comma that]) simp_all
    with "3.prems" q k q2 v e False comma wf valid show ?thesis
      by (subst (asm) parse_members.simps) auto
  qed
qed

subsection \<open>Values\<close>

text \<open>
  The values a JSON text decodes to: numbers are literals, strings and keys are valid UTF-8, maps
  are in their canonical order, at most \<open>d\<close> levels deep.
\<close>

fun wire_val :: "nat \<Rightarrow> val \<Rightarrow> bool" where
  "wire_val d VNil = True"
| "wire_val d (VBool b) = True"
| "wire_val d (VNum n) = valid_number n"
| "wire_val d (VStr s) = valid_utf8 s"
| "wire_val d (VList vs) = (0 < d \<and> (\<forall>v \<in> set vs. wire_val (d - 1) v))"
| "wire_val d (VMap m) = (0 < d \<and> sorted_map m \<and> (\<forall>(k, v) \<in> set m. valid_utf8 k \<and> wire_val (d - 1) v))"
| "wire_val d v = False"

lemma set_map_put: "set (map_put k v m) \<subseteq> insert (k, v) (set m)"
  by (induction k v m rule: map_put.induct) auto

lemma set_map_of_pairs: "set (map_of_pairs ps) \<subseteq> set ps"
proof -
  have "set (foldl (\<lambda>m (k, v). map_put k v m) m ps) \<subseteq> set m \<union> set ps" for m :: "('a::linorder \<times> 'b) list"
  proof (induction ps arbitrary: m)
    case (Cons p ps)
    obtain k v where p: "p = (k, v)" by fastforce
    from Cons [of "map_put k v m"] set_map_put [of k v m] show ?case by (auto simp: p)
  qed simp
  from this [of "[]"] show ?thesis by (simp add: map_of_pairs_def)
qed

lemma wire_to_any: "wf_json d j \<Longrightarrow> wire_val d (to_any j)"
proof (induction j arbitrary: d)
  case (JObj ms)
  let ?ps = "map (\<lambda>(k, j). (k, to_any j)) ms"
  have "\<forall>(k, v) \<in> set ?ps. valid_utf8 k \<and> wire_val (d - 1) v" using JObj by fastforce
  with set_map_of_pairs [of ?ps] JObj.prems show ?case by auto
qed auto

lemma those_map: "(\<And>x. x \<in> set xs \<Longrightarrow> f x = Some (g x)) \<Longrightarrow> those (map f xs) = Some (map g xs)"
  by (induction xs) simp_all

lemma sort_key_sorted_map: "sorted_map m \<Longrightarrow> sort_key fst m = m"
  by (rule sort_key_id_if_sorted) (auto simp: sorted_map_def intro: strict_sorted_imp_sorted)

text \<open>Such a value is marshalled, to a tree of which the decoder makes the same value.\<close>

lemma marshal_wire:
  "wire_val d v \<Longrightarrow> \<exists>j. marshal fl v = Some j \<and> wf_json d j \<and> to_any j = v"
proof (induction v arbitrary: d)
  case (VNum n)
  then have "n \<noteq> []" by (auto elim: valid_number_start)
  with VNum show ?case by simp
next
  case (VList vs)
  then have "\<forall>v \<in> set vs. \<exists>j. marshal fl v = Some j \<and> wf_json (d - 1) j \<and> to_any j = v" by simp
  then obtain g where g: "\<forall>v \<in> set vs. marshal fl v = Some (g v) \<and> wf_json (d - 1) (g v) \<and> to_any (g v) = v" by metis
  then have "those (map (marshal fl) vs) = Some (map g vs)" by (intro those_map) simp
  with g VList.prems show ?case by (simp add: map_idI comp_def)
next
  case (VMap m)
  then have "\<forall>v \<in> snd ` set m. \<exists>j. marshal fl v = Some j \<and> wf_json (d - 1) j \<and> to_any j = v" by fastforce
  then obtain g where g: "\<forall>v \<in> snd ` set m. marshal fl v = Some (g v) \<and> wf_json (d - 1) (g v) \<and> to_any (g v) = v" by metis
  let ?ms = "map (\<lambda>(k, v). (k, g v)) m"
  have "those (map (\<lambda>(k, v). map_option (Pair k) (marshal fl v)) m) = Some ?ms"
    by (rule those_map) (use g in force)
  moreover have "map (\<lambda>(k, j). (k, to_any j)) ?ms = m" using g by (auto simp: comp_def split_beta intro!: map_idI)
  ultimately show ?case
    using VMap.prems g by (fastforce simp: sort_key_sorted_map)
qed auto

subsection \<open>Maps\<close>

definition wire_map :: "gomap option \<Rightarrow> bool" where
  "wire_map m \<longleftrightarrow> (case m of None \<Rightarrow> True | Some kv \<Rightarrow> wire_val max_nesting_depth (VMap kv))"

lemma decoded_wire: "Option.bind (parse_prefix s) to_map = Some m \<Longrightarrow> wire_map m"
proof -
  assume dec: "Option.bind (parse_prefix s) to_map = Some m"
  then obtain j r where j: "parse_value max_nesting_depth s = Some (j, r)" and m: "to_map j = Some m"
    by (auto simp: parse_prefix_def bind_eq_Some_conv split: option.splits if_splits)
  note wf = parse_wf(1) [OF j]
  show ?thesis
  proof (cases j)
    case (JObj ms)
    with m wire_to_any [OF wf] show ?thesis by (auto simp: wire_map_def)
  qed (use m in \<open>auto simp: wire_map_def\<close>)
qed

lemma marshal_map_wire:
  assumes "wire_map m"
  shows "\<exists>s. marshal_map fl m = Some s \<and> s \<noteq> [] \<and> Option.bind (parse_prefix s) to_map = Some m"
proof (cases m)
  case None
  have "parse_prefix ''null'' = Some JNull"
    by (simp add: parse_prefix_def parse_value.simps scan_word_def)
  with None show ?thesis by (simp add: marshal_map_def)
next
  case (Some kv)
  with assms have "wire_val max_nesting_depth (VMap kv)" by (simp add: wire_map_def)
  from marshal_wire [OF this, of fl] obtain j where
    j: "marshal fl (VMap kv) = Some j" "wf_json max_nesting_depth j" "to_any j = VMap kv" by blast
  from j(1) obtain ms where ms: "j = JObj ms" by auto
  from parse_render [OF j(2), of "[]"] have "parse_prefix (render j) = Some j"
    by (simp add: parse_prefix_def ms)
  moreover have "to_map j = Some (Some kv)" using j(3) ms by simp
  moreover have "render j \<noteq> []" using ms by simp
  moreover have "marshal_map fl m = Some (render j)"
    unfolding marshal_map_def Some by (simp only: option.case j(1) option.map)
  ultimately show ?thesis using Some by simp
qed

end
