(* ===== verification/Time_Roundtrip.thy ===== *)
theory Time_Roundtrip
  imports Go_Time
begin

section \<open>A formatted time is parsed\<close>

text \<open>
  The calendar of \<^verbatim>\<open>time.Time\<close> in both directions: the date of a day gives the day back, so
  that the RFC 3339 text of an instant whose year has four digits is parsed to the second it names.
\<close>

subsection \<open>Years\<close>

lemma year_start_cycles:
  assumes "0 \<le> c" "c \<le> 3" "0 \<le> q" "q \<le> 24" "0 \<le> a" "a \<le> 3"
  shows "year_start (400 * e + 100 * c + 4 * q + a + 1) = 146097 * e + 36524 * c + 1461 * q + 365 * a"
proof -
  have "(400 * e + 100 * c + 4 * q + a) div 4 = 100 * e + 25 * c + q"
    "(400 * e + 100 * c + 4 * q + a) div 100 = 4 * e + c"
    "(400 * e + 100 * c + 4 * q + a) div 400 = e" using assms by linarith+
  then show ?thesis by (simp add: year_start_def)
qed

lemma mod_full: "1 \<le> v \<Longrightarrow> v \<le> k \<Longrightarrow> v mod k = 0 \<longleftrightarrow> v = (k::int)"
  by (cases "v = k") auto

lemma leap_cycles:
  assumes "0 \<le> c" "c \<le> 3" "0 \<le> q" "q \<le> 24" "0 \<le> a" "a \<le> 3"
  shows "is_leap (400 * e + 100 * c + 4 * q + a + 1) \<longleftrightarrow> a = 3 \<and> (q \<noteq> 24 \<or> c = 3)"
proof -
  let ?y = "400 * e + 100 * c + 4 * q + a + 1"
  have e: "?y = (a + 1) + 4 * (100 * e + 25 * c + q)" "?y = (4 * q + a + 1) + 100 * (4 * e + c)"
    "?y = (100 * c + 4 * q + a + 1) + 400 * e" by simp_all
  have "?y mod 4 = (a + 1) mod 4" unfolding e(1) by (rule mod_mult_self2)
  moreover have "?y mod 100 = (4 * q + a + 1) mod 100" unfolding e(2) by (rule mod_mult_self2)
  moreover have "?y mod 400 = (100 * c + 4 * q + a + 1) mod 400" unfolding e(3) by (rule mod_mult_self2)
  moreover have "(a + 1) mod 4 = 0 \<longleftrightarrow> a + 1 = 4" by (rule mod_full) (use assms in linarith)+
  moreover have "(4 * q + a + 1) mod 100 = 0 \<longleftrightarrow> 4 * q + a + 1 = 100" by (rule mod_full) (use assms in linarith)+
  moreover have "(100 * c + 4 * q + a + 1) mod 400 = 0 \<longleftrightarrow> 100 * c + 4 * q + a + 1 = 400"
    by (rule mod_full) (use assms in linarith)+
  moreover have "4 * q + a + 1 = 100 \<longleftrightarrow> q = 24 \<and> a = 3" using assms by linarith
  moreover have "100 * c + 4 * q + a + 1 = 400 \<longleftrightarrow> c = 3 \<and> q = 24 \<and> a = 3" using assms by linarith
  ultimately show ?thesis by (auto simp: is_leap_def)
qed

definition year_length :: "int \<Rightarrow> int" where
  "year_length y = (if is_leap y then 366 else 365)"

lemma cycle_bound: "0 \<le> x \<Longrightarrow> x < 36525 \<Longrightarrow> 0 \<le> x div 1461 \<and> x div 1461 \<le> (24::int)"
  by linarith

lemma day_rest:
  fixes x :: int
  assumes "0 \<le> x" "x < 1461"
  shows "0 \<le> x - min 3 (x div 365) * 365 \<and> x - min 3 (x div 365) * 365 \<le> 365
    \<and> (min 3 (x div 365) \<noteq> 3 \<longrightarrow> x - min 3 (x div 365) * 365 < 365)"
  using assms by (auto simp: min_def)

lemma century_rest:
  fixes x :: int
  assumes "0 \<le> x" "x < 146097"
  shows "0 \<le> x - min 3 (x div 36524) * 36524 \<and> x - min 3 (x div 36524) * 36524 < 36525
    \<and> (min 3 (x div 36524) \<noteq> 3 \<longrightarrow> x - min 3 (x div 36524) * 36524 < 36524)"
  using assms by (auto simp: min_def)

lemma civil_year_bounds:
  "year_start (civil_year n) \<le> n \<and> n < year_start (civil_year n) + year_length (civil_year n)"
proof -
  define e where "e = n div 146097"
  define r where "r = n mod 146097"
  define c where "c = min 3 (r div 36524)"
  define r1 where "r1 = r - c * 36524"
  define q where "q = r1 div 1461"
  define r2 where "r2 = r1 mod 1461"
  define a where "a = min 3 (r2 div 365)"
  have r: "0 \<le> r" "r < 146097" and n: "n = e * 146097 + r" by (simp_all add: r_def e_def)
  have c: "0 \<le> c" "c \<le> 3" using r(1) by (simp_all add: c_def)
  have r1: "0 \<le> r1" "r1 < 36525" "c \<noteq> 3 \<Longrightarrow> r1 < 36524"
    using century_rest [OF r] unfolding r1_def c_def by blast+
  have q: "0 \<le> q" "q \<le> 24" using cycle_bound [OF r1(1,2)] unfolding q_def by blast+
  have r2: "0 \<le> r2" "r2 < 1461" "r1 = q * 1461 + r2" by (simp_all add: r2_def q_def)
  have a: "0 \<le> a" "a \<le> 3" using r2(1) by (simp_all add: a_def)
  have rest: "0 \<le> r2 - a * 365" "r2 - a * 365 \<le> 365" "a \<noteq> 3 \<Longrightarrow> r2 - a * 365 < 365"
    using day_rest [OF r2(1,2)] unfolding a_def by blast+
  have y: "civil_year n = 400 * e + 100 * c + 4 * q + a + 1"
    unfolding civil_year_def Let_def e_def r_def c_def r1_def q_def r2_def a_def ..
  have s: "year_start (civil_year n) = 146097 * e + 36524 * c + 1461 * q + 365 * a"
    unfolding y by (rule year_start_cycles [OF c q a])
  have "n - year_start (civil_year n) = r2 - a * 365" unfolding s using n r2(3) r1_def by linarith
  moreover have "is_leap (civil_year n) \<longleftrightarrow> a = 3 \<and> (q \<noteq> 24 \<or> c = 3)"
    unfolding y by (rule leap_cycles [OF c q a])
  moreover have "a = 3 \<Longrightarrow> q = 24 \<Longrightarrow> c \<noteq> 3 \<Longrightarrow> r2 - a * 365 < 365" using r1(3) r2(3) by linarith
  ultimately show ?thesis using rest
    by (cases "a = 3"; cases "q = 24"; cases "c = 3") (simp_all add: year_length_def)
qed

lemma year_start_mono: "y \<le> z \<Longrightarrow> year_start y \<le> year_start z"
proof -
  have sum: "p \<le> p' \<Longrightarrow> q' \<le> q + 1 \<Longrightarrow> r \<le> (r'::int) \<Longrightarrow> 365 * x + p - q + r \<le> 365 * (x + 1) + p' - q' + r'"
    for p p' q q' r r' x by arith
  have "year_start (x + 1) \<le> year_start (x + 1 + 1)" for x
  proof -
    have "year_start (x + 1) = 365 * x + x div 4 - x div 100 + x div 400"
      "year_start (x + 1 + 1) = 365 * (x + 1) + (x + 1) div 4 - (x + 1) div 100 + (x + 1) div 400"
      by (simp_all add: year_start_def add.commute)
    moreover have "x div 4 \<le> (x + 1) div 4" "(x + 1) div 100 \<le> x div 100 + 1" "x div 400 \<le> (x + 1) div 400"
      by linarith+
    ultimately show ?thesis using sum by simp
  qed
  from this [of "y - 1" for y] have "year_start y \<le> year_start (y + 1)" for y by simp
  note next_year = this
  assume "y \<le> z"
  then show ?thesis
  proof (induction z rule: int_ge_induct)
    case (step k)
    from step.IH next_year [of k] show ?case by (rule order_trans)
  qed simp
qed

lemma civil_year_range: "year_start 0 \<le> n \<Longrightarrow> n < year_start 10000 \<Longrightarrow> 0 \<le> civil_year n \<and> civil_year n \<le> 9999"
proof -
  assume n: "year_start 0 \<le> n" "n < year_start 10000"
  have "\<not> 10000 \<le> civil_year n" using civil_year_bounds [of n] n year_start_mono [of 10000 "civil_year n"] by linarith
  moreover have "\<not> civil_year n \<le> - 2"
  proof
    assume "civil_year n \<le> - 2"
    then have "year_start (civil_year n) \<le> year_start (- 2)" by (rule year_start_mono)
    moreover have "year_start (- 2) + 366 \<le> year_start 0" by (simp add: year_start_def)
    moreover have "year_length (civil_year n) \<le> 366" by (simp add: year_length_def)
    ultimately show False using civil_year_bounds [of n] n by linarith
  qed
  moreover have "civil_year n \<noteq> - 1"
  proof
    assume y: "civil_year n = - 1"
    have "year_start (- 1) + year_length (- 1) = year_start 0"
      by (simp add: year_start_def year_length_def is_leap_def)
    with civil_year_bounds [of n] n y show False by simp
  qed
  ultimately show ?thesis by linarith
qed

subsection \<open>Months and days\<close>

lemma civil_month_bounds:
  assumes "0 \<le> yd" "yd < (if leap then 366 else 365)"
  shows "1 \<le> civil_month leap yd \<and> civil_month leap yd \<le> 12
    \<and> month_start leap (civil_month leap yd - 1) \<le> yd \<and> yd < month_start leap (civil_month leap yd)"
proof -
  let ?P = "\<lambda>k. month_start leap k \<le> yd" and ?n = "length (takeWhile (\<lambda>k. month_start leap k \<le> yd) [1..<12])"
  have m: "civil_month leap yd = ?n + 1" by (simp add: civil_month_def)
  have n: "?n \<le> 11" using length_takeWhile_le [of ?P "[1..<12]"] by simp
  have "month_start leap ?n \<le> yd"
  proof (cases ?n)
    case 0
    with assms(1) show ?thesis by (simp add: month_start_def month_starts_def)
  next
    case (Suc k)
    then have "takeWhile ?P [1..<12] ! k = Suc k" using n by (simp add: takeWhile_nth)
    moreover have "takeWhile ?P [1..<12] ! k \<in> set (takeWhile ?P [1..<12])" using Suc by (intro nth_mem) simp
    ultimately show ?thesis using Suc set_takeWhileD by metis
  qed
  moreover have "yd < month_start leap (?n + 1)"
  proof (cases "?n = 11")
    case True
    with assms(2) show ?thesis by (simp add: month_start_def month_starts_def split: if_splits)
  next
    case False
    with n nth_length_takeWhile [of ?P "[1..<12]"] show ?thesis by simp
  qed
  ultimately show ?thesis using n unfolding m by simp
qed

lemma civil_date_day:
  assumes "civil_date n = (y, m, d)"
  shows "unix_day y m d = n - 719162 \<and> 1 \<le> m \<and> m \<le> 12 \<and> 1 \<le> d \<and> d \<le> days_in y m \<and> d \<le> 31 \<and> y = civil_year n"
proof -
  let ?leap = "is_leap y" and ?yd = "n - year_start y"
  from assms have y: "y = civil_year n" and m: "m = int (civil_month ?leap ?yd)"
    and d: "d = ?yd - month_start ?leap (civil_month ?leap ?yd - 1) + 1"
    by (auto simp: civil_date_def Let_def)
  have "0 \<le> ?yd" "?yd < (if ?leap then 366 else 365)"
    using civil_year_bounds [of n] by (auto simp: y year_length_def split: if_splits)
  note b = civil_month_bounds [OF this]
  have n1: "nat (m - 1) = civil_month ?leap ?yd - 1" "nat m = civil_month ?leap ?yd" using b m by auto
  have in31: "month_start l k - month_start l (k - 1) \<le> 31" if "1 \<le> k" "k \<le> 12" for l k
  proof -
    have "k \<in> set [1..<13]" using that by simp
    moreover have "list_all (\<lambda>k. month_start l k - month_start l (k - 1) \<le> 31) [1..<13]"
      by (cases l) (simp_all add: month_start_def month_starts_def upt_conv_Cons)
    ultimately show ?thesis by (auto simp: list_all_iff)
  qed
  have days: "days_in y m = month_start ?leap (civil_month ?leap ?yd) - month_start ?leap (civil_month ?leap ?yd - 1)"
    by (simp add: days_in_def n1)
  have m12: "1 \<le> m" "m \<le> 12" using b m by simp_all
  have "month_start ?leap (civil_month ?leap ?yd) - month_start ?leap (civil_month ?leap ?yd - 1) \<le> 31"
    using b by (intro in31) simp_all
  with b have "unix_day y m d = n - 719162 \<and> 1 \<le> d \<and> d \<le> days_in y m \<and> d \<le> 31"
    unfolding d days unix_day_def n1 by linarith
  with m12 y show ?thesis by simp
qed

subsection \<open>Text\<close>

lemma num2_pad2: "0 \<le> n \<Longrightarrow> n < 100 \<Longrightarrow> num2 (pad2 n @ x) = Some (n, x)"
proof -
  assume n: "0 \<le> n" "n < 100"
  then have "n div 10 mod 10 = n div 10" by (intro mod_pos_pos_trivial) simp_all
  moreover have "0 \<le> n div 10" "n div 10 < 10" using n by simp_all
  ultimately show ?thesis by (simp add: num2_def pad2_def)
qed

lemma num12_pad2: "0 \<le> n \<Longrightarrow> n < 100 \<Longrightarrow> num12 (pad2 n @ x) = Some (n, x)"
proof -
  assume n: "0 \<le> n" "n < 100"
  then have "n div 10 mod 10 = n div 10" by (intro mod_pos_pos_trivial) simp_all
  moreover have "0 \<le> n div 10" "n div 10 < 10" using n by simp_all
  ultimately show ?thesis by (simp add: num12_def pad2_def)
qed

lemma pad4_digits:
  assumes "0 \<le> y" "y \<le> 9999"
  shows "pad4 y = pad2 (y div 100) @ pad2 (y mod 100)"
proof -
  have zero: "CHR ''0'' = char_of (48::int)" by code_simp
  have "y mod 100 = 10 * (y div 10 mod 10) + y mod 10" using zmod_zmult2_eq [of 10 y 10] by simp
  moreover have "(10 * p + y mod 10) mod 10 = y mod 10" "(10 * p + y mod 10) div 10 = p" for p by simp_all
  ultimately have "y mod 100 mod 10 = y mod 10" "y mod 100 div 10 = y div 10 mod 10" by metis+
  moreover have "y div 100 div 10 = y div 1000" "y div 10 div 10 = y div 100" "y div 10 div 10 div 10 = y div 1000"
    by (simp_all add: div_mult2_eq [symmetric])
  ultimately have m: "y mod 100 mod 10 = y mod 10" "y mod 100 div 10 mod 10 = y div 10 mod 10"
    "y div 100 div 10 = y div 1000" "y div 10 div 10 = y div 100" "y div 10 div 10 div 10 = y div 1000"
    by (simp_all only: mod_mod_trivial)
  note d = dec_nat.simps [of y] dec_nat.simps [of "y div 10"] dec_nat.simps [of "y div 100"] dec_nat.simps [of "y div 1000"]
  consider "y < 10" | "10 \<le> y" "y < 100" | "100 \<le> y" "y < 1000" | "1000 \<le> y" by linarith
  then show ?thesis
  proof cases
    case 1
    with assms show ?thesis by (simp add: pad4_def pad2_def d zero m numeral_eq_Suc)
  next
    case 2
    then have "dec_nat y = [char_of (48 + y div 10), char_of (48 + y mod 10)]" by (simp add: d)
    with 2 show ?thesis by (simp add: pad4_def pad2_def zero m numeral_eq_Suc)
  next
    case 3
    then have "\<not> y div 10 < 10" "y div 100 < 10" by linarith+
    with 3 have "dec_nat y = [char_of (48 + y div 100), char_of (48 + y div 10 mod 10), char_of (48 + y mod 10)]"
      by (simp add: d m)
    with 3 show ?thesis by (simp add: pad4_def pad2_def zero m numeral_eq_Suc)
  next
    case 4
    with assms have "\<not> y div 10 < 10" "\<not> y div 100 < 10" "y div 1000 < 10" by linarith+
    with 4 assms have "dec_nat y = [char_of (48 + y div 1000), char_of (48 + y div 100 mod 10),
        char_of (48 + y div 10 mod 10), char_of (48 + y mod 10)]"
      by (simp add: d m)
    with 4 assms show ?thesis by (simp add: pad4_def pad2_def zero m numeral_eq_Suc)
  qed
qed

lemma num4_pad4: "0 \<le> y \<Longrightarrow> y \<le> 9999 \<Longrightarrow> num4 (pad4 y @ x) = Some (y, x)"
proof -
  assume y: "0 \<le> y" "y \<le> 9999"
  have h: "0 \<le> y div 100" "y div 100 < 100" "0 \<le> y mod 100" "y mod 100 < 100" using y by simp_all
  have "num2 (pad2 (y div 100) @ pad2 (y mod 100) @ x) = Some (y div 100, pad2 (y mod 100) @ x)"
    by (rule num2_pad2 [OF h(1,2)])
  moreover have "num2 (pad2 (y mod 100) @ x) = Some (y mod 100, x)" by (rule num2_pad2 [OF h(3,4)])
  ultimately show ?thesis by (simp add: num4_def pad4_digits [OF y])
qed

lemma expect_eq [simp]: "expect c (c # s) = Some s"
  by (simp add: expect_def)

lemma guard_True [simp]: "guard_opt True = Some ()"
  by (simp add: guard_opt_def)

text \<open>The instants whose UTC year is one of 0000 to 9999.\<close>

definition four_digit_year :: "gotime \<Rightarrow> bool" where
  "four_digit_year t \<longleftrightarrow> - 62167219200 \<le> unix t \<and> unix t < 253402300800"

lemma day_split:
  fixes x :: int
  shows "0 \<le> x mod 86400 div 3600 \<and> x mod 86400 div 3600 < 24
    \<and> 0 \<le> x mod 86400 div 60 mod 60 \<and> x mod 86400 div 60 mod 60 < 60
    \<and> 0 \<le> x mod 86400 mod 60 \<and> x mod 86400 mod 60 < 60
    \<and> x div 86400 * 86400 + x mod 86400 div 3600 * 3600 + x mod 86400 div 60 mod 60 * 60 + x mod 86400 mod 60 = x"
proof -
  define r where "r = x mod 86400"
  define m where "m = r div 60"
  have r: "0 \<le> r" "r < 86400" "x = x div 86400 * 86400 + r" by (simp_all add: r_def)
  have "r div 3600 = m div 60" by (simp add: m_def div_mult2_eq [symmetric])
  moreover have "r = m * 60 + r mod 60" "m = m div 60 * 60 + m mod 60" by (simp_all add: m_def)
  moreover have "0 \<le> m" "m < 1440" using r by (simp_all add: m_def)
  then have "0 \<le> m div 60" "m div 60 < 24" by simp_all
  moreover have "x div 86400 * 86400 + m div 60 * 3600 + m mod 60 * 60 + r mod 60 = x"
    using r(3) calculation(2,3) by linarith
  ultimately show ?thesis using r unfolding r_def [symmetric] m_def [symmetric] by simp
qed

lemma parse_format:
  assumes "four_digit_year t"
  shows "parse_rfc3339 (format_rfc3339 t) = Some \<lparr>unix = unix t, nsec = 0, zone = 0\<rparr>"
proof -
  obtain y m d where c: "civil_date (unix t div 86400 + 719162) = (y, m, d)" by (metis prod_cases3)
  note date = civil_date_day [OF c]
  have "year_start 0 \<le> unix t div 86400 + 719162" "unix t div 86400 + 719162 < year_start 10000"
    using assms unfolding four_digit_year_def year_start_def by (simp_all, linarith+)
  from civil_year_range [OF this] date have y: "0 \<le> y" "y \<le> 9999" by simp_all
  define h mi s where "h = unix t mod 86400 div 3600" and "mi = unix t mod 86400 div 60 mod 60"
    and "s = unix t mod 86400 mod 60"
  note split = day_split [of "unix t", folded h_def mi_def s_def]
  have fmt: "format_rfc3339 t = pad4 y @ CHR ''-'' # pad2 m @ CHR ''-'' # pad2 d @ CHR ''T'' #
      pad2 h @ CHR '':'' # pad2 mi @ CHR '':'' # pad2 s @ ''Z''"
    by (simp add: format_rfc3339_def format_civil_def c h_def mi_def s_def Let_def)
  have "unix_day y m d * 86400 + h * 3600 + mi * 60 + s = unix t" using date split by linarith
  moreover have "1 \<le> m" "m \<le> 12" "1 \<le> d" "d \<le> days_in y m" "d < 100" using date by linarith+
  ultimately show ?thesis
    using y split unfolding fmt
    by (simp add: parse_rfc3339_def num4_pad4 num2_pad2 num12_pad2 scan_fraction_def scan_zone_def)
qed

end
