(* ===== verification/Relay.thy ===== *)
theory Relay
  imports Json_Values Time_Roundtrip Produce
begin

section \<open>From the producer to the next consumer\<close>

text \<open>
  What an emitted event is when another consumer has parsed it: the stages of a pipeline agree on
  the envelope. The fields \<open>Emit\<close> writes are read back by \<open>Parse\<close>, up to what the format cannot carry.
\<close>

subsection \<open>The fields of an envelope\<close>

text \<open>An event whose maps hold JSON values and whose time can be written, as every parsed one does.\<close>

definition wire_event :: "Event \<Rightarrow> bool" where
  "wire_event e \<longleftrightarrow> wire_map (Data e) \<and> wire_map (Old e) \<and> wire_map (Enrichment e)"

definition nonempty :: "gomap option \<Rightarrow> gomap option" where
  "nonempty m = (if m = Some [] then None else m)"

lemma put_map_wire:
  assumes "wire_map m" "sorted_map fs"
  shows "\<exists>s. put_map fl k m fs = Inr (map_put k (VStr s) fs) \<and> s \<noteq> [] \<and> json_map s = Some m"
  using marshal_map_wire [OF assms(1), of fl] by (auto simp: put_map_def json_map_def)

lemma str_field_put: "sorted_map fs \<Longrightarrow> str_field (map_put k (VStr s) fs) k' = (if k' = k then Some s else str_field fs k')"
  by (simp add: str_field_def)

text \<open>Adding an optional map: it is absent when empty, and otherwise decodes to itself.\<close>

lemma put_opt_map_wire:
  assumes "wire_map m" "sorted_map fs" "str_field fs k = None"
  shows "\<exists>fs'. put_opt_map fl k m fs = Inr fs' \<and> sorted_map fs'
    \<and> (\<forall>k'. k' \<noteq> k \<longrightarrow> str_field fs' k' = str_field fs k') \<and> opt_field_ok fs' k \<and> opt_map fs' k = nonempty m"
proof (cases "m = None \<or> m = Some []")
  case True
  then show ?thesis
    using assms by (auto simp: put_opt_map_def opt_field_ok_def opt_map_def nonempty_def)
next
  case False
  then have "put_opt_map fl k m fs = put_map fl k m fs"
    by (auto simp: put_opt_map_def split: option.splits)
  with put_map_wire [OF assms(1,2), of fl k] obtain s where
    "put_opt_map fl k m fs = Inr (map_put k (VStr s) fs)" "s \<noteq> []" "json_map s = Some m" by auto
  with False assms(2) show ?thesis
    by (auto simp: str_field_put opt_field_ok_def opt_map_def nonempty_def)
qed

lemma base_field:
  "str_field (base_fields iid e) k =
     (if k = ''op'' then Some (Op e) else if k = ''table'' then Some (Table e) else if k = ''schema'' then Some (Schema e)
      else if k = ''lsn'' then Some (LSN e) else if k = ''streamed_at'' then Some (format_rfc3339 (StreamedAt e))
      else if k = ''source'' then Some iid else None)"
  by (simp add: str_field_def base_fields_def map_of_pairs_lookup)

lemma sorted_base_fields: "sorted_map (base_fields iid e)"
  by (simp add: base_fields_def)

text \<open>
  C9. Relay round trip: an event whose maps hold JSON values, and whose time falls in a year of four digits, is
  emitted without an encoding error, and the consumer that parses the entry gets the same operation,
  table, schema, LSN and data, the instant in UTC at full seconds, the old row and the enrichment unless
  they are empty maps, which become nil, the new entry's id, and the emitting instance as its source.
\<close>

theorem emit_parse_roundtrip:
  assumes "wire_event e" "four_digit_year (StreamedAt e)"
  shows "\<exists>fs. envelope_fields fl iid e = Inr fs
    \<and> Parse eid fs = Inr (e\<lparr>ID := eid, StreamedAt := \<lparr>unix = unix (StreamedAt e), nsec = 0, zone = 0\<rparr>,
        Old := nonempty (Old e), Enrichment := nonempty (Enrichment e), Source := iid\<rparr>)"
proof -
  let ?b = "base_fields iid e"
  from assms(1) have wire: "wire_map (Data e)" "wire_map (Old e)" "wire_map (Enrichment e)"
    by (simp_all add: wire_event_def)
  from put_map_wire [OF wire(1) sorted_base_fields, of fl "''data''" iid e] obtain s where
    data: "put_map fl ''data'' (Data e) ?b = Inr (map_put ''data'' (VStr s) ?b)" "json_map s = Some (Data e)" by blast
  let ?f1 = "map_put ''data'' (VStr s) ?b"
  have s1: "sorted_map ?f1" and f1: "str_field ?f1 k = (if k = ''data'' then Some s else str_field ?b k)" for k
    using sorted_base_fields by (auto simp: str_field_put)
  from put_opt_map_wire [OF wire(2) s1, of "''old''" fl] obtain f2 where
    f2: "put_opt_map fl ''old'' (Old e) ?f1 = Inr f2" "sorted_map f2"
      "\<And>k. k \<noteq> ''old'' \<Longrightarrow> str_field f2 k = str_field ?f1 k" "opt_field_ok f2 ''old''" "opt_map f2 ''old'' = nonempty (Old e)"
    by (auto simp: f1 base_field)
  from put_opt_map_wire [OF wire(3) f2(2), of "''enrichment''" fl] obtain f3 where
    f3: "put_opt_map fl ''enrichment'' (Enrichment e) f2 = Inr f3"
      "\<And>k. k \<noteq> ''enrichment'' \<Longrightarrow> str_field f3 k = str_field f2 k"
      "opt_field_ok f3 ''enrichment''" "opt_map f3 ''enrichment'' = nonempty (Enrichment e)"
    by (auto simp: f2(3) f1 base_field)
  have old: "opt_field_ok f3 ''old''" "opt_map f3 ''old'' = nonempty (Old e)"
    using f2(4,5) f3(2) [of "''old''"] by (simp_all add: opt_field_ok_def opt_map_def)
  have get: "str_field f3 k = (if k = ''data'' then Some s else str_field ?b k)" if "k \<noteq> ''old''" "k \<noteq> ''enrichment''" for k
    using that by (simp add: f3(2) f2(3) f1)
  have "envelope_fields fl iid e = Inr f3" by (simp add: envelope_fields_def data(1) f2(1) f3(1))
  moreover have "Parse eid f3 = Inr (e\<lparr>ID := eid, StreamedAt := \<lparr>unix = unix (StreamedAt e), nsec = 0, zone = 0\<rparr>,
        Old := nonempty (Old e), Enrichment := nonempty (Enrichment e), Source := iid\<rparr>)"
    unfolding Parse_well_formed
    using parse_format [OF assms(2)]
    by (simp add: well_formed_envelope_def required_fields_def envelope_event_def get base_field data(2) f3(3,4) old)
  ultimately show ?thesis by blast
qed

subsection \<open>Every parsed event can be relayed\<close>

lemma json_map_wire: "json_map s = Some m \<Longrightarrow> wire_map m"
  unfolding json_map_def by (rule decoded_wire)

lemma opt_map_wire: "opt_field_ok v k \<Longrightarrow> wire_map (opt_map v k)"
  by (auto simp: opt_field_ok_def opt_map_def wire_map_def [of None] dest: json_map_wire split: option.splits)

lemma put_map_total: "wire_map m \<Longrightarrow> \<exists>fs'. put_map fl k m fs = Inr fs'"
  using marshal_map_wire [of m fl] by (auto simp: put_map_def)

lemma put_opt_map_total: "wire_map m \<Longrightarrow> \<exists>fs'. put_opt_map fl k m fs = Inr fs'"
  using put_map_total by (simp add: put_opt_map_def)

lemma parsed_wire: "Parse eid v = Inr e \<Longrightarrow> wire_event e"
  unfolding Parse_well_formed
  by (auto simp: well_formed_envelope_def required_fields_def envelope_event_def wire_event_def bind_eq_Some_conv
      intro: opt_map_wire json_map_wire)

lemma envelope_fields_total:
  assumes wire: "wire_event e"
  shows "\<exists>fs. envelope_fields fl iid e = Inr fs"
proof -
  from wire have maps: "wire_map (Data e)" "wire_map (Old e)" "wire_map (Enrichment e)" by (simp_all add: wire_event_def)
  obtain f1 where 1: "put_map fl ''data'' (Data e) (base_fields iid e) = Inr f1"
    using put_map_total [OF maps(1)] by blast
  obtain f2 where 2: "put_opt_map fl ''old'' (Old e) f1 = Inr f2" using put_opt_map_total [OF maps(2)] by blast
  obtain f3 where 3: "put_opt_map fl ''enrichment'' (Enrichment e) f2 = Inr f3"
    using put_opt_map_total [OF maps(3)] by blast
  from 1 2 3 show ?thesis by (simp add: envelope_fields_def)
qed

text \<open>
  C31. Whatever \<open>Parse\<close> returns holds JSON values in its maps: sorted keys, number literals, strings and keys of
  valid UTF-8, at most ten thousand levels. So a binding that emits what it consumed never
  fails to encode it, on any of its maps.
\<close>

theorem parsed_events_wire:
  assumes "Parse eid v = Inr e"
  shows "wire_event e \<and> (\<exists>fs. envelope_fields fl iid e = Inr fs)"
  using parsed_wire [OF assms] envelope_fields_total by blast

definition demo_event :: Event where
  "demo_event = \<lparr>ID = ''1-0'', Op = ''insert'', Table = ''users'', Schema = ''public'',
     LSN = ''0/16B6'', StreamedAt = \<lparr>unix = 1781258400, nsec = 0, zone = 0\<rparr>,
     Data = Some [(''id'', VNum ''9007199254740993''), (''name'', VStr ''Ada'')],
     Old = None, Enrichment = None, Source = []\<rparr>"

lemma demo_event_parsed: "Parse ''1-0'' demo_entry = Inr demo_event"
  using demo_entry_event by (simp add: demo_event_def)

theorem parsed_events_wire_witness: "\<exists>fs. envelope_fields (flops (world0 ())) ''i'' demo_event = Inr fs"
  using parsed_events_wire [OF demo_event_parsed] by blast

theorem emit_parse_roundtrip_witness:
  "\<exists>fs. envelope_fields (flops (world0 ())) ''i'' demo_event = Inr fs
     \<and> Parse ''7-0'' fs = Inr (demo_event\<lparr>ID := ''7-0'', Source := ''i''\<rparr>)"
proof -
  have "four_digit_year (StreamedAt demo_event)" by (simp add: demo_event_def four_digit_year_def)
  from emit_parse_roundtrip [OF parsed_wire [OF demo_event_parsed] this, of "flops (world0 ())" "''i''" "''7-0''"]
  show ?thesis by (simp add: demo_event_def nonempty_def)
qed

text \<open>
  The bound on the year is needed: \<open>Parse\<close> accepts the last hour of the year 9999 west of Greenwich, \<open>Emit\<close>
  writes it in UTC, with a year of five digits, and the next consumer refuses the entry, which is fatal.
\<close>

definition late_entry :: gomap where
  "late_entry = map_put ''streamed_at'' (VStr ''9999-12-31T23:30:00-01:00'') demo_entry"

lemma late_entry_refused:
  "case Parse ''1-0'' late_entry of
     Inl err \<Rightarrow> False
   | Inr e \<Rightarrow> (case envelope_fields (flops (world0 ())) ''i'' e of
       Inl err \<Rightarrow> False
     | Inr fs \<Rightarrow> str_field fs ''streamed_at'' = Some ''10000-01-01T00:30:00Z''
         \<and> (case Parse ''7-0'' fs of Inl err \<Rightarrow> True | Inr e' \<Rightarrow> False))"
  by code_simp

end
