(* ===== verification/Consumer_Liveness.thy ===== *)
theory Consumer_Liveness
  imports Consumer_System Consume_Progress Pipeline Relay
begin

section \<open>A consumer catches up\<close>

text \<open>
  Liveness of the whole of \<open>Run\<close>: when the service recovers and the server answers, a consumer works off what is
  pending for it and what it has not read, however much that is. The entries whose handler returns nil on
  the way are counted, so that nothing is worked off by being skipped.
\<close>

subsection \<open>The entries handled by a run\<close>











subsection \<open>A consumer in a world that recovers\<close>


subsection \<open>The bindings that forward to the internal service\<close>




















subsection \<open>Everything unread is handled\<close>















end
