(* ===== verification/Main_Program.thy ===== *)
theory Main_Program
  imports Handler_Frame Config_Valid Mini_Redis
begin

section \<open>cmd/dasher/main.go: starting the process\<close>

text \<open>
  \<^verbatim>\<open>main\<close> as the construction of its consumers: configuration, services, catalog, and one consumer per
  binding. An error is the end of the process with exit code 1. The consumers of earlier bindings
  already run when a later handler cannot be built; their steps are not part of the start. After
  the consumers have stopped the producer is closed, then the pool.
\<close>

definition main_options :: "Config \<Rightarrow> 's Option list" where
  "main_options cfg =
     [WithReclaimMinIdle (ReclaimMinIdle cfg), WithReclaimInterval (ReclaimInterval cfg),
      WithConsumerGCInterval (ConsumerGCInterval cfg), WithConsumerGCTimeout (ConsumerGCTimeout cfg),
      WithHeartbeatInterval (HeartbeatInterval cfg)]"

definition main_consumer :: "Config \<Rightarrow> InstanceContext \<Rightarrow> StreamBinding \<Rightarrow> 's world handler \<Rightarrow> 's Consumer" where
  "main_consumer cfg inst b h =
     New_Consumer (ResolveKey (sb_Stream b) (sb_Scope b) (InstanceID cfg)) (Group cfg) (Consumer cfg) h inst
       FailLoud_OnFatal (EscalateAfter cfg) (main_options cfg)"

fun main_consumers ::
  "'s redis \<Rightarrow> Config \<Rightarrow> InstanceContext \<Rightarrow> (string \<times> Lookup) list \<Rightarrow> StreamBinding list \<Rightarrow> 's Consumer list result" where
  "main_consumers r cfg inst catalog [] = Inr []"
| "main_consumers r cfg inst catalog (b # bs) =
     (case buildHandler b Default r (New_Producer (InstanceID cfg)) catalog of
        Inl e \<Rightarrow> Inl e
      | Inr h \<Rightarrow> and_then (main_consumers r cfg inst catalog bs) (\<lambda>cs. Inr (main_consumer cfg inst b h # cs)))"

definition main_start ::
  "host \<Rightarrow> pgx \<Rightarrow> 's redis \<Rightarrow> 's world \<Rightarrow> 's Consumer list result \<times> 's world" where
  "main_start hst px r w =
     (case Load hst of
        Inl e \<Rightarrow> (Inl e, w)
      | Inr cfg \<Rightarrow>
     (case New_Services px (h_env hst) (Instance cfg) of
        Inl e \<Rightarrow> (Inl e, w)
      | Inr svc \<Rightarrow>
     (case buildLookupCatalog DefaultRegistry (Instance cfg) svc w of
        (Inl e, w') \<Rightarrow> (Inl e, w')
      | (Inr catalog, w') \<Rightarrow>
          (main_consumers r cfg
             \<lparr>inst_ID = ic_ID (Instance cfg), inst_Config = Instance cfg, inst_Services = svc\<rparr>
             catalog (ic_Streams (Instance cfg)), w'))))"

subsection \<open>What a started consumer is\<close>

lemma main_consumer_fields [simp]:
  "c_stream (main_consumer cfg inst b h) = consume_key (InstanceID cfg) b"
  "c_group (main_consumer cfg inst b h) = Group cfg" "c_name (main_consumer cfg inst b h) = Consumer cfg"
  "c_handler (main_consumer cfg inst b h) = h" "c_policy (main_consumer cfg inst b h) = FailLoud_OnFatal"
  "c_escalateAfter (main_consumer cfg inst b h) = EscalateAfter cfg"
  "c_count (main_consumer cfg inst b h) = 10"
  "c_reclaimMinIdle (main_consumer cfg inst b h) = ReclaimMinIdle cfg"
  "c_reclaimInterval (main_consumer cfg inst b h) = ReclaimInterval cfg"
  "c_consumerGCInterval (main_consumer cfg inst b h) = ConsumerGCInterval cfg"
  "c_consumerGCTimeout (main_consumer cfg inst b h) = ConsumerGCTimeout cfg"
  "c_heartbeatInterval (main_consumer cfg inst b h)
     = (if HeartbeatInterval cfg \<le> 0 then quot2 (ReclaimMinIdle cfg) else HeartbeatInterval cfg)"
  by (simp_all add: main_consumer_def New_Consumer_def main_options_def option_defs Let_def
      consume_key_def ResolveKey_def scopeOrDefault_def)

lemma main_consumers_built:
  "main_consumers r cfg inst catalog bs = Inr cs \<Longrightarrow>
     list_all2 (\<lambda>b c. \<exists>h. buildHandler b Default r (New_Producer (InstanceID cfg)) catalog = Inr h
        \<and> c = main_consumer cfg inst b h) bs cs"
  by (induction bs arbitrary: cs) (auto split: sum.splits)

lemma main_startE:
  assumes "main_start hst px r w = (Inr cs, w')"
  obtains cfg inst catalog where "Load hst = Inr cfg"
    "list_all2 (\<lambda>b c. \<exists>h. buildHandler b Default r (New_Producer (InstanceID cfg)) catalog = Inr h
        \<and> c = main_consumer cfg inst b h) (ic_Streams (Instance cfg)) cs"
  using assms unfolding main_start_def
  by (auto split: sum.splits prod.splits dest!: main_consumers_built)

text \<open>
  C32. Every consumer the process starts reads the key its binding was validated with, in the group of the
  instance, under the policy that never swallows an error, with a handler built for its binding; it
  collects dead consumers later than it reclaims their entries, and its heartbeat fires at least
  twice per idle period that makes an entry reclaimable. One consumer is started per binding.
\<close>

theorem started_consumers:
  assumes "main_start hst px r w = (Inr cs, w')"
  shows "\<exists>cfg catalog. Load hst = Inr cfg \<and> list_all2 (\<lambda>b c.
      c_stream c = consume_key (InstanceID cfg) b \<and> c_group c = InstanceID cfg \<and> c_policy c = FailLoud_OnFatal
      \<and> buildHandler b Default r (New_Producer (InstanceID cfg)) catalog = Inr (c_handler c)
      \<and> c_reclaimMinIdle c < c_consumerGCTimeout c \<and> 2 * c_heartbeatInterval c \<le> c_reclaimMinIdle c)
    (ic_Streams (Instance cfg)) cs"
  using assms
proof (rule main_startE)
  fix cfg inst catalog
  assume load: "Load hst = Inr cfg"
    and cs: "list_all2 (\<lambda>b c. \<exists>h. buildHandler b Default r (New_Producer (InstanceID cfg)) catalog = Inr h
        \<and> c = main_consumer cfg inst b h) (ic_Streams (Instance cfg)) cs"
  note rel = load_relations [OF load]
  have "2 * quot2 (ReclaimMinIdle cfg) \<le> ReclaimMinIdle cfg" using rel by simp
  with cs rel load show ?thesis by (intro exI [of _ cfg] exI [of _ catalog]) (auto elim!: list_all2_mono)
qed

lemma list_all2_right: "list_all2 P xs ys \<Longrightarrow> y \<in> set ys \<Longrightarrow> \<exists>x \<in> set xs. P x y"
  by (induction rule: list_all2_induct) auto

text \<open>The two streams of the demo configuration, with a database that can be configured.\<close>

definition demo_pgx :: pgx where
  "demo_pgx = \<lparr>pgx_ParseConfig = (\<lambda>_. None), pgx_NewWithConfig = (\<lambda>_ _. None)\<rparr>"

lemma demo_start:
  "case main_start demo_host demo_pgx mini_redis (world0 mini0) of
     (Inr cs, w') \<Rightarrow> map c_stream cs = [''i1.cdc.grant'', ''enriched.grant''] | (Inl e, w') \<Rightarrow> False"
  by code_simp

theorem started_consumers_witness:
  "\<exists>cs w'. main_start demo_host demo_pgx mini_redis (world0 mini0) = (Inr cs, w')
     \<and> length cs = 2 \<and> (\<forall>c \<in> set cs. c_policy c = FailLoud_OnFatal)"
proof -
  obtain cs w' where run: "main_start demo_host demo_pgx mini_redis (world0 mini0) = (Inr cs, w')"
    and s: "map c_stream cs = [''i1.cdc.grant'', ''enriched.grant'']"
    using demo_start by (auto split: prod.splits sum.splits)
  have "length cs = length (map c_stream cs)" by simp
  with s have "length cs = 2" by simp
  moreover from started_consumers [OF run] have "\<forall>c \<in> set cs. c_policy c = FailLoud_OnFatal"
    by (auto dest!: list_all2_right)
  ultimately show ?thesis using run by blast
qed

text \<open>
  C33. The tickers of the background loops start exactly when the idle period has at least two nanoseconds.
  The configuration accepts a single nanosecond too: the heartbeat's interval is then half of it, which
  is zero, and \<^verbatim>\<open>time.NewTicker\<close> panics, as no check compares the derived interval with zero.
\<close>

theorem started_tickers:
  assumes "main_start hst px r w = (Inr cs, w')"
  shows "\<exists>cfg. Load hst = Inr cfg \<and> (\<forall>c \<in> set cs. tickers_start c \<longleftrightarrow> 2 \<le> ReclaimMinIdle cfg)"
  using assms
proof (rule main_startE)
  fix cfg inst catalog
  assume load: "Load hst = Inr cfg"
    and cs: "list_all2 (\<lambda>b c. \<exists>h. buildHandler b Default r (New_Producer (InstanceID cfg)) catalog = Inr h
        \<and> c = main_consumer cfg inst b h) (ic_Streams (Instance cfg)) cs"
  note rel = load_relations [OF load]
  have "tickers_start (main_consumer cfg inst b h) \<longleftrightarrow> 2 \<le> ReclaimMinIdle cfg" for b h
    using rel by (auto simp: tickers_start_def new_ticker_def)
  then have "\<forall>c \<in> set cs. tickers_start c \<longleftrightarrow> 2 \<le> ReclaimMinIdle cfg"
    using cs by (auto dest!: list_all2_right)
  with load show ?thesis by blast
qed

definition hasty_host :: host where
  "hasty_host = demo_host\<lparr>h_env := (\<lambda>name. if name = ''DASHER_RECLAIM_MIN_IDLE'' then ''1ns'' else demo_env name)\<rparr>"

lemma hasty_start:
  "case main_start hasty_host demo_pgx mini_redis (world0 mini0) of
     (Inr cs, w') \<Rightarrow> map c_stream cs = [''i1.cdc.grant'', ''enriched.grant''] | (Inl e, w') \<Rightarrow> False"
  by code_simp

lemma hasty_config: "case Load hasty_host of Inr cfg \<Rightarrow> ReclaimMinIdle cfg = 1 | Inl e \<Rightarrow> False"
  by code_simp

theorem started_tickers_witness:
  "\<exists>cs w'. main_start hasty_host demo_pgx mini_redis (world0 mini0) = (Inr cs, w')
     \<and> cs \<noteq> [] \<and> (\<forall>c \<in> set cs. \<not> tickers_start c)"
proof -
  obtain cs w' where run: "main_start hasty_host demo_pgx mini_redis (world0 mini0) = (Inr cs, w')"
    and s: "map c_stream cs = [''i1.cdc.grant'', ''enriched.grant'']"
    using hasty_start by (auto split: prod.splits sum.splits)
  from started_tickers [OF run] hasty_config have "\<forall>c \<in> set cs. \<not> tickers_start c" by auto
  moreover from s have "cs \<noteq> []" by auto
  ultimately show ?thesis using run by blast
qed

end
