(* ===== verification/Deployment.thy ===== *)
theory Deployment
  imports Consumer_System Main_Program
begin

section \<open>A deployment of the program\<close>

text \<open>
  Any number of processes started by \<open>main\<close>, each on a host of its own, whose consumers share the groups of a
  server: what the configuration, the wiring and the consumer guarantee together.
\<close>

subsection \<open>Processes that main has started\<close>

text \<open>\<open>c\<close> is one of the consumers that a successful start of the process on the host \<open>hst\<close> runs.\<close>

definition started_on :: "'s redis \<Rightarrow> host \<Rightarrow> 's Consumer \<Rightarrow> bool" where
  "started_on r hst c \<longleftrightarrow> (\<exists>px w procs w'. main_start hst px r w = (Inr procs, w') \<and> c \<in> set procs)"

lemma started_built:
  assumes "started_on r hst c"
  shows "(\<exists>b p catalog. buildHandler b Default r p catalog = Inr (c_handler c)) \<and> c_policy c = FailLoud_OnFatal"
proof -
  from assms obtain px w procs w' where start: "main_start hst px r w = (Inr procs, w')" and c: "c \<in> set procs"
    unfolding started_on_def by blast
  from start show ?thesis
  proof (rule main_startE)
    fix cfg inst catalog
    assume "list_all2 (\<lambda>b c. \<exists>h. buildHandler b Default r (New_Producer (InstanceID cfg)) catalog = Inr h
        \<and> c = main_consumer cfg inst b h) (ic_Streams (Instance cfg)) procs"
    from list_all2_right [OF this c] obtain b h where
      "buildHandler b Default r (New_Producer (InstanceID cfg)) catalog = Inr h" "c = main_consumer cfg inst b h" by blast
    then show ?thesis by (intro conjI exI) simp_all
  qed
qed

lemma started_wired: "started_on r hst c \<Longrightarrow> wired r c"
  by (rule built_wired) (use started_built in blast)+

text \<open>
  C2. Delivery in a deployment: whatever processes \<open>main\<close> has started, on whatever hosts with whatever
  configurations, in every interleaving of the single commands of their consumers and background loops, with
  crashes and restarts at any point, an entry that was pending at the beginning, or that a consumer has read
  since, is pending for some consumer of the group, or the handler of one has returned nil on it, or the deletion of
  a consumer by a collection dropped it; and no consumer ends without an error. A collection drops only
  entries that became pending for a consumer after its answer had shown this consumer idle for the configured
  time with nothing pending, and before it was deleted. The server keeps the documented laws, and others take
  nothing off the list. The call of a handler is one step: it sends at most one command to the server.
\<close>

theorem deployment_at_least_once:
  assumes "\<And>i. \<exists>hst. started_on r hst (cs i)" "\<And>i. delivery_laws r (cs i) owner"
    and "\<And>s s' mid. outside s s' \<Longrightarrow> owner s mid \<noteq> None \<Longrightarrow> owner s' mid \<noteq> None"
    and "system r cs owner outside s0 s ps dlv hnd raced lost"
  shows "(\<forall>mid. owner s0 mid \<noteq> None \<or> mid \<in> dlv \<longrightarrow> owner s mid \<noteq> None \<or> mid \<in> hnd \<or> mid \<in> lost) \<and> lost \<subseteq> raced
    \<and> (\<forall>i. main_pc (ps i) \<noteq> Ended None)"
proof -
  have "\<exists>b p catalog. buildHandler b Default r p catalog = Inr (c_handler (cs i))" "c_policy (cs i) = FailLoud_OnFatal" for i
    using assms(1) [of i] started_built by blast+
  from system_at_least_once [OF this assms(2-4)] show ?thesis .
qed

text \<open>
  C4. What the heartbeat sees: in every reachable state of a deployment, at any point of the consumer's goroutine and
  whatever the other loops, processes and crashes did, the entry in flight is the entry whose envelope the consumer
  has parsed and is handling, pausing on or acknowledging, and there is none outside of that: not before an
  entry is parsed, not after a malformed one, not after its acknowledgement, poison, panic or the end of the context.
\<close>

theorem heartbeat_sees_handled:
  assumes "\<And>i. \<exists>hst. started_on r hst (cs i)" "system r cs owner outside s0 s ps dlv hnd raced lost"
  shows "inFlight (memory (ps i)) = being_handled (main_pc (ps i))"
proof (rule system_flight [OF _ assms(2)])
  show "wired r (cs i)" for i using assms(1) [of i] started_wired by blast
qed

subsection \<open>Two pods\<close>

text \<open>
  Two hosts that differ in their name start the demo configuration. The first reads an entry and crashes before it
  has handled it; the second starts, and claims it with its background loop.
\<close>

definition pod_host :: "nat \<Rightarrow> host" where
  "pod_host i = demo_host\<lparr>h_hostname := Inr (if i = 0 then ''pod-1'' else ''pod-2'')\<rparr>"

definition pods :: "nat \<Rightarrow> mini Consumer" where
  "pods i = (case main_start (pod_host i) demo_pgx mini_redis (world0 mini0) of
     (Inr procs, w') \<Rightarrow> hd procs | (Inl e, w') \<Rightarrow> sync_consumer no_services)"

definition starts_as :: "host \<Rightarrow> string \<Rightarrow> bool" where
  "starts_as hst name \<longleftrightarrow> (case main_start hst demo_pgx mini_redis (world0 mini0) of
     (Inr procs, w') \<Rightarrow> procs \<noteq> [] \<and> c_count (hd procs) = 10 \<and> c_name (hd procs) = name
   | (Inl e, w') \<Rightarrow> False)"

lemma pods_start: "starts_as (pod_host i) (if i = 0 then ''pod-1'' else ''pod-2'')"
proof -
  have "starts_as (pod_host 0) ''pod-1''" "starts_as (pod_host 1) ''pod-2''" by code_simp+
  moreover have "i \<noteq> 0 \<Longrightarrow> pod_host i = pod_host 1" by (simp add: pod_host_def)
  ultimately show ?thesis by auto
qed

lemma pods_started: "started_on mini_redis (pod_host i) (pods i)"
  using pods_start [of i] unfolding started_on_def pods_def starts_as_def
  by (auto split: prod.splits sum.splits intro!: exI)

lemma pods_simps [simp]:
  "c_count (pods i) = 10" "c_name (pods i) = (if i = 0 then ''pod-1'' else ''pod-2'')"
  using pods_start [of i] unfolding pods_def starts_as_def by (auto split: prod.splits sum.splits)

definition new_entry :: mini where
  "new_entry = mini0\<lparr>m_entries := [demo_message]\<rparr>"

definition taken :: mini where
  "taken = new_entry\<lparr>m_delivered := 1, m_pel := [''1-0''], m_owner := (\<lambda>i. if i = ''1-0'' then ''pod-1'' else [])\<rparr>"

abbreviation pods_run :: "mini \<Rightarrow> mini processes \<Rightarrow> bool" where
  "pods_run s ps \<equiv> system mini_redis pods (\<lambda>s mid. mini_owner mid s) (\<lambda>_ _. False) new_entry s ps {''1-0''} {} {} {}"

text \<open>The first pod has read the entry; its goroutine is about to process it.\<close>

definition reader :: "mini pod" where
  "reader = (fresh_pod (world0 mini0))
     \<lparr>main_pc := Batch [demo_message] AfterRead, memory := (world0 taken)\<lparr>poll_n := 1\<rparr>\<rparr>"

definition idle_pod :: "mini pod" where
  "idle_pod = fresh_pod (world0 mini0)"

lemma not_raced: "(\<And>i. collector (ps i) = GC_Waits) \<Longrightarrow> raced_now cs owner ps s s' = {}"
  by (simp add: raced_now_def)

lemma pod_reads: "pods_run taken ((\<lambda>_. idle_pod)(0 := reader))"
proof -
  let ?sys = "\<lambda>s ps dlv. system mini_redis pods (\<lambda>s mid. mini_owner mid s) (\<lambda>_ _. False) new_entry s ps dlv {} {} {}"
  let ?at = "\<lambda>pc w. (\<lambda>_. idle_pod)(0 := idle_pod\<lparr>main_pc := pc, memory := w\<rparr>)"
  let ?w = "world0 new_entry"
  let ?w1 = "?w\<lparr>poll_n := 1\<rparr>"
  have "?sys new_entry (\<lambda>_. idle_pod) {}" by (rule system.boots) (auto simp: idle_pod_def)
  from system.runs [OF this, where i = 0 and pc' = LoopTop and w' = ?w]
  have "?sys new_entry (?at LoopTop ?w) {}"
    by (simp add: not_raced idle_pod_def fresh_pod_def ensureGroup_def on_server_eq mini_redis_def world0_def)
  from system.runs [OF this, where i = 0 and pc' = SelfPend and w' = ?w1]
  have "?sys new_entry (?at SelfPend ?w1) {}"
    by (simp add: not_raced idle_pod_def fresh_pod_def ctx_done_def world0_def)
  from system.runs [OF this, where i = 0 and pc' = Reading and w' = ?w1]
  have "?sys new_entry (?at Reading ?w1) {}"
    by (simp add: not_raced idle_pod_def fresh_pod_def on_server_eq mini_redis_def world0_def new_entry_def mini0_def mini_after_def)
  moreover have "run_step mini_redis (pods 0) (Reading, ?w1) = (Batch [demo_message] AfterRead, (world0 taken)\<lparr>poll_n := 1\<rparr>)"
    "delivered mini_redis (pods 0) Reading new_entry = {''1-0''}"
    by (simp_all add: on_server_eq mini_redis_def world0_def new_entry_def taken_def mini0_def Let_def demo_message_def cong: if_cong)
  ultimately have "?sys taken (?at (Batch [demo_message] AfterRead) ((world0 taken)\<lparr>poll_n := 1\<rparr>)) {''1-0''}"
    using system.runs [where i = 0 and r = mini_redis and cs = pods and s = new_entry and ps = "?at Reading ?w1"]
    by (fastforce simp: not_raced idle_pod_def fresh_pod_def world0_def)
  then show ?thesis by (simp add: reader_def idle_pod_def)
qed

theorem deployment_at_least_once_witness:
  "\<exists>s ps. pods_run s ps \<and> main_pc (ps 0) = Starting \<and> mini_owner ''1-0'' s = Some ''pod-2''"
proof -
  let ?sys = "\<lambda>s a w. pods_run s ((\<lambda>_. idle_pod)(1 := idle_pod\<lparr>claimer := a, memory := w\<rparr>))"
  let ?w = "world0 taken"
  let ?claimed = "taken\<lparr>m_owner := (\<lambda>i. if i = ''1-0'' then ''pod-2'' else [])\<rparr>"
  let ?page = "[\<lparr>xp_ID = ''1-0'', xp_Consumer = ''pod-1'', xp_Idle = c_reclaimMinIdle (pods 1)\<rparr>]"
  note idle = not_raced idle_pod_def fresh_pod_def world0_def
  from system.crashes [OF pod_reads, where i = 0 and w = "world0 mini0"]
  have "pods_run taken (\<lambda>_. idle_pod)" by (simp add: idle_pod_def fun_upd_idem)
  from system.reclaims [OF this, where i = 1 and a' = "Asking_Page ''-''" and w' = ?w]
  have "?sys taken (Asking_Page ''-'') ?w" by (simp add: idle)
  from system.reclaims [OF this, where i = 1 and a' = "Claiming_Page ?page" and w' = ?w]
  have "?sys taken (Claiming_Page ?page) ?w"
    by (simp add: idle on_server_eq mini_redis_def taken_def new_entry_def mini0_def mini_after_def)
  from system.reclaims [OF this, where i = 1 and a' = Reclaim_Waits and w' = "world0 ?claimed"]
  have run: "?sys ?claimed Reclaim_Waits (world0 ?claimed)"
    by (simp add: idle on_server_eq mini_redis_def taken_def new_entry_def mini0_def mini_claim_def Let_def
        toClaimIDs_def after_page_def cong: if_cong)
  from deployment_at_least_once [OF _ mini_delivery_laws _ run] pods_started
  have "mini_owner ''1-0'' ?claimed \<noteq> None" by blast
  then have "mini_owner ''1-0'' ?claimed = Some ''pod-2''" by (simp add: mini_owner_def split: if_splits)
  moreover have "main_pc (((\<lambda>_. idle_pod)(1 := idle_pod\<lparr>claimer := Reclaim_Waits, memory := world0 ?claimed\<rparr>)) 0) = Starting"
    by (simp add: idle_pod_def fresh_pod_def)
  ultimately show ?thesis using run by blast
qed

theorem heartbeat_sees_handled_witness:
  "\<exists>s ps evt. pods_run s ps \<and> main_pc (ps 0) = Busy demo_message (Handling evt initial_backoff 0) [] AfterRead
     \<and> inFlight (memory (ps 0)) = Some ''1-0''"
proof -
  let ?busy = "\<lambda>a w. (\<lambda>_. idle_pod)(0 := idle_pod\<lparr>main_pc := Busy demo_message a [] AfterRead, memory := w\<rparr>)"
  let ?w = "(world0 taken)\<lparr>poll_n := 1\<rparr>"
  note idle = not_raced reader_def idle_pod_def fresh_pod_def world0_def
  have mid: "msg_ID demo_message = ''1-0''" by (simp add: demo_message_def)
  obtain evt where parse: "Parse ''1-0'' (msg_Values demo_message) = Inr evt"
    by (simp add: demo_message_def demo_entry_event)
  from system.runs [OF pod_reads, where i = 0 and pc' = "Busy demo_message Fetched [] AfterRead" and w' = ?w]
  have "pods_run taken (?busy Fetched ?w)" by (simp add: idle)
  from system.runs [OF this, where i = 0 and pc' = "Busy demo_message (Handling evt initial_backoff 0) [] AfterRead"
      and w' = "?w\<lparr>inFlight := Some ''1-0''\<rparr>"]
  have run: "pods_run taken (?busy (Handling evt initial_backoff 0) (?w\<lparr>inFlight := Some ''1-0''\<rparr>))"
    by (simp add: idle parse mid)
  have flight: "inFlight (memory (?busy (Handling evt initial_backoff 0) (?w\<lparr>inFlight := Some ''1-0''\<rparr>) 0)) = Some ''1-0''"
    using heartbeat_sees_handled [OF _ run, of 0] pods_started by (auto simp: mid)
  show ?thesis
    by (rule exI, rule exI, rule exI [of _ evt], intro conjI, rule run) (simp, rule flight)
qed

end
