(* ===== verification/Startup.thy ===== *)
theory Startup
  imports Main_Program Consume_Safety
begin

section \<open>When the process starts, and how it ends\<close>

text \<open>
  What stands between a validated configuration and running consumers, and the exit code of the
  process. The catalog is built from the validated lookups, the handlers from the validated
  bindings, so that each error of the wiring is either excluded or named by a condition below.
\<close>

subsection \<open>The catalog\<close>

definition buildable :: "Services \<Rightarrow> LookupSpecRaw \<Rightarrow> bool" where
  "buildable svc raw \<longleftrightarrow> DB svc \<noteq> None \<and> raw_SQL raw \<noteq> []"

lemma build_lookup_iff:
  assumes "valid_lookup raw"
  shows "(\<exists>l. fst (build_lookup DefaultRegistry svc name raw w) = Inr l) \<longleftrightarrow> buildable svc raw"
proof -
  from assms have "raw_Type raw = ''sql''" "raw_TTL raw \<noteq> [] \<longrightarrow> parse_duration (raw_TTL raw) \<noteq> None"
    by (auto simp: valid_lookup_def)
  then show ?thesis
    by (auto simp: build_lookup_def DefaultRegistry_def Register_def TypeSQL_def sql_factory_def lookup_spec_def
        newSQLLookup_def buildable_def Let_def split: option.splits prod.splits sum.splits)
qed

lemma build_catalog_iff:
  assumes "\<forall>(name, raw) \<in> set specs. valid_lookup raw"
  shows "(\<exists>catalog. fst (build_catalog DefaultRegistry svc specs out w) = Inr catalog)
     \<longleftrightarrow> (\<forall>(name, raw) \<in> set specs. buildable svc raw)"
  using assms
proof (induction specs arbitrary: out w)
  case (Cons spec specs)
  obtain name raw where spec: "spec = (name, raw)" by fastforce
  with Cons.prems have v: "valid_lookup raw" by simp
  obtain res w1 where run: "build_lookup DefaultRegistry svc name raw w = (res, w1)" by fastforce
  with build_lookup_iff [OF v, of svc name w] have "(\<exists>l. res = Inr l) \<longleftrightarrow> buildable svc raw" by simp
  with Cons run spec show ?case by (cases res) simp_all
qed simp

lemma build_catalog_keys:
  "fst (build_catalog reg svc specs out w) = Inr catalog \<Longrightarrow> fst ` set catalog = fst ` set out \<union> fst ` set specs"
proof (induction specs arbitrary: out w)
  case (Cons spec specs)
  obtain name raw where spec: "spec = (name, raw)" by fastforce
  obtain res w1 where run: "build_lookup reg svc name raw w = (res, w1)" by fastforce
  with Cons spec show ?case by (cases res) auto
qed simp

subsection \<open>The handlers\<close>

definition known_handlers :: "string list" where
  "known_handlers = [''order-sync@v1'', ''order-sync@v2'', ''product-sync'', ''billing-sync'', ''gateway-sync'']"

lemma Default_known: "Default name \<noteq> None \<longleftrightarrow> name \<in> set known_handlers"
  by (simp add: Default_def known_handlers_def)

lemma build_rules_ok:
  "(\<exists>rs. build_rules catalog rules = Inr rs) \<longleftrightarrow> (\<forall>rule \<in> set rules. er_Lookup rule \<in> fst ` set catalog)"
proof (induction rules)
  case (Cons rule rules)
  show ?case
  proof (cases "map_of catalog (er_Lookup rule)")
    case None
    then have "er_Lookup rule \<notin> fst ` set catalog" by (simp add: map_of_eq_None_iff)
    with None show ?thesis by simp
  next
    case (Some l)
    then have "er_Lookup rule \<in> fst ` set catalog" by (auto dest: map_of_SomeD intro: rev_image_eqI)
    with Some Cons show ?thesis by simp
  qed
qed simp

definition handler_known :: "StreamBinding \<Rightarrow> bool" where
  "handler_known b \<longleftrightarrow> sb_Handler b = [] \<or> sb_Handler b \<in> set known_handlers"

lemma buildHandler_iff:
  assumes "\<forall>rule \<in> set (sb_Enrich b). er_Lookup rule \<in> fst ` set catalog"
  shows "(\<exists>h. buildHandler b Default r p catalog = Inr h) \<longleftrightarrow> handler_known b"
proof -
  from assms obtain rs where "build_rules catalog (sb_Enrich b) = Inr rs" using build_rules_ok by blast
  with Default_known [of "sb_Handler b"] show ?thesis
    by (auto simp: buildHandler_def handler_known_def Registry_Lookup_def Let_def split: option.splits)
qed

lemma main_consumers_iff:
  assumes "\<forall>b \<in> set bs. \<forall>rule \<in> set (sb_Enrich b). er_Lookup rule \<in> fst ` set catalog"
  shows "(\<exists>cs. main_consumers r cfg inst catalog bs = Inr cs) \<longleftrightarrow> (\<forall>b \<in> set bs. handler_known b)"
  using assms
proof (induction bs)
  case (Cons b bs)
  then have "(\<exists>h. buildHandler b Default r (New_Producer (InstanceID cfg)) catalog = Inr h) \<longleftrightarrow> handler_known b"
    by (intro buildHandler_iff) simp
  with Cons show ?case
    by (cases "buildHandler b Default r (New_Producer (InstanceID cfg)) catalog") auto
qed simp

text \<open>
  C23. With a configuration that loads and services that can be built, the process starts exactly when every
  lookup of the catalog has an SQL text, the pool of the database exists if there is any lookup, and every
  named handler is one of the registry: unknown lookups, types and durations are excluded by the
  validation, and these three conditions are not, so that they fail after it.
\<close>

theorem startup_iff:
  assumes "Load hst = Inr cfg" "New_Services px (h_env hst) (Instance cfg) = Inr svc"
  shows "(\<exists>cs w'. main_start hst px r w = (Inr cs, w')) \<longleftrightarrow>
     (\<forall>(name, raw) \<in> set (ic_Lookups (Instance cfg)). DB svc \<noteq> None \<and> raw_SQL raw \<noteq> [])
   \<and> (\<forall>b \<in> set (ic_Streams (Instance cfg)). sb_Handler b = [] \<or> sb_Handler b \<in> set known_handlers)"
proof -
  let ?inst = "Instance cfg"
  from load_relations [OF assms(1)] have valid: "validateInstance (h_env hst) ?inst = None" by simp
  then have lookups: "\<forall>(name, raw) \<in> set (ic_Lookups ?inst). valid_lookup raw"
    and rules: "\<forall>b \<in> set (ic_Streams ?inst). \<forall>rule \<in> set (sb_Enrich b). er_Lookup rule \<in> fst ` set (ic_Lookups ?inst)"
    unfolding validateInstance_None valid_binding_def valid_rule_def by (blast, auto)
  obtain res w1 where cat: "buildLookupCatalog DefaultRegistry ?inst svc w = (res, w1)" by fastforce
  with build_catalog_iff [OF lookups, of svc "[]" w]
  have built: "(\<exists>catalog. res = Inr catalog) \<longleftrightarrow> (\<forall>(name, raw) \<in> set (ic_Lookups ?inst). buildable svc raw)"
    by (simp add: buildLookupCatalog_def)
  show ?thesis
  proof (cases res)
    case (Inl e)
    with built show ?thesis by (simp add: main_start_def assms cat buildable_def)
  next
    case (Inr catalog)
    with cat build_catalog_keys [of DefaultRegistry svc "ic_Lookups ?inst" "[]" w catalog]
    have "fst ` set catalog = fst ` set (ic_Lookups ?inst)" by (simp add: buildLookupCatalog_def)
    with rules main_consumers_iff [of "ic_Streams ?inst" catalog r cfg] built Inr
    show ?thesis by (simp add: main_start_def assms cat buildable_def handler_known_def)
  qed
qed

theorem startup_iff_witness:
  "\<exists>svc. New_Services demo_pgx (h_env demo_host) (Instance demo_config) = Inr svc
     \<and> (\<exists>cs w'. main_start demo_host demo_pgx mini_redis (world0 mini0) = (Inr cs, w'))
     \<and> DB svc \<noteq> None"
proof -
  have "case New_Services demo_pgx (h_env demo_host) (Instance demo_config) of Inr svc \<Rightarrow> DB svc \<noteq> None | Inl e \<Rightarrow> False"
    by code_simp
  then obtain svc where svc: "New_Services demo_pgx (h_env demo_host) (Instance demo_config) = Inr svc"
    and db: "DB svc \<noteq> None" by (auto split: sum.splits)
  have "list_all (\<lambda>(name, raw). raw_SQL raw \<noteq> []) (ic_Lookups (Instance demo_config))
      \<and> list_all (\<lambda>b. sb_Handler b = [] \<or> sb_Handler b \<in> set known_handlers) (ic_Streams (Instance demo_config))"
    by code_simp
  with startup_iff [OF load_demo svc, of mini_redis "world0 mini0"] db
  have "\<exists>cs w'. main_start demo_host demo_pgx mini_redis (world0 mini0) = (Inr cs, w')"
    by (auto simp: list_all_iff)
  with svc db show ?thesis by blast
qed

subsection \<open>The end of the process\<close>

text \<open>
  After \<^verbatim>\<open>g.Wait\<close> the producer is closed, then the pool, whose package is the parameter \<open>close_pool\<close>; the
  exit code tells whether the group ended with an error. \<open>wait\<close> is the \<^verbatim>\<open>errgroup\<close>: from the results of
  its functions, in the order they return, it makes the first that is not nil.
\<close>

definition Services_Close :: "(pool \<Rightarrow> 's world \<Rightarrow> 's world) \<Rightarrow> Services \<Rightarrow> 's world \<Rightarrow> 's world" where
  "Services_Close close_pool svc w = (case DB svc of None \<Rightarrow> w | Some p \<Rightarrow> close_pool p w)"

definition main_exit ::
  "(error option list \<Rightarrow> error option) \<Rightarrow> (pool \<Rightarrow> 's world \<Rightarrow> 's world) \<Rightarrow> Services \<Rightarrow> error option list \<Rightarrow>
     's world \<Rightarrow> int \<times> 's world" where
  "main_exit wait close_pool svc results w =
     (let werr = wait results; w1 = Close w; w2 = Services_Close close_pool svc w1
      in (if werr \<noteq> None then 1 else 0, w2))"

text \<open>What the documentation of \<^verbatim>\<open>errgroup\<close> says of \<^verbatim>\<open>Wait\<close>.\<close>

definition waits_for_error :: "(error option list \<Rightarrow> error option) \<Rightarrow> bool" where
  "waits_for_error wait \<longleftrightarrow> (\<forall>rs. wait rs = Option.bind (List.find (\<lambda>e. e \<noteq> None) rs) (\<lambda>e. e))"

text \<open>
  C29. When all consumers of a process with at least one have returned, the exit code is 1, and nothing can be
  emitted any more. It is so after an orderly shutdown, too: a consumer returns the error of its context
  when that is done, and the process that was asked to stop and has drained its consumers
  reports a failure.
\<close>

theorem exit_code_one:
  assumes "waits_for_error wait" "\<And>p w. closed (close_pool p w) = closed w" "results \<noteq> []"
    and "\<forall>err \<in> set results. \<exists>c w w'. Run_Consumer r c w = Some (err, w')"
    and "main_exit wait close_pool svc results w0 = (code, w1)"
  shows "code = 1 \<and> (\<forall>rd p stream evt. \<exists>e. Emit rd p stream evt w1 = (Some e, w1))"
proof -
  from assms(4) have "\<forall>err \<in> set results. err \<noteq> None" using Run_Consumer_not_nil by blast
  with assms(1,3) have "wait results \<noteq> None"
    by (cases results) (auto simp: waits_for_error_def)
  moreover have "closed w1"
    using assms(2,5) by (auto simp: main_exit_def Services_Close_def Close_def Let_def split: option.splits)
  ultimately show ?thesis using assms(5) by (auto simp: main_exit_def Emit_def Let_def)
qed

definition first_error :: "error option list \<Rightarrow> error option" where
  "first_error rs = Option.bind (List.find (\<lambda>e. e \<noteq> None) rs) (\<lambda>e. e)"

text \<open>A consumer that was asked to stop: its context is done.\<close>

theorem exit_code_one_witness:
  "\<exists>w'. Run_Consumer mini_redis (sync_consumer no_services) stopped_world = Some (Some canceled, w')
     \<and> fst (main_exit first_error (\<lambda>p w. w) no_services [Some canceled] w') = 1"
proof -
  obtain w' where run: "Run_Consumer mini_redis (sync_consumer no_services) stopped_world = Some (Some canceled, w')"
    by (simp add: Run_Consumer_def ensureGroup_def mini_redis_def on_server_eq main_loop.simps ctx_done_def
        stopped_world_def)
  obtain code w1 where ex: "main_exit first_error (\<lambda>p w. w) no_services [Some canceled] w' = (code, w1)" by fastforce
  have "waits_for_error first_error" by (simp add: waits_for_error_def first_error_def)
  from exit_code_one [OF this _ _ _ ex, of mini_redis] run have "code = 1" by auto
  with ex run show ?thesis by auto
qed

end
