(* ===== verification/Forwarding.thy ===== *)
theory Forwarding
  imports Handlers Mini_Redis
begin

section \<open>Forwarding an event: tokens, requests, outcomes\<close>

text \<open>
  What the handlers and the clients of the services guarantee together: when the gateway logs in,
  which requests are sent, and how the answer to a request decides between success, retry and poison.
\<close>

subsection \<open>The gateway's token\<close>

text \<open>The cached token is the one its expiry was read from.\<close>

definition gw_ok :: "gw_state \<Rightarrow> bool" where
  "gw_ok st \<longleftrightarrow> tok st = [] \<or> jwtExpiry (tok st) = Inr (expiry st)"

lemma gw_ok_init [simp]: "gw_ok gw_init"
  by (simp add: gw_ok_def gw_init_def)

definition login_request :: "GatewayClient \<Rightarrow> http_request" where
  "login_request c = \<lparr>rq_method = ''POST'', rq_url = gc_authURL c,
     rq_headers = [(''Content-Type'', ''application/json'')], rq_body = login_body c\<rparr>"

text \<open>The cached token may be used: it is there and lives for more than a minute yet.\<close>

definition still_fresh :: "gw_state \<Rightarrow> int \<Rightarrow> bool" where
  "still_fresh st now \<longleftrightarrow> tok st \<noteq> [] \<and> now + 60 * 1000000000 < expiry st * 1000000000"

lemma authenticate_outcome:
  "case authenticate c st w of
     (Some e, st', w') \<Rightarrow> st' = st \<and> (w' = w \<or> w' = w\<lparr>http_log := http_log w @ [login_request c]\<rparr>)
   | (None, st', w') \<Rightarrow> tok st' \<noteq> [] \<and> jwtExpiry (tok st') = Inr (expiry st')
       \<and> w' = w\<lparr>http_log := http_log w @ [login_request c]\<rparr>
       \<and> (\<exists>code body. http_ans w (length (http_log w)) = Response code body \<and> 200 \<le> code \<and> code < 300)"
  by (auto simp: authenticate_def http_send_def login_request_def
      split: option.splits http_result.splits sum.splits if_splits)

text \<open>
  C30. The gateway client returns its cached token without any request exactly when the token lives for more
  than a minute yet, by the clock read at that moment; otherwise it logs in once. A login that fails,
  whatever the reason, leaves the cached token and its expiry as they were; one that succeeds, with a
  status of the 200s, replaces both, so that the expiry kept is always the one of the token kept.
\<close>

theorem gateway_token:
  assumes "gw_ok st" "getToken c st w = (r, st', w')"
  shows "gw_ok st' \<and>
    (if still_fresh st (ticks w (tick_n w))
     then r = Inr (tok st) \<and> st' = st \<and> http_log w' = http_log w
     else (case r of
         Inl e \<Rightarrow> st' = st \<and> (http_log w' = http_log w \<or> http_log w' = http_log w @ [login_request c])
       | Inr t \<Rightarrow> t = tok st' \<and> t \<noteq> [] \<and> http_log w' = http_log w @ [login_request c]
           \<and> (\<exists>code body. http_ans w (length (http_log w)) = Response code body \<and> 200 \<le> code \<and> code < 300)))"
proof (cases "still_fresh st (ticks w (tick_n w))")
  case True
  with assms show ?thesis by (auto simp: getToken_def still_fresh_def time_now_def)
next
  case False
  define w1 where "w1 = (if tok st \<noteq> [] then w\<lparr>tick_n := Suc (tick_n w)\<rparr> else w)"
  obtain err st2 w2 where auth: "authenticate c st w1 = (err, st2, w2)" using prod_cases3 by blast
  from False assms(2) auth have g: "(r, st', w') = (case err of Some e \<Rightarrow> (Inl e, st2, w2) | None \<Rightarrow> (Inr (tok st2), st2, w2))"
    by (auto simp: getToken_def still_fresh_def time_now_def w1_def split: option.splits if_splits)
  have "http_log w1 = http_log w" "http_ans w1 = http_ans w" by (simp_all add: w1_def)
  with authenticate_outcome [where c = c and st = st and w = w1] auth g False assms(1) show ?thesis
    by (auto simp: gw_ok_def split: option.splits)
qed

definition demo_gateway :: GatewayClient where
  "demo_gateway = \<lparr>gc_baseURL = ''http://gw'', gc_authURL = ''http://gw/api/auth/api_login/'',
     gc_appInstanceCode = ''app'', gc_apiKey = ''key''\<rparr>"

text \<open>A login answered with a token that expires at second 4102444800.\<close>

definition login_world :: "unit world" where
  "login_world = (world0 ())\<lparr>http_ans :=
     (\<lambda>_. Response 200 ''{\"access\":\"e30.eyJleHAiOjQxMDI0NDQ4MDB9.x\"}'')\<rparr>"

theorem gateway_token_witness:
  "\<exists>st' w'. getToken demo_gateway gw_init login_world = (Inr ''e30.eyJleHAiOjQxMDI0NDQ4MDB9.x'', st', w')
     \<and> gw_ok st' \<and> http_log w' = [login_request demo_gateway]"
proof -
  have "fst (getToken demo_gateway gw_init login_world) = Inr ''e30.eyJleHAiOjQxMDI0NDQ4MDB9.x''"
    by code_simp
  then obtain st' w' where run: "getToken demo_gateway gw_init login_world = (Inr ''e30.eyJleHAiOjQxMDI0NDQ4MDB9.x'', st', w')"
    by (metis prod.collapse)
  from gateway_token [OF gw_ok_init run] have "gw_ok st' \<and> http_log w' = [login_request demo_gateway]"
    by (simp add: still_fresh_def gw_init_def login_world_def world0_def)
  with run show ?thesis by blast
qed

subsection \<open>The handler's outcomes\<close>

text \<open>
  C18. Forwarding an event never panics. Without a configured service it succeeds and does nothing. With
  one, an event that cannot be encoded is poison and nothing is sent; a request that gets no
  answer is a transient error; an answer decides by its status alone: below 400 the event is
  done, from 500 on it is retried, and between them it is poison.
\<close>

theorem forward_outcome:
  "case Forward svc inst evt w of
     (Panicked p, w') \<Rightarrow> False
   | (Returned err, w') \<Rightarrow>
       (case selectClient inst svc of
          None \<Rightarrow> err = None \<and> w' = w
        | Some client \<Rightarrow>
            (case event_json (flops w) evt of
               None \<Rightarrow> w' = w \<and> (\<exists>e. err = Some e \<and> IsPoison e)
             | Some body \<Rightarrow>
                 (case client_Do client ''POST'' ''/events'' body w of
                    (Inl e, w1) \<Rightarrow> w' = w1 \<and> err = Some e \<and> \<not> IsPoison e
                  | (Inr (code, _), w1) \<Rightarrow> w' = w1 \<and>
                      (case err of None \<Rightarrow> code < 400 | Some e \<Rightarrow> 400 \<le> code \<and> (IsPoison e \<longleftrightarrow> code < 500)))))"
proof -
  obtain res w' where run: "Forward svc inst evt w = (res, w')" by fastforce
  show ?thesis
  proof (cases "selectClient inst svc")
    case None
    with run show ?thesis by (auto simp: Forward_def)
  next
    case (Some c)
    obtain err w2 where f: "forward_to (client_Do c) evt w = (err, w2)" by fastforce
    with Some have fw: "Forward svc inst evt w = (Returned err, w2)" by (simp add: Forward_def)
    show ?thesis
    proof (cases err)
      case None
      with client.forward_nil_iff [of c evt w w2] f fw Some show ?thesis by auto
    next
      case (Some e)
      with f have fe: "forward_to (client_Do c) evt w = (Some e, w2)" by simp
      from client.forward_poison_iff [OF this] fe show ?thesis
        by (auto simp: fw Some \<open>selectClient inst svc = Some c\<close> forward_to_def status_result_def
            split: option.splits prod.splits sum.splits if_splits)
    qed
  qed
qed

text \<open>Trimming takes off a run of the character and nothing more.\<close>

lemma takeWhile_replicate: "takeWhile (\<lambda>d. d = c) s = replicate (length (takeWhile (\<lambda>d. d = c) s)) c"
  by (induction s) simp_all

lemma trim_left_run: "\<exists>j. s = replicate j c @ trim_left c s"
proof -
  have "s = takeWhile (\<lambda>d. d = c) s @ trim_left c s" by (simp add: trim_left_def)
  with takeWhile_replicate [of c s] show ?thesis by metis
qed

lemma trim_left_hd: "take 1 (trim_left c s) \<noteq> [c]"
  unfolding trim_left_def by (induction s) auto

lemma trim_right_rev: "trim_right c s = rev (trim_left c (rev s))"
  by (simp add: trim_right_def trim_left_def)

lemma trim_right_run: "\<exists>i. s = trim_right c s @ replicate i c"
proof -
  obtain i where "rev s = replicate i c @ trim_left c (rev s)" using trim_left_run [of "rev s" c] by blast
  then have "rev (rev s) = rev (replicate i c @ trim_left c (rev s))" by simp
  then have "s = trim_right c s @ replicate i c" by (simp add: trim_right_rev del: rev_rev_ident) (simp)
  then show ?thesis ..
qed

lemma trim_right_last: "take 1 (rev (trim_right c s)) \<noteq> [c]"
  using trim_left_hd [of c "rev s"] by (simp add: trim_right_rev)

lemma join_url_parts:
  "\<exists>b p i j. join_url base path = b @ ''/'' @ p \<and> take 1 (rev b) \<noteq> ''/'' \<and> take 1 p \<noteq> ''/''
     \<and> base = b @ replicate i CHR ''/'' \<and> path = replicate j CHR ''/'' @ p"
proof -
  obtain i where "base = trim_right CHR ''/'' base @ replicate i CHR ''/''" using trim_right_run by blast
  moreover obtain j where "path = replicate j CHR ''/'' @ trim_left CHR ''/'' path" using trim_left_run by blast
  moreover note trim_right_last [of "CHR ''/''" base] trim_left_hd [of "CHR ''/''" path]
  ultimately show ?thesis unfolding join_url_def by blast
qed

text \<open>
  The request of the internal service: one \<^verbatim>\<open>POST\<close> to the path below the base URL, with exactly one
  slash between them however many the configuration has, carrying the bearer token and the body; it is sent
  exactly when the URL can be parsed.
\<close>

lemma internal_request:
  "(\<exists>b p i j. join_url (ic_baseURL c) path = b @ ''/'' @ p
      \<and> take 1 (rev b) \<noteq> ''/'' \<and> take 1 p \<noteq> ''/''
      \<and> ic_baseURL c = b @ replicate i CHR ''/'' \<and> path = replicate j CHR ''/'' @ p)
   \<and> http_log (snd (client_Do (DoInternal c) method path body w)) =
       (if url_error w (join_url (ic_baseURL c) path) = None
        then http_log w @ [\<lparr>rq_method = method, rq_url = join_url (ic_baseURL c) path,
               rq_headers = [(''Authorization'', ''Bearer '' @ ic_token c)], rq_body = body\<rparr>]
        else http_log w)"
  using join_url_parts [of "ic_baseURL c" path]
  by (auto simp: internal_Do_def internal_do_def do_request_def http_send_def bearer_def
      split: option.splits http_result.splits)

end
