(* ===== verification/Spec2Isabelle.thy ===== *)
theory Spec2Isabelle
  imports Config_Valid Lookup_TTL Lookup_Cached Lookup_Reuse Consume_Steps Consume_Progress Consume_Reclaim Consume_Heartbeat Background_Loops Consumer_System Consumer_Liveness Deployment Startup Forwarding Pipeline Relay
begin

text \<open>
  Dasher, a consumer of change events from Redis streams, as a functional model with its
  correctness properties. Paths are relative to \<^verbatim>\<open>src/dasher\<close>.

  The program. One process serves one instance. \<^verbatim>\<open>internal/config\<close> loads and validates the
  configuration of the instance; \<^verbatim>\<open>internal/services\<close> builds its HTTP clients and its database pool;
  \<^verbatim>\<open>cmd/dasher/main.go\<close> builds a catalog of lookups (\<^verbatim>\<open>internal/lookup\<close>) and, for each stream binding, a chain
  of handlers (\<^verbatim>\<open>internal/middleware\<close> around \<^verbatim>\<open>internal/handlers\<close>, named by \<^verbatim>\<open>internal/registry\<close>) and a
  consumer (\<^verbatim>\<open>internal/consume\<close>). A consumer reads entries of its stream in a consumer group, parses each
  (\<^verbatim>\<open>internal/event\<close>) to an event of the package \<^verbatim>\<open>dasher\<close>, has it enriched by lookups, forwarded to a service and
  emitted to another stream (\<^verbatim>\<open>internal/produce\<close>), acknowledges it on success, retries it with backoff on a
  transient error, and ends the process on poison. Three background loops of a consumer claim the entries
  of dead peers, delete dead consumers and keep the entry in flight from being claimed.

  Theories and code, from the bottom up.

  \<^item> \<open>Prelude\<close>: 64-bit integers, strings and decimal text as Go has them, shared lemmas and collections.
  \<^item> \<open>Go_Duration\<close>, \<open>Go_Time\<close>, \<open>Go_Json\<close>, \<open>Go_Value\<close>, \<open>Go_Error\<close>, \<open>Go_Float\<close>: what the sources use of the
    standard library: \<^verbatim>\<open>time.ParseDuration\<close>, RFC 3339 times, the scanner and the encoder of \<^verbatim>\<open>encoding/json\<close>, values of type
    \<^verbatim>\<open>any\<close>, wrapped errors with \<^verbatim>\<open>errors.Is\<close>, rounding to \<^verbatim>\<open>float64\<close>.
  \<^item> \<open>Environment\<close>, \<open>World\<close>, \<open>Redis\<close>: the state every operation passes on. Clock, random numbers, cancellation, HTTP
    answers and database answers are streams of replies; the commands of the Redis client are the parameter \<open>redis\<close>,
    functions on a server state of any type. \<open>World\<close> adds the program's own mutable objects: the caches by address, the
    gateway's token, the closed flag of the producer, the entry in flight and the record of retries.
  \<^item> \<open>Config\<close> (\<^verbatim>\<open>internal/config/config.go\<close>), \<open>Config_Valid\<close>: the records of the YAML file, \<open>Load\<close>, \<open>validateInstance\<close> and the
    depth-first search of \<open>detectEmitCycles\<close>; what they accept, stated declaratively.
  \<^item> \<open>Services\<close> (\<^verbatim>\<open>internal/services\<close>): the two clients, the expiry of a JWT, \<open>New_Services\<close>.
  \<^item> \<open>Dasher\<close> (\<^verbatim>\<open>dasher.go\<close>), \<open>Envelope\<close> (\<^verbatim>\<open>internal/event/event.go\<close>): events, handlers, poison and the error policy; \<open>Parse\<close>.
  \<^item> \<open>Lookup_Cache\<close> (\<^verbatim>\<open>internal/lookup/cache.go\<close>), \<open>Lookup\<close> (the other files of \<^verbatim>\<open>internal/lookup\<close>): the cache, binds, the two
    kinds of lookup, the registry, the runner. \<open>Lookup_Cache_Spec\<close> refines the cache to a list of entries, \<open>Lookup_TTL\<close> bounds
    the jittered lifetime, \<open>Lookup_Contract\<close> and \<open>Lookup_Cached\<close> say what a run and a cached lookup return,
    \<open>Lookup_Reuse\<close> how long a row is found again, and by which binds.
  \<^item> \<open>Produce\<close>, \<open>Handlers\<close>, \<open>Middleware\<close>, \<open>Wiring\<close> (\<^verbatim>\<open>internal/produce\<close>, \<^verbatim>\<open>internal/handlers\<close> and \<^verbatim>\<open>internal/registry\<close>,
    \<^verbatim>\<open>internal/middleware\<close>, the builders of \<^verbatim>\<open>cmd/dasher/main.go\<close>); \<open>Forwarding\<close>: tokens, requests and outcomes.
    \<open>Pipeline\<close> refines the nested handlers of a binding to three stages in sequence (enrichment, service, emit), from which the
    causes of poison are read off.
  \<^item> \<open>Consume\<close> (\<^verbatim>\<open>internal/consume/consume.go\<close>): the consumer with its options, \<open>process\<close>, both reclaims, the collection
    of dead consumers, the heartbeat and \<open>Run_Consumer\<close>. \<open>Consume_Process\<close> turns the loops into a relation, \<open>Handler_Frame\<close>
    says what the handlers leave alone, \<open>Consume_Safety\<close>, \<open>Consume_Group\<close> and \<open>Consume_Progress\<close> hold the guarantees,
    \<open>Consume_Reclaim\<close> shows that the reclaim from peers ends and takes over all that was idle,
    \<open>Consume_Heartbeat\<close> that the heartbeat keeps the entry in flight from it, with time as the server's clock, and
    \<open>Background_Loops\<close> holds the three loops with their tickers. \<open>Consume_Steps\<close> cuts \<open>process\<close> into steps of one
    command and says what a collection drops, \<open>Consumer_Machine\<close> does the same for all of \<open>Run\<close>, proved equal to
    \<open>Run_Consumer\<close>, and \<open>Background_Steps\<close> for the work of the background loops, whose ticks are
    the runs of these steps. \<open>Consumer_System\<close> puts any number of processes, each with its four goroutines, with
    crashes and restarts on one server and lets their single steps interleave in every way; what becomes of
    each entry, and which one is in flight, are invariants of it. \<open>Deployment\<close> states them of the processes \<open>main\<close> starts. \<open>Consumer_Liveness\<close> shows that
    \<open>Run\<close> of one consumer works off all that is pending and unread, when its service recovers and all entries can be handled.
  \<^item> \<open>Main_Program\<close>, \<open>Startup\<close> (\<open>main\<close>): the start of the process, when it succeeds, and its exit code.
  \<^item> \<open>Json_Roundtrip\<close>, \<open>Json_Values\<close>, \<open>Time_Roundtrip\<close>, \<open>Relay\<close>: an emitted event is the event the next consumer parses.
  \<^item> \<open>Mini_Redis\<close>: a concrete server for the witnesses.

  Modelling. A struct is a record, a fallible function returns a sum with the error on the left or an optional error,
  an error keeps its wrapped errors so that \<open>IsPoison\<close> and \<open>errors_is\<close> classify it as the code does. A handler
  returns its error or panics, and \<open>process\<close> recovers. A Go map with values is a sorted association list; where the code
  ranges over a map, the list is in the order of the range and the property holds for every order. Loops over lists are
  structural recursion; the search for cycles ends by a measure; the loops that wait for the world (\<open>ack_loop\<close>,
  \<open>handle_loop\<close>, \<open>selfReclaim\<close>, \<open>peer_loop\<close>, \<open>main_loop\<close>) are partial functions to an option, with no fuel:
  \<^term>\<open>None\<close> is a run that does not return, and the termination and liveness properties prove that there is a result. The
  only bound is the nesting depth of ten thousand levels of \<^verbatim>\<open>encoding/json\<close>, which is Go's own.

  Contracts between components are locales: the client of a service (\<open>http_doer\<close>), the producer, a lookup, the
  error policy, and what a consumer needs of its handler (\<open>quiet_handler\<close>, \<open>pending_keeper\<close>, \<open>adding_handler\<close>,
  \<open>recovering_handler\<close>), and what its liveness needs of the world (\<open>recovering_consumer\<close>). Each is interpreted on the definitions that model the code, and the properties of the
  consumer rest on these interpretations: an entry is acknowledged only after its handler succeeded, stays pending until
  then whatever happens in between, is retried on the documented schedule, is delivered when its service comes back, and
  does not keep the process from stopping. What Redis does is assumed where a property needs it, in the definitions
  \<open>pel_laws\<close>, \<open>group_laws\<close>, \<open>delivery_laws\<close>, \<open>reclaim_laws\<close> and \<open>steady_server\<close>, which \<open>Mini_Redis\<close> satisfies (the last one
  when emits go to a stream the group does not read), and \<open>idle_laws\<close>, which the server with a clock
  in \<open>Consume_Heartbeat\<close> does.

  What the proofs showed of the code. Two emitting bindings on one stream hide an emit cycle
  (\<open>duplicate_binding_hides_cycle\<close>); two binds may share a cache key (\<open>cache_key_collision\<close>); the collection of dead
  consumers drops the entry that a consumer has read since the answer showed it idle (\<open>collection_loses_entry\<close>), the
  only loss when the server keeps its documented laws (\<open>deployment_at_least_once\<close>); the smallest accepted idle period makes a ticker
  panic (\<open>started_tickers\<close>); an orderly shutdown has exit code 1 (\<open>exit_code_one\<close>); the validation leaves three errors to
  the start (\<open>startup_iff\<close>); a time in the last hours of the year 9999 cannot be relayed (\<open>late_entry_refused\<close>); the heartbeat covers only the
  entry in flight, so that the rest of a batch can be claimed by a peer while its consumer lives
  (\<open>heartbeat_protects_witness\<close>), and it takes back an entry a peer has claimed (\<open>heartbeat_takes_back\<close>).

  Not modelled. Logging, except the level and the pause of a retry. The text of errors of other packages. YAML decoding,
  the file system and the host name are parameters of \<open>Load\<close>, the database and its pool, parsing its DSN, the network and
  URL syntax of the clients. Reading and printing a \<^verbatim>\<open>float64\<close> are parameters too. Durations of waiting: a
  pause is a look at the context. Data races: the mutexes of the cache and of the gateway client make their operations
  single steps, and in \<open>Consumer_System\<close> the goroutines interleave between single commands of the server; a call of a handler is
  one step, which sends at most one command. Signal handling, the errgroup and the
  closing of the Redis client belong to other packages. Tests and the files they export are not part of the program.
\<close>

end
